(* ===== verification/KV_Prelude.thy ===== *)
theory KV_Prelude
  imports Main "HOL-Library.Word" "HOL-Library.List_Lexorder" "HOL-Library.Monad_Syntax"
begin

unbundle bit_operations_syntax

text \<open>
  Types and generic lemmas shared by every component of the key-value store.

  \<^item> \<open>byte\<close>, \<open>u32\<close>, \<open>u64\<close> are C++'s \<^verbatim>\<open>unsigned char\<close>, \<^verbatim>\<open>uint32_t\<close> and \<^verbatim>\<open>uint64_t\<close>.
  \<^item> \<open>bytes\<close> is \<^verbatim>\<open>std::string\<close>: a list of bytes.  The lexicographic order of
    \<^verbatim>\<open>HOL-Library.List_Lexorder\<close> on it is \<^verbatim>\<open>std::string::compare\<close>, which compares characters
    as unsigned bytes and puts a proper prefix first.
  \<^item> A read-only \<^verbatim>\<open>const char*\<close> is a \<open>view\<close>: \<open>v i\<close> is the byte at \<^verbatim>\<open>p + i\<close>, and
    \<open>None\<close> where that address is outside the object \<^verbatim>\<open>p\<close> points into or was never written.
    Advancing the pointer by \<open>n\<close> is \<open>shift n v\<close>.
  \<^item> The \<open>option\<close> monad carries executions with no defined result: a computation that reads
    outside its object, reads an uninitialised variable, dereferences null or does not end is
    \<open>None\<close>.
\<close>

type_synonym byte = "8 word"
type_synonym u32 = "32 word"
type_synonym u64 = "64 word"
type_synonym bytes = "byte list"
type_synonym view = "nat \<Rightarrow> byte option"

text \<open>Facts that move between machine words and the naturals they stand for.\<close>

named_theorems word_nat

text \<open>Rules for reading bytes through a view.\<close>

named_theorems view_simps


text \<open>The values of an \<^verbatim>\<open>int\<close>; signed arithmetic outside them is undefined.\<close>

definition int_ok :: "int \<Rightarrow> bool" where
  "int_ok i \<longleftrightarrow> - (2 ^ 31) \<le> i \<and> i < 2 ^ 31"


section \<open>Views of memory\<close>

definition shift :: "nat \<Rightarrow> view \<Rightarrow> view" where
  "shift n v = (\<lambda>i. v (n + i))"

definition reads :: "view \<Rightarrow> bytes \<Rightarrow> bool" where
  "reads v bs \<longleftrightarrow> (\<forall>i < length bs. v i = Some (bs ! i))"

definition view_of :: "bytes \<Rightarrow> view" where
  "view_of bs = (\<lambda>i. if i < length bs then Some (bs ! i) else None)"

text \<open>Copying \<open>n\<close> bytes out of a view: \<^verbatim>\<open>std::string(p, n)\<close>, \<^verbatim>\<open>fwrite(p, 1, n, f)\<close>.\<close>

definition read_bytes :: "view \<Rightarrow> nat \<Rightarrow> bytes option" where
  "read_bytes v n = those (map v [0..<n])"

lemma shift_apply: "shift n v i = v (n + i)"
  by (simp add: shift_def)

lemma shift_at_0 [simp]: "shift n v 0 = v n"
  by (simp add: shift_def)

lemma shift_0 [simp]: "shift 0 v = v"
  by (simp add: shift_def)

lemma shift_shift [simp]: "shift m (shift n v) = shift (n + m) v"
  by (simp add: shift_def fun_eq_iff add.assoc)

lemma reads_Nil [simp]: "reads v []"
  by (simp add: reads_def)

lemma reads_Cons [view_simps]: "reads v (b # bs) \<longleftrightarrow> v 0 = Some b \<and> reads (shift 1 v) bs"
  by (auto simp: reads_def shift_apply nth_Cons less_Suc_eq_0_disj split: nat.splits)

lemma reads_append [view_simps]:
  "reads v (xs @ ys) \<longleftrightarrow> reads v xs \<and> reads (shift (length xs) v) ys"
proof (induction xs arbitrary: v)
  case Nil
  then show ?case by simp
next
  case (Cons x xs)
  then show ?case by (simp add: reads_Cons)
qed

lemma reads_view_of: "reads (view_of bs) bs"
  by (simp add: reads_def view_of_def)

lemma shift_view_of: "n \<le> length bs \<Longrightarrow> shift n (view_of bs) = view_of (drop n bs)"
  by (auto simp: view_of_def shift_def fun_eq_iff)

lemma those_map_Some [simp]: "those (map (\<lambda>i. Some (f i)) xs) = Some (map f xs)"
  by (induction xs) auto

lemma those_map_cong: "(\<And>x. x \<in> set xs \<Longrightarrow> f x = g x) \<Longrightarrow> those (map f xs) = those (map g xs)"
  by (simp cong: map_cong)

lemma read_bytes_reads: 
  assumes "reads v bs"
  shows "read_bytes v (length bs) = Some bs"
proof -
  have "those (map v [0..<length bs]) = those (map (\<lambda>i. Some (bs ! i)) [0..<length bs])"
    using assms by (intro those_map_cong) (simp add: reads_def)
  then show ?thesis by (simp add: read_bytes_def map_nth)
qed

lemma those_eq_Some: "those xs = Some ys \<longleftrightarrow> xs = map Some ys"
  by (induction xs arbitrary: ys) (auto split: option.splits)

lemma read_bytes_Some: "read_bytes v n = Some bs \<longleftrightarrow> reads v bs \<and> length bs = n"
proof
  assume "read_bytes v n = Some bs"
  then have eq: "map v [0..<n] = map Some bs" by (simp add: read_bytes_def those_eq_Some)
  then have len: "length bs = n" by (metis length_map length_upt diff_zero)
  moreover have "v i = Some (bs ! i)" if "i < n" for i
    using arg_cong [OF eq, of "\<lambda>l. l ! i"] that len by simp
  ultimately show "reads v bs \<and> length bs = n" by (simp add: reads_def)
next
  assume "reads v bs \<and> length bs = n"
  then show "read_bytes v n = Some bs" using read_bytes_reads by auto
qed


section \<open>Machine words\<close>

lemma unat_of_nat_u32 [word_nat]: "n < 2 ^ 32 \<Longrightarrow> unat (of_nat n :: u32) = n"
  by (simp add: unat_of_nat take_bit_nat_eq_self)

lemma unat_of_nat_u64 [word_nat]: "n < 2 ^ 64 \<Longrightarrow> unat (of_nat n :: u64) = n"
  by (simp add: unat_of_nat take_bit_nat_eq_self)

lemma unat_u32_less: "unat (v :: u32) < 2 ^ 32"
  using unsigned_less [of v, where 'a = nat] by simp

lemma unat_u64_less: "unat (v :: u64) < 2 ^ 64"
  using unsigned_less [of v, where 'a = nat] by simp

lemma unat_ucast_u64 [word_nat]: "unat (ucast (v :: u32) :: u64) = unat v"
  using unat_u32_less [of v] by (simp add: unsigned_ucast_eq take_bit_nat_eq_self)

lemma unat_add_u32 [word_nat]:
  "unat (a :: u32) + unat b < 2 ^ 32 \<Longrightarrow> unat (a + b) = unat a + unat b"
  by (simp add: unat_word_ariths)

text \<open>Splitting a word at bit \<open>n\<close> loses nothing.\<close>

lemma take_drop_or:
  "push_bit s (take_bit n v) OR push_bit (s + n) (drop_bit n v) = push_bit s (v :: 'a::len word)"
proof (rule bit_word_eqI)
  fix k
  assume k: "k < LENGTH('a)"
  show "bit (push_bit s (take_bit n v) OR push_bit (s + n) (drop_bit n v)) k =
      bit (push_bit s v) k"
  proof (cases "s + n \<le> k")
    case True
    then have "n + (k - (s + n)) = k - s" by simp
    with True k show ?thesis by (auto simp: bit_simps)
  next
    case False
    with k show ?thesis by (auto simp: bit_simps)
  qed
qed

lemma find_append: "find P (xs @ ys) = (case find P xs of None \<Rightarrow> find P ys | Some x \<Rightarrow> Some x)"
  by (induction xs) auto


section \<open>Sorted lists as maps\<close>

text \<open>
  Lists in strict order of a key projection: \<open>put_key\<close> replaces the element of the same key or puts a new
  one at its place, \<open>find_key\<close> looks one up.  The skip list, the buffers and \<^verbatim>\<open>std::map\<close> are specified with them.
\<close>

definition put_key :: "('k \<Rightarrow> 'o::linorder) \<Rightarrow> 'k \<Rightarrow> 'k list \<Rightarrow> 'k list" where
  "put_key ukey k ks = takeWhile (\<lambda>x. ukey x < ukey k) ks @ k # dropWhile (\<lambda>x. ukey x \<le> ukey k) ks"

definition find_key :: "('k \<Rightarrow> 'o::linorder) \<Rightarrow> 'k \<Rightarrow> 'k list \<Rightarrow> 'k option" where
  "find_key ukey k ks = find (\<lambda>x. ukey x = ukey k) ks"

lemma sorted_ukey_tail:
  assumes "sorted_wrt (<) (map ukey (a # ks))"
  shows "\<forall>x \<in> set ks. ukey a < ukey x"
  using assms by simp

lemma put_key_Nil [simp]: "put_key ukey k [] = [k]"
  by (simp add: put_key_def)

lemma put_key_Cons:
  assumes "sorted_wrt (<) (map ukey (a # ks))"
  shows "put_key ukey k (a # ks) =
    (if ukey a < ukey k then a # put_key ukey k ks
     else if ukey a = ukey k then k # ks else k # a # ks)"
  using sorted_ukey_tail [OF assms] by (cases ks) (auto simp: put_key_def)

lemma set_put_key:
  assumes "sorted_wrt (<) (map ukey ks)"
  shows "set (put_key ukey k ks) = insert k {x \<in> set ks. ukey x \<noteq> ukey k}"
  using assms by (induction ks) (auto simp: put_key_Cons dest: less_imp_neq)

lemma sorted_put_key:
  assumes "sorted_wrt (<) (map ukey ks)"
  shows "sorted_wrt (<) (map ukey (put_key ukey k ks))"
  using assms
proof (induction ks)
  case (Cons a ks)
  then have "sorted_wrt (<) (map ukey ks)" by simp
  with Cons show ?case by (auto simp: put_key_Cons set_put_key)
qed simp

lemma find_key_put:
  assumes "sorted_wrt (<) (map ukey ks)"
  shows "find_key ukey q (put_key ukey k ks) = (if ukey q = ukey k then Some k else find_key ukey q ks)"
  using assms by (induction ks) (auto simp: put_key_Cons find_key_def dest: less_imp_neq)

lemma find_key_None: "find_key ukey q ks = None \<longleftrightarrow> ukey q \<notin> ukey ` set ks"
  by (auto simp: find_key_def find_None_iff image_iff)


lemma map_of_put_key:
  assumes "sorted_wrt (<) (map fst es)"
  shows "map_of (put_key fst (k, v) es) = (map_of es)(k \<mapsto> v)"
  using assms
proof (induction es)
  case (Cons e es)
  then have "sorted_wrt (<) (map fst es)" by simp
  note IH = Cons.IH [OF this]
  show ?case using Cons.prems by (cases e) (auto simp: put_key_Cons IH fun_upd_twist)
qed simp

end
