(* ===== verification/Coding.thy ===== *)
theory Coding
  imports KV_Prelude
begin

unbundle bit_operations_syntax

text \<open>
  \<^verbatim>\<open>util/coding.cpp\<close> and \<^verbatim>\<open>util/endian.cpp\<close>: variable-length and fixed-length integers.

  An encoder writes at \<^verbatim>\<open>dst\<close> and returns the advanced pointer; its model is the list of bytes it
  writes.  A decoder reads through a view; \<open>None\<close> is a read outside the object, \<open>Some None\<close>
  is the code's \<^verbatim>\<open>NULL\<close> or \<open>-1\<close>, and \<open>Some (Some (n, v))\<close> is the value together with the
  number of bytes consumed.
\<close>

section \<open>Variable-length integers\<close>

definition EncodeVarint32 :: "u32 \<Rightarrow> bytes" where
  "EncodeVarint32 v =
    (let B = 128 :: u32 in
     if v < push_bit 7 1 then [ucast v]
     else if v < push_bit 14 1 then [ucast (v OR B), ucast (drop_bit 7 v)]
     else if v < push_bit 21 1 then
       [ucast (v OR B), ucast (drop_bit 7 v OR B), ucast (drop_bit 14 v)]
     else if v < push_bit 28 1 then
       [ucast (v OR B), ucast (drop_bit 7 v OR B), ucast (drop_bit 14 v OR B), ucast (drop_bit 21 v)]
     else
       [ucast (v OR B), ucast (drop_bit 7 v OR B), ucast (drop_bit 14 v OR B),
        ucast (drop_bit 21 v OR B), ucast (drop_bit 28 v)])"

lemma unat_drop_bit [word_nat]: "unat (drop_bit n v) = unat v div 2 ^ n"
  by (subst unat_drop_bit_eq) (rule drop_bit_eq_div)

lemma drop_bit_7_less:
  "(128 :: u32) \<le> v \<Longrightarrow> unat (drop_bit 7 v) < unat v"
  "(128 :: u64) \<le> w \<Longrightarrow> unat (drop_bit 7 w) < unat w"
  unfolding unat_drop_bit by (simp_all add: word_le_nat_alt)

function EncodeVarint64 :: "u64 \<Rightarrow> bytes" where
  "EncodeVarint64 v =
    (let B = 128 in
     if v \<ge> B then ucast ((v AND (B - 1)) OR B) # EncodeVarint64 (drop_bit 7 v)
     else [ucast v])"
  by pat_completeness auto
termination
  by (relation "measure unat") (auto intro: drop_bit_7_less)

function VarintLength_loop :: "u64 \<Rightarrow> int \<Rightarrow> int" where
  "VarintLength_loop v len = (if v \<ge> 128 then VarintLength_loop (drop_bit 7 v) (len + 1) else len)"
  by pat_completeness auto
termination
  by (relation "measure (unat o fst)") (auto intro: drop_bit_7_less)

definition VarintLength :: "u64 \<Rightarrow> int" where
  "VarintLength v = VarintLength_loop v 1"

function GetVarint32Ptr_loop ::
  "view \<Rightarrow> nat \<Rightarrow> nat \<Rightarrow> nat \<Rightarrow> u32 \<Rightarrow> (nat \<times> u32) option option" where
  "GetVarint32Ptr_loop p i limit shft result =
    (if shft \<le> 28 \<and> i < limit then
       (case p i of
          None \<Rightarrow> None
        | Some c \<Rightarrow>
            let b = ucast c :: u32 in
            if b AND 128 \<noteq> 0
            then GetVarint32Ptr_loop p (i + 1) limit (shft + 7) (result OR push_bit shft (b AND 127))
            else Some (Some (i + 1, result OR push_bit shft b)))
     else Some None)"
  by pat_completeness auto
termination
  by (relation "measure (\<lambda>(p, i, limit, shft, result). limit - i)") auto

definition GetVarint32Ptr :: "view \<Rightarrow> nat \<Rightarrow> (nat \<times> u32) option option" where
  "GetVarint32Ptr p limit = GetVarint32Ptr_loop p 0 limit 0 0"

function GetVarint64Ptr_loop ::
  "view \<Rightarrow> nat \<Rightarrow> nat \<Rightarrow> nat \<Rightarrow> u64 \<Rightarrow> (nat \<times> u64) option option" where
  "GetVarint64Ptr_loop p i limit shft result =
    (if shft \<le> 63 \<and> i < limit then
       (case p i of
          None \<Rightarrow> None
        | Some c \<Rightarrow>
            let b = ucast c :: u64 in
            if b AND 128 \<noteq> 0
            then GetVarint64Ptr_loop p (i + 1) limit (shft + 7) (result OR push_bit shft (b AND 127))
            else Some (Some (i + 1, result OR push_bit shft b)))
     else Some None)"
  by pat_completeness auto
termination
  by (relation "measure (\<lambda>(p, i, limit, shft, result). limit - i)") auto

definition GetVarint64Ptr :: "view \<Rightarrow> nat \<Rightarrow> (nat \<times> u64) option option" where
  "GetVarint64Ptr p limit = GetVarint64Ptr_loop p 0 limit 0 0"

definition GetVarint32 :: "view \<Rightarrow> nat \<Rightarrow> (nat \<times> u32) option option" where
  "GetVarint32 data sz =
    (case GetVarint32Ptr data sz of
       None \<Rightarrow> None
     | Some None \<Rightarrow> Some None
     | Some (Some (q, value)) \<Rightarrow> Some (Some (q, value)))"

definition GetVarint64 :: "view \<Rightarrow> nat \<Rightarrow> (nat \<times> u64) option option" where
  "GetVarint64 data sz =
    (case GetVarint64Ptr data sz of
       None \<Rightarrow> None
     | Some None \<Rightarrow> Some None
     | Some (Some (q, value)) \<Rightarrow> Some (Some (q, value)))"

declare EncodeVarint64.simps [simp del] VarintLength_loop.simps [simp del]
  GetVarint32Ptr_loop.simps [simp del] GetVarint64Ptr_loop.simps [simp del]


section \<open>Byte order and fixed-length integers\<close>

text \<open>
  \<^verbatim>\<open>getEndianness\<close> tests the constant \<^verbatim>\<open>0xffffffff & 1\<close>, which is \<open>1\<close> on every machine, so it never looks
  at the byte order of the host.  \<^verbatim>\<open>memcpy\<close> between an integer and a buffer does depend on it: the
  host is a parameter.
\<close>

datatype host = LittleHost | BigHost

definition kBytesLittleEndian :: u32 where "kBytesLittleEndian = 0x00000001"
definition kBytesBigEndian :: u32 where "kBytesBigEndian = 0x01000000"
definition kBytesLittleEndianWord :: u32 where "kBytesLittleEndianWord = 0x00010000"
definition kBytesBigEndianWord :: u32 where "kBytesBigEndianWord = 0x00000100"
definition kBytesUnknownEndian :: u32 where "kBytesUnknownEndian = 0xffffffff"

definition getEndianness :: u32 where
  "getEndianness =
    (if (0xffffffff :: u32) AND 1 = kBytesLittleEndian then kBytesLittleEndian
     else if (0xffffffff :: u32) AND 1 = kBytesBigEndian then kBytesBigEndian
     else if (0xffffffff :: u32) AND 1 = kBytesLittleEndianWord then kBytesLittleEndianWord
     else if (0xffffffff :: u32) AND 1 = kBytesBigEndianWord then kBytesBigEndianWord
     else kBytesUnknownEndian)"

definition kLittleEndian :: bool where "kLittleEndian \<longleftrightarrow> getEndianness = kBytesLittleEndian"
definition kBigEndian :: bool where "kBigEndian \<longleftrightarrow> getEndianness = kBytesBigEndian"

definition little_bytes :: "nat \<Rightarrow> 'a::len word \<Rightarrow> bytes" where
  "little_bytes n v = map (\<lambda>i. ucast (drop_bit (8 * i) v)) [0..<n]"

definition of_little_bytes :: "bytes \<Rightarrow> 'a::len word" where
  "of_little_bytes bs = foldr (\<lambda>b acc. ucast b OR push_bit 8 acc) bs 0"

definition host_store :: "host \<Rightarrow> nat \<Rightarrow> 'a::len word \<Rightarrow> bytes" where
  "host_store h n v = (case h of LittleHost \<Rightarrow> little_bytes n v | BigHost \<Rightarrow> rev (little_bytes n v))"

definition host_load :: "host \<Rightarrow> bytes \<Rightarrow> 'a::len word" where
  "host_load h bs = (case h of LittleHost \<Rightarrow> of_little_bytes bs | BigHost \<Rightarrow> of_little_bytes (rev bs))"

definition EncodeFixed32_portable :: "u32 \<Rightarrow> bytes" where
  "EncodeFixed32_portable v =
    [ucast (v AND 0xff), ucast (drop_bit 8 v AND 0xff), ucast (drop_bit 16 v AND 0xff),
     ucast (drop_bit 24 v AND 0xff)]"

definition EncodeFixed32 :: "host \<Rightarrow> u32 \<Rightarrow> bytes" where
  "EncodeFixed32 h v = (if kLittleEndian then host_store h 4 v else EncodeFixed32_portable v)"

definition EncodeFixed64_portable :: "u64 \<Rightarrow> bytes" where
  "EncodeFixed64_portable v =
    [ucast (v AND 0xff), ucast (drop_bit 8 v AND 0xff), ucast (drop_bit 16 v AND 0xff),
     ucast (drop_bit 24 v AND 0xff), ucast (drop_bit 32 v AND 0xff), ucast (drop_bit 40 v AND 0xff),
     ucast (drop_bit 48 v AND 0xff), ucast (drop_bit 56 v AND 0xff)]"

definition EncodeFixed64 :: "host \<Rightarrow> u64 \<Rightarrow> bytes" where
  "EncodeFixed64 h v = (if kLittleEndian then host_store h 8 v else EncodeFixed64_portable v)"

text \<open>
  \<^verbatim>\<open>(uint32_t)buf[i]\<close> converts a \<^verbatim>\<open>char\<close>, which is signed on the x86-64 Linux target the README
  names, so the conversion sign-extends (\<open>scast\<close>).
\<close>

definition GetFixed32_portable :: "bytes \<Rightarrow> u32" where
  "GetFixed32_portable buf =
    scast (buf ! 0) OR push_bit 8 (scast (buf ! 1)) OR push_bit 16 (scast (buf ! 2))
      OR push_bit 24 (scast (buf ! 3))"

definition GetFixed32 :: "host \<Rightarrow> view \<Rightarrow> u32 option" where
  "GetFixed32 h buf =
    do { bs \<leftarrow> read_bytes buf 4;
         Some (if kLittleEndian then host_load h bs else GetFixed32_portable bs) }"

definition GetFixed64_portable :: "bytes \<Rightarrow> u64" where
  "GetFixed64_portable buf =
    scast (buf ! 0) OR push_bit 8 (scast (buf ! 1)) OR push_bit 16 (scast (buf ! 2))
      OR push_bit 24 (scast (buf ! 3)) OR push_bit 32 (scast (buf ! 4))
      OR push_bit 40 (scast (buf ! 5)) OR push_bit 48 (scast (buf ! 6)) OR push_bit 56 (scast (buf ! 7))"

definition GetFixed64 :: "host \<Rightarrow> view \<Rightarrow> u64 option" where
  "GetFixed64 h buf =
    do { bs \<leftarrow> read_bytes buf 8;
         Some (if kLittleEndian then host_load h bs else GetFixed64_portable bs) }"


section \<open>The reference encoding\<close>

text \<open>
  Base-128 digits of a number, least significant first, the high bit set on all but the last.
\<close>

fun varint_bytes :: "nat \<Rightarrow> bytes" where
  "varint_bytes n =
    (if n < 128 then [of_nat n] else of_nat (n mod 128 + 128) # varint_bytes (n div 128))"

declare varint_bytes.simps [simp del]

lemma varint_bytes_small: "n < 128 \<Longrightarrow> varint_bytes n = [of_nat n]"
  by (simp add: varint_bytes.simps)

lemma varint_bytes_large:
  "128 \<le> n \<Longrightarrow> varint_bytes n = of_nat (n mod 128 + 128) # varint_bytes (n div 128)"
  by (simp add: varint_bytes.simps [of n])

lemma varint_bytes_nonempty [simp]: "varint_bytes n \<noteq> []"
  by (subst varint_bytes.simps) simp

lemma cont_byte: "(of_nat (m + 128) :: byte) = of_nat m OR 128" if "m < 128"
proof -
  have "m AND 2 ^ 7 = 0"
    using that by (simp only: and_exp_eq_0_iff_not_bit) (simp add: bit_iff_odd)
  then have "m + 128 = m OR 128" by (simp add: disjunctive_add_eq_or)
  then have "(of_nat (m + 128) :: byte) = of_nat (m OR 128)" by simp
  then show ?thesis by (simp add: of_nat_or_eq)
qed

lemma bit_128: "bit (128 :: int) n \<longleftrightarrow> n = 7"
  using bit_exp_iff [of 7 n, where 'a = int] by auto

lemma cont_byte_unat:
  "(of_nat (unat (w :: 'a::len word) mod 128 + 128) :: byte) = take_bit 7 (ucast w) OR 128"
proof -
  have "unat w mod 128 = take_bit 7 (unat w)" by (simp add: take_bit_eq_mod)
  then have "(of_nat (unat w mod 128) :: byte) = take_bit 7 (ucast w)"
    by (simp only: of_nat_take_bit of_nat_unat)
  then show ?thesis by (simp only: cont_byte mod_less_divisor zero_less_numeral)
qed

lemma ucast_or_128: "(ucast ((w :: u32) OR 128) :: byte) = of_nat (unat w mod 128 + 128)"
  unfolding cont_byte_unat by (rule bit_word_eqI) (auto simp: bit_simps bit_128)

lemma ucast_and_or_128:
  "(ucast (((x :: u64) AND 127) OR 128) :: byte) = of_nat (unat x mod 128 + 128)"
proof -
  have "x AND 127 = take_bit 7 x" by (simp add: take_bit_eq_mask mask_eq_exp_minus_1)
  then show ?thesis
    unfolding cont_byte_unat by (intro bit_word_eqI) (auto simp: bit_simps bit_128)
qed

text \<open>The unrolled 32-bit encoder and the 64-bit loop both compute the reference encoding.\<close>

lemma varint_bytes_2:
  "2 ^ 7 \<le> n \<Longrightarrow> n < 2 ^ 14 \<Longrightarrow> varint_bytes n = [of_nat (n mod 128 + 128), of_nat (n div 2 ^ 7)]"
  by (simp add: varint_bytes_large [of n] varint_bytes_small less_mult_imp_div_less)

lemma varint_bytes_3:
  "2 ^ 14 \<le> n \<Longrightarrow> n < 2 ^ 21 \<Longrightarrow> varint_bytes n =
    [of_nat (n mod 128 + 128), of_nat (n div 2 ^ 7 mod 128 + 128), of_nat (n div 2 ^ 14)]"
  using varint_bytes_2 [of "n div 2 ^ 7"]
  by (simp add: varint_bytes_large [of n] less_mult_imp_div_less div_mult2_eq [symmetric]
      less_eq_div_iff_mult_less_eq)

lemma varint_bytes_4:
  "2 ^ 21 \<le> n \<Longrightarrow> n < 2 ^ 28 \<Longrightarrow> varint_bytes n =
    [of_nat (n mod 128 + 128), of_nat (n div 2 ^ 7 mod 128 + 128),
     of_nat (n div 2 ^ 14 mod 128 + 128), of_nat (n div 2 ^ 21)]"
  using varint_bytes_3 [of "n div 2 ^ 7"]
  by (simp add: varint_bytes_large [of n] less_mult_imp_div_less div_mult2_eq [symmetric]
      less_eq_div_iff_mult_less_eq)

lemma varint_bytes_5:
  "2 ^ 28 \<le> n \<Longrightarrow> n < 2 ^ 32 \<Longrightarrow> varint_bytes n =
    [of_nat (n mod 128 + 128), of_nat (n div 2 ^ 7 mod 128 + 128),
     of_nat (n div 2 ^ 14 mod 128 + 128), of_nat (n div 2 ^ 21 mod 128 + 128), of_nat (n div 2 ^ 28)]"
  using varint_bytes_4 [of "n div 2 ^ 7"]
  by (simp add: varint_bytes_large [of n] less_mult_imp_div_less div_mult2_eq [symmetric]
      less_eq_div_iff_mult_less_eq)

lemma EncodeVarint32_eq: "EncodeVarint32 v = varint_bytes (unat v)"
proof -
  have lt: "v < push_bit 7 1 \<longleftrightarrow> unat v < 2 ^ 7" "v < push_bit 14 1 \<longleftrightarrow> unat v < 2 ^ 14"
    "v < push_bit 21 1 \<longleftrightarrow> unat v < 2 ^ 21" "v < push_bit 28 1 \<longleftrightarrow> unat v < 2 ^ 28"
    by (simp_all add: word_less_nat_alt)
  have u: "(ucast v :: byte) = of_nat (unat v)" "(ucast (drop_bit k v) :: byte) = of_nat (unat v div 2 ^ k)" for k
    by (simp_all add: of_nat_unat flip: unat_drop_bit)
  have b: "unat v < 2 ^ 32" by (rule unat_u32_less)
  note enc = EncodeVarint32_def Let_def lt ucast_or_128 u unat_drop_bit
  consider "unat v < 2 ^ 7" | "2 ^ 7 \<le> unat v" "unat v < 2 ^ 14" | "2 ^ 14 \<le> unat v" "unat v < 2 ^ 21"
    | "2 ^ 21 \<le> unat v" "unat v < 2 ^ 28" | "2 ^ 28 \<le> unat v" by linarith
  then show ?thesis
  proof cases
    case 1
    then show ?thesis unfolding enc by (simp add: varint_bytes_small)
  next
    case 2
    then show ?thesis unfolding enc by (simp add: varint_bytes_2)
  next
    case 3
    then show ?thesis unfolding enc by (simp add: varint_bytes_3)
  next
    case 4
    then show ?thesis unfolding enc by (simp add: varint_bytes_4)
  next
    case 5
    with b show ?thesis unfolding enc by (simp add: varint_bytes_5)
  qed
qed

lemma EncodeVarint64_eq: "EncodeVarint64 v = varint_bytes (unat v)"
proof (induction v rule: EncodeVarint64.induct)
  case (1 v)
  show ?case
  proof (cases "v \<ge> 128")
    case True
    then have "128 \<le> unat v" by (simp add: word_le_nat_alt)
    then have "varint_bytes (unat v) = of_nat (unat v mod 128 + 128) # varint_bytes (unat (drop_bit 7 v))"
      by (simp add: varint_bytes_large unat_drop_bit)
    with True "1" show ?thesis
      by (simp add: EncodeVarint64.simps [of v] ucast_and_or_128)
  next
    case False
    then have "unat v < 128" by (simp add: word_le_nat_alt)
    with False show ?thesis
      by (simp add: EncodeVarint64.simps [of v] varint_bytes_small of_nat_unat)
  qed
qed

lemma VarintLength_loop_eq: "VarintLength_loop v len = len + int (length (varint_bytes (unat v))) - 1"
proof (induction v len rule: VarintLength_loop.induct)
  case (1 v len)
  then show ?case
    by (cases "v \<ge> 128")
      (simp_all add: VarintLength_loop.simps [of v] varint_bytes.simps [of "unat v"]
        word_le_nat_alt unat_drop_bit)
qed

lemma VarintLength_eq: "VarintLength v = int (length (varint_bytes (unat v)))"
  by (simp add: VarintLength_def VarintLength_loop_eq)

lemma length_varint_bytes: "n < 2 ^ (7 * k) \<Longrightarrow> 0 < k \<Longrightarrow> length (varint_bytes n) \<le> k"
proof (induction n arbitrary: k rule: varint_bytes.induct)
  case (1 n)
  show ?case
  proof (cases "n < 128")
    case True
    with "1.prems" show ?thesis by (simp add: varint_bytes_small)
  next
    case False
    with "1.prems" obtain k' where k: "k = Suc k'" "0 < k'"
      by (cases k; cases "k - 1") auto
    with "1.prems" have "n div 128 < 2 ^ (7 * k')" 
      by (simp add: less_mult_imp_div_less power_add mult.commute)
    with "1.IH" False k show ?thesis by (simp add: varint_bytes_large)
  qed
qed

lemma length_EncodeVarint32: "length (EncodeVarint32 v) \<le> 5"
  using length_varint_bytes [of "unat v" 5] unat_u32_less [of v] by (simp add: EncodeVarint32_eq)

lemma length_EncodeVarint64: "length (EncodeVarint64 v) \<le> 10"
  using length_varint_bytes [of "unat v" 10] unat_u64_less [of v] by (simp add: EncodeVarint64_eq)


section \<open>Decoding\<close>

text \<open>What the loop body sees of one byte of the encoding.\<close>

lemma ucast_of_nat_byte: "k < 256 \<Longrightarrow> 8 \<le> LENGTH('a) \<Longrightarrow> (ucast (of_nat k :: byte) :: 'a::len word) = of_nat k"
  by (simp add: unsigned_of_nat take_bit_nat_eq_self)

lemma and_128_nat: "m < 128 \<Longrightarrow> m AND 128 = (0 :: nat)" "m < 128 \<Longrightarrow> (m + 128) AND 128 = (128 :: nat)"
  and and_127_nat: "m AND 127 = (m mod 128 :: nat)"
proof -
  have bit_n: "k AND 2 ^ n = (if bit k n then 2 ^ n else 0)" for k n :: nat
    by (rule bit_eqI) (auto simp: bit_simps)
  show "m AND 128 = 0" if "m < 128"
    using bit_n [of m 7] that by (simp add: bit_iff_odd)
  show "(m + 128) AND 128 = 128" if "m < 128"
    using bit_n [of "m + 128" 7] that by (simp add: bit_iff_odd div_add_self2)
  show "m AND 127 = m mod 128"
    using take_bit_eq_mask [of 7 m] by (simp add: take_bit_eq_mod mask_eq_exp_minus_1)
qed

lemma byte_tests:
  fixes r :: "'a::len word"
  assumes "8 \<le> LENGTH('a)" "m < 128"
  shows "(ucast (of_nat m :: byte) :: 'a word) AND 128 = 0"
    and "(ucast (of_nat (m + 128) :: byte) :: 'a word) AND 128 \<noteq> 0"
    and "(ucast (of_nat (m + 128) :: byte) :: 'a word) AND 127 = of_nat m"
proof -
  have u: "(ucast (of_nat m :: byte) :: 'a word) = of_nat m"
    "(ucast (of_nat (m + 128) :: byte) :: 'a word) = of_nat (m + 128)"
    by (rule ucast_of_nat_byte; use assms in simp)+
  have "(2 :: nat) ^ 8 \<le> 2 ^ LENGTH('a)" using assms(1) by (intro power_increasing) auto
  then have nz: "(of_nat 128 :: 'a word) \<noteq> 0"
    by (auto simp: word_of_nat_eq_0_iff simp del: of_nat_numeral dest!: dvd_imp_le)
  show "(ucast (of_nat m :: byte) :: 'a word) AND 128 = 0"
    using of_nat_and_eq [of m 128, where 'a = "'a word"] assms(2) by (simp add: u and_128_nat)
  show "(ucast (of_nat (m + 128) :: byte) :: 'a word) AND 128 \<noteq> 0"
    using of_nat_and_eq [of "m + 128" 128, where 'a = "'a word"] assms(2) nz
    unfolding u and_128_nat(2) [OF assms(2)] by simp
  show "(ucast (of_nat (m + 128) :: byte) :: 'a word) AND 127 = of_nat m"
    using of_nat_and_eq [of "m + 128" 127, where 'a = "'a word"] assms(2)
    unfolding u and_127_nat by simp
qed

lemma or_digits:
  assumes "n < 2 ^ LENGTH('a)"
  shows "push_bit s (of_nat (n mod 128)) OR push_bit (s + 7) (of_nat (n div 128)) =
    push_bit s (of_nat n :: 'a::len word)"
proof -
  have "n mod 128 = take_bit 7 n" by (simp add: take_bit_eq_mod)
  then have t: "(of_nat (n mod 128) :: 'a word) = take_bit 7 (of_nat n)"
    by (simp only: of_nat_take_bit)
  have "n div 128 < 2 ^ LENGTH('a)" using assms by (meson div_le_dividend le_less_trans)
  with assms have "unat (of_nat (n div 128) :: 'a word) = unat (drop_bit 7 (of_nat n :: 'a word))"
    by (simp add: unat_drop_bit unat_of_nat take_bit_nat_eq_self)
  then have d: "(of_nat (n div 128) :: 'a word) = drop_bit 7 (of_nat n)"
    by (rule word_unat_eq_iff [THEN iffD2])
  show ?thesis unfolding t d by (rule take_drop_or)
qed

lemma GetVarint32Ptr_loop_varint:
  assumes "reads (shift i p) (varint_bytes n)" "i + length (varint_bytes n) \<le> limit"
    and "shft + 7 * length (varint_bytes n) \<le> 35" "n < 2 ^ 32"
  shows "GetVarint32Ptr_loop p i limit shft r =
    Some (Some (i + length (varint_bytes n), r OR push_bit shft (of_nat n)))"
  using assms
proof (induction n arbitrary: i shft r rule: varint_bytes.induct)
  case (1 n)
  show ?case
  proof (cases "n < 128")
    case True
    with "1.prems" have "p i = Some (of_nat n)"
      by (simp add: varint_bytes_small reads_Cons)
    moreover have "(of_nat n :: u32) AND 128 = 0"
      using True byte_tests(1) [of n, where 'a = 32] by (simp add: ucast_of_nat_byte)
    ultimately show ?thesis
      using True "1.prems"
      by (simp add: GetVarint32Ptr_loop.simps [of p i] varint_bytes_small ucast_of_nat_byte Let_def)
  next
    case False
    let ?b = "of_nat (n mod 128 + 128) :: byte"
    have vb: "varint_bytes n = ?b # varint_bytes (n div 128)"
      using False by (simp add: varint_bytes_large)
    have p: "p i = Some ?b" "reads (shift (i + 1) p) (varint_bytes (n div 128))"
      using "1.prems"(1) by (simp_all add: vb reads_Cons)
    have "GetVarint32Ptr_loop p i limit shft r =
      GetVarint32Ptr_loop p (i + 1) limit (shft + 7) (r OR push_bit shft (of_nat (n mod 128)))"
      using "1.prems"(2,3) byte_tests(2,3) [of "n mod 128", where 'a = 32]
      by (subst GetVarint32Ptr_loop.simps) (simp add: p vb Let_def)
    also have "\<dots> = Some (Some (i + length (varint_bytes n),
        r OR push_bit shft (of_nat (n mod 128)) OR push_bit (shft + 7) (of_nat (n div 128))))"
      using False "1.prems" p by (subst "1.IH") (simp_all add: vb or.assoc)
    finally show ?thesis
      using "1.prems"(4) or_digits [of n shft, where 'a = 32] by (simp add: or.assoc)
  qed
qed

lemma GetVarint64Ptr_loop_varint:
  assumes "reads (shift i p) (varint_bytes n)" "i + length (varint_bytes n) \<le> limit"
    and "shft + 7 * length (varint_bytes n) \<le> 70" "n < 2 ^ 64"
  shows "GetVarint64Ptr_loop p i limit shft r =
    Some (Some (i + length (varint_bytes n), r OR push_bit shft (of_nat n)))"
  using assms
proof (induction n arbitrary: i shft r rule: varint_bytes.induct)
  case (1 n)
  show ?case
  proof (cases "n < 128")
    case True
    with "1.prems" have "p i = Some (of_nat n)"
      by (simp add: varint_bytes_small reads_Cons)
    moreover have "(of_nat n :: u64) AND 128 = 0"
      using True byte_tests(1) [of n, where 'a = 64] by (simp add: ucast_of_nat_byte)
    ultimately show ?thesis
      using True "1.prems"
      by (simp add: GetVarint64Ptr_loop.simps [of p i] varint_bytes_small ucast_of_nat_byte Let_def)
  next
    case False
    let ?b = "of_nat (n mod 128 + 128) :: byte"
    have vb: "varint_bytes n = ?b # varint_bytes (n div 128)"
      using False by (simp add: varint_bytes_large)
    have p: "p i = Some ?b" "reads (shift (i + 1) p) (varint_bytes (n div 128))"
      using "1.prems"(1) by (simp_all add: vb reads_Cons)
    have "GetVarint64Ptr_loop p i limit shft r =
      GetVarint64Ptr_loop p (i + 1) limit (shft + 7) (r OR push_bit shft (of_nat (n mod 128)))"
      using "1.prems"(2,3) byte_tests(2,3) [of "n mod 128", where 'a = 64]
      by (subst GetVarint64Ptr_loop.simps) (simp add: p vb Let_def)
    also have "\<dots> = Some (Some (i + length (varint_bytes n),
        r OR push_bit shft (of_nat (n mod 128)) OR push_bit (shft + 7) (of_nat (n div 128))))"
      using False "1.prems" p by (subst "1.IH") (simp_all add: vb or.assoc)
    finally show ?thesis
      using "1.prems"(4) or_digits [of n shft, where 'a = 64] by (simp add: or.assoc)
  qed
qed

lemma GetVarint32_varint:
  assumes "reads p (varint_bytes n)" "n < 2 ^ 32" "length (varint_bytes n) \<le> sz"
  shows "GetVarint32 p sz = Some (Some (length (varint_bytes n), of_nat n))"
  using assms length_varint_bytes [of n 5] GetVarint32Ptr_loop_varint [of 0 p n sz 0 0]
  by (simp add: GetVarint32_def GetVarint32Ptr_def)

lemma GetVarint32_reads:
  assumes "reads p (EncodeVarint32 v)"
  shows "GetVarint32 p 5 = Some (Some (length (EncodeVarint32 v), v))"
  using assms GetVarint32_varint [of p "unat v" 5] length_EncodeVarint32 [of v] unat_u32_less [of v]
  by (simp add: EncodeVarint32_eq)


section \<open>Fixed-length integers\<close>

lemma kLittleEndian_True: "kLittleEndian"
  by (simp add: kLittleEndian_def getEndianness_def kBytesLittleEndian_def)

lemma length_host_store [simp]: "length (host_store h n v) = n"
  by (simp add: host_store_def little_bytes_def split: host.splits)

lemma foldr_little_bytes:
  "foldr (\<lambda>b acc. ucast b OR push_bit 8 acc) (map (\<lambda>i. ucast (drop_bit (8 * i) v) :: byte) [k..<k + n]) 0
    = take_bit (8 * n) (drop_bit (8 * k) (v :: 'a::len word))"
proof (induction n arbitrary: k)
  case 0
  then show ?case by simp
next
  case (Suc n)
  have "[k..<k + Suc n] = k # [Suc k..<Suc k + n]" by (simp add: upt_rec)
  then have "foldr (\<lambda>b acc. ucast b OR push_bit 8 acc) (map (\<lambda>i. ucast (drop_bit (8 * i) v) :: byte) [k..<k + Suc n]) 0
    = ucast (ucast (drop_bit (8 * k) v) :: byte) OR push_bit 8 (take_bit (8 * n) (drop_bit (8 * Suc k) v))"
    using Suc.IH [of "Suc k"] by simp
  also have "\<dots> = take_bit (8 * Suc n) (drop_bit (8 * k) v)"
    by (rule bit_word_eqI) (auto simp: bit_simps add.commute)
  finally show ?case .
qed

lemma host_load_store:
  assumes "LENGTH('a) \<le> 8 * n"
  shows "host_load h (host_store h n v) = (v :: 'a::len word)"
proof -
  have "of_little_bytes (little_bytes n v) = v"
    using foldr_little_bytes [of v 0 n] assms
    by (simp add: of_little_bytes_def little_bytes_def take_bit_word_eq_self)
  then show ?thesis by (simp add: host_load_def host_store_def split: host.splits)
qed

lemma length_EncodeFixed32 [simp]: "length (EncodeFixed32 h v) = 4"
  by (simp add: EncodeFixed32_def EncodeFixed32_portable_def)

lemma GetFixed32_reads: "reads p (EncodeFixed32 h v) \<Longrightarrow> GetFixed32 h p = Some v"
  using read_bytes_reads [of p "EncodeFixed32 h v"]
  by (simp add: GetFixed32_def EncodeFixed32_def kLittleEndian_True host_load_store)

lemma GetFixed64_reads: "reads p (EncodeFixed64 h v) \<Longrightarrow> GetFixed64 h p = Some v"
  using read_bytes_reads [of p "EncodeFixed64 h v"]
  by (simp add: GetFixed64_def EncodeFixed64_def kLittleEndian_True host_load_store)


section \<open>Properties\<close>

lemma GetVarint32Ptr_loop_bounds:
  "GetVarint32Ptr_loop p i limit shft r = Some (Some (n, v)) \<Longrightarrow>
    i < n \<and> n \<le> limit \<and> shft + 7 * (n - i) \<le> 35"
proof (induction p i limit shft r rule: GetVarint32Ptr_loop.induct)
  case (1 p i limit shft r)
  from "1.prems" obtain c where c: "shft \<le> 28" "i < limit" "p i = Some c"
    by (auto simp: GetVarint32Ptr_loop.simps [of p i] split: if_splits option.splits)
  show ?case
  proof (cases "(ucast c :: u32) AND 128 = 0")
    case True
    with c "1.prems" show ?thesis by (auto simp: GetVarint32Ptr_loop.simps [of p i] Let_def)
  next
    case False
    with c "1.prems" have "GetVarint32Ptr_loop p (i + 1) limit (shft + 7)
        (r OR push_bit shft (ucast c AND 127)) = Some (Some (n, v))"
      by (simp add: GetVarint32Ptr_loop.simps [of p i] Let_def)
    with "1.IH" [OF _ c(3) refl False] c show ?thesis by fastforce
  qed
qed

text \<open>
  C25: Whatever 32-bit value is encoded, decoding the bytes that \<^verbatim>\<open>EncodeVarint32\<close> wrote gives the
  value back and consumes exactly those bytes, whatever follows them in memory; the limit of 5 that
  every caller passes is always large enough.
\<close>

theorem varint32_roundtrip:
  "reads p (EncodeVarint32 v) \<Longrightarrow> GetVarint32 p 5 = Some (Some (length (EncodeVarint32 v), v))"
  by (rule GetVarint32_reads)

theorem varint32_roundtrip_witness:
  "GetVarint32 (view_of [0x8F, 0xD3, 0xF4, 0xA0, 0x03, 0x41]) 5 = Some (Some (5, 874326415))"
proof -
  have "EncodeVarint32 874326415 = [0x8F, 0xD3, 0xF4, 0xA0, 0x03]"
    by (simp add: EncodeVarint32_def)
  moreover have "reads (view_of [0x8F, 0xD3, 0xF4, 0xA0, 0x03, 0x41]) [0x8F, 0xD3, 0xF4, 0xA0, 0x03]"
    by (simp add: reads_Cons shift_view_of view_of_def)
  ultimately show ?thesis using varint32_roundtrip [of _ 874326415] by simp
qed

text \<open>
  The 64-bit varint round trip, for any limit that covers the bytes written (the tests pass 20).
\<close>

theorem varint64_roundtrip:
  assumes "reads p (EncodeVarint64 v)" "length (EncodeVarint64 v) \<le> sz"
  shows "GetVarint64 p sz = Some (Some (length (EncodeVarint64 v), v))"
  using assms length_EncodeVarint64 [of v] unat_u64_less [of v]
    GetVarint64Ptr_loop_varint [of 0 p "unat v" sz 0 0]
  by (simp add: GetVarint64_def GetVarint64Ptr_def EncodeVarint64_eq)

theorem varint64_roundtrip_witness:
  "GetVarint64 (view_of [0x80, 0x80, 0x01]) 20 = Some (Some (3, 16384))"
proof -
  have "EncodeVarint64 16384 = [0x80, 0x80, 0x01]"
    by (simp add: EncodeVarint64_eq varint_bytes_large varint_bytes_small)
  then show ?thesis
    using varint64_roundtrip [of "view_of [0x80, 0x80, 0x01]" 16384 20] reads_view_of by simp
qed

text \<open>
  C26: The unrolled 32-bit encoder writes the bytes the 64-bit loop writes for the same number, and
  \<^verbatim>\<open>VarintLength\<close>, which sizes every buffer the encoders write into, is exactly their number, from 1 to 5.
\<close>

theorem varint32_agrees_with_varint64:
  "EncodeVarint32 v = EncodeVarint64 (ucast v) \<and>
   VarintLength (ucast v) = int (length (EncodeVarint32 v)) \<and>
   1 \<le> length (EncodeVarint32 v) \<and> length (EncodeVarint32 v) \<le> 5"
  using length_EncodeVarint32 [of v]
  by (simp add: EncodeVarint64_eq VarintLength_eq EncodeVarint32_eq unat_ucast_u64 Suc_le_eq)



text \<open>
  A varint that does not end within five bytes is refused: five readable bytes that all have their
  continuation bit set make \<^verbatim>\<open>GetVarint32\<close> return \<open>-1\<close>.
\<close>

theorem varint32_overlong_rejected:
  assumes "reads p [a, b, c, d, e]"
    and "\<forall>x \<in> {a, b, c, d, e}. (ucast x :: u32) AND 128 \<noteq> 0"
  shows "GetVarint32 p 5 = Some None"
proof -
  have "p 0 = Some a" "p (Suc 0) = Some b" "p (Suc (Suc 0)) = Some c"
    "p (Suc (Suc (Suc 0))) = Some d" "p (Suc (Suc (Suc (Suc 0)))) = Some e"
    using assms(1) by (simp_all add: reads_Cons)
  then show ?thesis
    using assms(2)
    by (simp add: GetVarint32_def GetVarint32Ptr_def GetVarint32Ptr_loop.simps [where limit = 5] Let_def)
qed

theorem varint32_overlong_rejected_witness:
  "GetVarint32 (view_of [0xFF, 0xFF, 0xFF, 0xFF, 0xFF]) 5 = Some None"
  using varint32_overlong_rejected [of "view_of [0xFF, 0xFF, 0xFF, 0xFF, 0xFF]", OF reads_view_of] by simp

text \<open>
  The fixed-length integers round trip on every host, little-endian or big-endian, since \<^verbatim>\<open>memcpy\<close> is used both ways.
\<close>

theorem fixed_roundtrip:
  "(reads p (EncodeFixed32 h v) \<longrightarrow> GetFixed32 h p = Some v) \<and>
   (reads q (EncodeFixed64 h w) \<longrightarrow> GetFixed64 h q = Some w)"
  by (simp add: GetFixed32_reads GetFixed64_reads)

theorem fixed_roundtrip_witness:
  "GetFixed32 BigHost (view_of (EncodeFixed32 BigHost 258)) = Some 258 \<and>
   EncodeFixed32 BigHost 258 = [0, 0, 1, 2]"
proof -
  have "EncodeFixed32 BigHost 258 = [0, 0, 1, 2]"
    by (simp add: EncodeFixed32_def kLittleEndian_True host_store_def little_bytes_def upt_rec)
  then show ?thesis using fixed_roundtrip reads_view_of by blast
qed

text \<open>
  \<^verbatim>\<open>getEndianness\<close> answers ``little-endian'' on every host, so on a big-endian one \<^verbatim>\<open>EncodeFixed32\<close> copies
  the value most significant byte first instead of taking the portable branch; and the portable decoder
  is itself wrong, because it sign-extends each \<^verbatim>\<open>char\<close>: it reads 128 back as 4294967168.
\<close>

theorem endian_test_is_constant:
  "getEndianness = kBytesLittleEndian \<and> \<not> kBigEndian \<and>
   EncodeFixed32 BigHost v = rev (EncodeFixed32 LittleHost v) \<and>
   GetFixed32_portable (EncodeFixed32_portable 128) = 4294967168"
proof -
  have "GetFixed32_portable (EncodeFixed32_portable 128) = 4294967168"
    by (simp add: GetFixed32_portable_def EncodeFixed32_portable_def)
  moreover have "getEndianness = kBytesLittleEndian"
    using kLittleEndian_True by (simp add: kLittleEndian_def)
  moreover have "EncodeFixed32 BigHost v = rev (EncodeFixed32 LittleHost v)"
    by (simp add: EncodeFixed32_def kLittleEndian_True host_store_def)
  ultimately show ?thesis
    by (simp add: kBigEndian_def kBytesLittleEndian_def kBytesBigEndian_def)
qed

end
