(* ===== verification/Entry_Format.thy ===== *)
theory Entry_Format
  imports Coding
begin

unbundle bit_operations_syntax

text \<open>
  \<^verbatim>\<open>type/byte_array.h\<close>, \<^verbatim>\<open>type/constant.cpp\<close>, \<^verbatim>\<open>type/order_type.h\<close>, \<^verbatim>\<open>util/utils.h\<close> and
  \<^verbatim>\<open>util/comparator.h\<close>: byte arrays, the constants, the layout of an entry and the order of entries.

  An entry is \<^verbatim>\<open>varint(key size) key varint(value size) value\<close>.  The accessors of \<^verbatim>\<open>utils.h\<close> never test the
  \<open>-1\<close> of \<^verbatim>\<open>GetVarint32\<close>; where it is returned they go on with an uninitialised size, which is
  \<open>None\<close> here.  A sum \<^verbatim>\<open>length + size\<close> of an \<^verbatim>\<open>int\<close> and a \<^verbatim>\<open>uint32_t\<close> is computed in 32 bits.
\<close>

section \<open>Byte arrays, constants and order types\<close>

record ByteArray =
  ba_data :: view
  ba_size :: u32

definition mk_ByteArray :: "view \<Rightarrow> u32 \<Rightarrow> ByteArray" where
  "mk_ByteArray p n = \<lparr>ba_data = p, ba_size = n\<rparr>"

text \<open>\<^verbatim>\<open>std::string(a.Data(), a.Size())\<close>\<close>

definition string_of :: "ByteArray \<Rightarrow> bytes option" where
  "string_of a = read_bytes (ba_data a) (unat (ba_size a))"

definition str :: "string \<Rightarrow> bytes" where
  "str s = map of_char s"

definition TombValue :: bytes where
  "TombValue = str ''###TOMB_VALUE###''"

definition DataFolder :: bytes where
  "DataFolder = str ''./data''"

datatype OrderType = Put | Delete | Get

definition OrderTypeString :: "OrderType \<Rightarrow> bytes" where
  "OrderTypeString t = (case t of Put \<Rightarrow> str ''Put'' | Delete \<Rightarrow> str ''Delete'' | Get \<Rightarrow> str ''Get'')"


section \<open>Accessors of an entry\<close>

definition get32 :: "view \<Rightarrow> (nat \<times> u32) option" where
  "get32 p = (case GetVarint32 p 5 of Some (Some r) \<Rightarrow> Some r | _ \<Rightarrow> None)"

definition plus32 :: "nat \<Rightarrow> u32 \<Rightarrow> u32" where
  "plus32 len sz = of_nat len + sz"

definition ExtractUserKey :: "view \<Rightarrow> ByteArray option" where
  "ExtractUserKey entry =
    do { (len, key_size) \<leftarrow> get32 entry;
         Some (mk_ByteArray (shift len entry) key_size) }"

definition ExtractUserKey_array :: "ByteArray \<Rightarrow> ByteArray option" where
  "ExtractUserKey_array entry =
    do { (len, key_size) \<leftarrow> get32 (ba_data entry);
         Some (mk_ByteArray (shift len (ba_data entry)) key_size) }"

definition EntrySize :: "view \<Rightarrow> u32 option" where
  "EntrySize entry =
    do { (length1, size1) \<leftarrow> get32 entry;
         let total_len = plus32 length1 size1;
         (length2, size2) \<leftarrow> get32 (shift (unat (plus32 length1 size1)) entry);
         Some (total_len + of_nat length2 + size2) }"

definition ExtractUserValue :: "view \<Rightarrow> ByteArray option" where
  "ExtractUserValue entry =
    do { (length1, size1) \<leftarrow> get32 entry;
         let p = shift (unat (plus32 length1 size1)) entry;
         (length2, size2) \<leftarrow> get32 p;
         Some (mk_ByteArray (shift length2 p) size2) }"

definition ExtractUserValue_array :: "ByteArray \<Rightarrow> ByteArray option" where
  "ExtractUserValue_array entry =
    do { (length1, size1) \<leftarrow> get32 (ba_data entry);
         let p = shift (unat (plus32 length1 size1)) (ba_data entry);
         (length2, size2) \<leftarrow> get32 p;
         Some (mk_ByteArray (shift length2 p) size2) }"

text \<open>
  \<^verbatim>\<open>WrapUserKey\<close> returns a fresh buffer of \<^verbatim>\<open>encoded_len\<close> bytes.  The bytes written must fit, else the
  write is out of bounds.
\<close>

definition WrapUserKey :: "ByteArray \<Rightarrow> ByteArray option" where
  "WrapUserKey key =
    do { let encoded_len = (of_int (VarintLength (ucast (ba_size key))) + ba_size key :: u32);
         s \<leftarrow> string_of key;
         let written = EncodeVarint32 (ba_size key) @ s;
         if length written \<le> unat encoded_len
         then Some (mk_ByteArray (view_of written) encoded_len) else None }"

definition Compare :: "ByteArray \<Rightarrow> ByteArray \<Rightarrow> int option" where
  "Compare akey bkey =
    do { akey_str \<leftarrow> string_of akey;
         bkey_str \<leftarrow> string_of bkey;
         Some (if akey_str < bkey_str then -1 else if akey_str = bkey_str then 0 else 1) }"

definition Comparator :: "view \<Rightarrow> view \<Rightarrow> int option" where
  "Comparator a b =
    do { akey \<leftarrow> ExtractUserKey a;
         bkey \<leftarrow> ExtractUserKey b;
         astr_key \<leftarrow> string_of akey;
         bstr_key \<leftarrow> string_of bkey;
         Some (if astr_key < bstr_key then -1 else if astr_key = bstr_key then 0 else 1) }"


section \<open>File names\<close>

fun decimal :: "nat \<Rightarrow> bytes" where
  "decimal n = (if n < 10 then [48 + of_nat n] else decimal (n div 10) @ [48 + of_nat (n mod 10)])"

declare decimal.simps [simp del]

definition zero_pad :: "nat \<Rightarrow> bytes \<Rightarrow> bytes" where
  "zero_pad w ds = replicate (w - length ds) 48 @ ds"

text \<open>\<^verbatim>\<open>std::to_string(int)\<close> and the conversion \<^verbatim>\<open>%08d\<close>, whose width counts the sign.\<close>

definition to_string_int :: "int \<Rightarrow> bytes" where
  "to_string_int i = (if i < 0 then 45 # decimal (nat (- i)) else decimal (nat i))"

definition format_08d :: "int \<Rightarrow> bytes" where
  "format_08d i = (if i < 0 then 45 # zero_pad 7 (decimal (nat (- i))) else zero_pad 8 (decimal (nat i)))"

text \<open>
  \<^verbatim>\<open>FileName\<close> prints the file id into a buffer of 9 bytes, terminator included; a longer text overruns it.
\<close>

definition FileName :: "int \<Rightarrow> int \<Rightarrow> bytes option" where
  "FileName level_id file_id =
    (let cfile_id = format_08d file_id in
     if length cfile_id + 1 \<le> 9
     then Some (to_string_int level_id @ [95] @ take 8 cfile_id)
     else None)"


section \<open>The layout of an entry\<close>

definition wrap_key :: "bytes \<Rightarrow> bytes" where
  "wrap_key k = EncodeVarint32 (of_nat (length k)) @ k"

definition entry_bytes :: "bytes \<Rightarrow> bytes \<Rightarrow> bytes" where
  "entry_bytes k v = wrap_key k @ wrap_key v"

text \<open>An entry whose encoding is shorter than \<open>2^32\<close> bytes: what the 32-bit sums of the code can carry.\<close>

definition entry_ok :: "bytes \<Rightarrow> bytes \<Rightarrow> bool" where
  "entry_ok k v \<longleftrightarrow> length (entry_bytes k v) < 2 ^ 32"

lemma wrap_key_length: "length (wrap_key k) = length (EncodeVarint32 (of_nat (length k))) + length k"
  by (simp add: wrap_key_def)

lemma entry_okD:
  assumes "entry_ok k v"
  shows "length k < 2 ^ 32" "length v < 2 ^ 32" "length (wrap_key k) < 2 ^ 32"
    "length (wrap_key k) + length (wrap_key v) < 2 ^ 32"
  using assms by (auto simp: entry_ok_def entry_bytes_def wrap_key_length)

lemma get32_reads: "reads p (EncodeVarint32 v) \<Longrightarrow> get32 p = Some (length (EncodeVarint32 v), v)"
  by (simp add: get32_def GetVarint32_reads)

lemma get32_wrap_key:
  assumes "reads p (wrap_key k)"
  shows "get32 p = Some (length (wrap_key k) - length k, of_nat (length k))"
  using assms by (simp add: wrap_key_def reads_append get32_reads)

lemma unat_plus32_wrap:
  assumes "length (wrap_key k) < 2 ^ 32"
  shows "unat (plus32 (length (wrap_key k) - length k) (of_nat (length k))) = length (wrap_key k)"
proof -
  have "plus32 (length (wrap_key k) - length k) (of_nat (length k)) = of_nat (length (wrap_key k))"
    by (simp add: plus32_def wrap_key_length)
  with assms show ?thesis by (simp add: unat_of_nat_u32)
qed

lemma ExtractUserKey_wrap:
  assumes "reads p (wrap_key k)" "length k < 2 ^ 32"
  shows "\<exists>a. ExtractUserKey p = Some a \<and> string_of a = Some k"
proof -
  have "reads (shift (length (wrap_key k) - length k) p) k"
    using assms(1) by (simp add: wrap_key_def reads_append)
  with assms show ?thesis
    by (simp add: ExtractUserKey_def get32_wrap_key string_of_def mk_ByteArray_def unat_of_nat_u32
        read_bytes_reads)
qed


lemma reads_entryD:
  assumes "reads p (entry_bytes k v)"
  shows "reads p (wrap_key k)" "reads (shift (length (wrap_key k)) p) (wrap_key v)"
  using assms by (simp_all add: entry_bytes_def reads_append)

lemma ExtractUserKey_entry:
  assumes "reads p (entry_bytes k v)" "entry_ok k v"
  shows "\<exists>a. ExtractUserKey p = Some a \<and> string_of a = Some k"
  using ExtractUserKey_wrap [OF reads_entryD(1) [OF assms(1)] entry_okD(1) [OF assms(2)]] .

lemma EntrySize_entry:
  assumes "reads p (entry_bytes k v)" "entry_ok k v"
  shows "EntrySize p = Some (of_nat (length (entry_bytes k v)))"
proof -
  note r = reads_entryD [OF assms(1)] and ok = entry_okD [OF assms(2)]
  have "EntrySize p = Some (plus32 (length (wrap_key k) - length k) (of_nat (length k)) +
      of_nat (length (wrap_key v) - length v) + of_nat (length v))"
    by (simp add: EntrySize_def get32_wrap_key [OF r(1)] unat_plus32_wrap [OF ok(3)]
        get32_wrap_key [OF r(2)])
  then show ?thesis by (simp add: plus32_def entry_bytes_def wrap_key_length)
qed

lemma ExtractUserValue_entry:
  assumes "reads p (entry_bytes k v)" "entry_ok k v"
  shows "\<exists>a. ExtractUserValue p = Some a \<and> string_of a = Some v"
proof -
  note r = reads_entryD [OF assms(1)] and ok = entry_okD [OF assms(2)]
  let ?q = "shift (length (wrap_key k)) p"
  have "reads (shift (length (wrap_key v) - length v) ?q) v"
    using r(2) by (simp add: wrap_key_def [of v] reads_append)
  then show ?thesis
    using ok(2)
    by (simp add: ExtractUserValue_def get32_wrap_key [OF r(1)] unat_plus32_wrap [OF ok(3)]
        get32_wrap_key [OF r(2)] string_of_def mk_ByteArray_def unat_of_nat_u32 read_bytes_reads)
qed

text \<open>The \<^verbatim>\<open>ByteArray\<close> overloads only look at the data pointer.\<close>

lemma array_overloads:
  "ExtractUserKey_array e = ExtractUserKey (ba_data e)"
  "ExtractUserValue_array e = ExtractUserValue (ba_data e)"
  by (simp_all add: ExtractUserKey_array_def ExtractUserKey_def ExtractUserValue_array_def ExtractUserValue_def)

lemma Comparator_wrap:
  assumes "reads p (wrap_key a)" "length a < 2 ^ 32" "reads q (wrap_key b)" "length b < 2 ^ 32"
  shows "Comparator p q = Some (if a < b then -1 else if a = b then 0 else 1)"
  using ExtractUserKey_wrap [OF assms(1,2)] ExtractUserKey_wrap [OF assms(3,4)]
  by (auto simp: Comparator_def)

lemma WrapUserKey_eq:
  assumes "string_of key = Some k" "length (wrap_key k) < 2 ^ 32"
  shows "WrapUserKey key = Some (mk_ByteArray (view_of (wrap_key k)) (of_nat (length (wrap_key k))))"
proof -
  have k: "length k = unat (ba_size key)" using assms(1) by (simp add: string_of_def read_bytes_Some)
  then have sz: "ba_size key = of_nat (length k)" by simp
  have "VarintLength (ucast (ba_size key)) = int (length (EncodeVarint32 (ba_size key)))"
    by (simp add: VarintLength_eq EncodeVarint32_eq unat_ucast_u64)
  then have e: "(of_int (VarintLength (ucast (ba_size key))) + ba_size key :: u32) = of_nat (length (wrap_key k))"
    by (simp add: wrap_key_length sz)
  have w: "EncodeVarint32 (ba_size key) @ k = wrap_key k"
    "length (EncodeVarint32 (ba_size key)) + length k = length (wrap_key k)"
    by (simp_all add: wrap_key_def sz)
  show ?thesis
    unfolding WrapUserKey_def Let_def e using assms w by (simp add: unat_of_nat_u32)
qed


section \<open>Decimal numbers\<close>

definition digit_val :: "byte \<Rightarrow> nat" where
  "digit_val b = unat b - 48"

definition is_digit :: "byte \<Rightarrow> bool" where
  "is_digit b \<longleftrightarrow> 48 \<le> b \<and> b \<le> 57"

definition digits_val :: "bytes \<Rightarrow> nat" where
  "digits_val ds = foldl (\<lambda>n b. 10 * n + digit_val b) 0 ds"

lemma digits_val_snoc [simp]: "digits_val (ds @ [b]) = 10 * digits_val ds + digit_val b"
  by (simp add: digits_val_def)

lemma digit_byte: "n < 10 \<Longrightarrow> unat (48 + of_nat n :: byte) = 48 + n"
  by (simp add: unat_word_ariths unat_of_nat take_bit_nat_eq_self)

lemma digit_byte_props:
  "n < 10 \<Longrightarrow> digit_val (48 + of_nat n) = n" "n < 10 \<Longrightarrow> is_digit (48 + of_nat n)"
  by (simp_all add: digit_val_def is_digit_def digit_byte word_le_nat_alt)

lemma decimal_val [simp]: "digits_val (decimal n) = n"
proof (induction n rule: decimal.induct)
  case (1 n)
  then show ?case
    by (cases "n < 10") (simp_all add: decimal.simps [of n] digit_byte_props, simp add: digits_val_def digit_byte_props)
qed

lemma decimal_digits: "\<forall>b \<in> set (decimal n). is_digit b"
proof (induction n rule: decimal.induct)
  case (1 n)
  then show ?case
    by (cases "n < 10") (simp_all add: decimal.simps [of n] digit_byte_props)
qed

lemma decimal_nonempty [simp]: "decimal n \<noteq> []"
  by (subst decimal.simps) simp

lemma length_decimal_le: "0 < k \<Longrightarrow> length (decimal n) \<le> k \<longleftrightarrow> n < 10 ^ k"
proof (induction n arbitrary: k rule: decimal.induct)
  case (1 n)
  show ?case
  proof (cases "n < 10")
    case True
    then have "n < 10 ^ k" using "1.prems" by (metis One_nat_def Suc_leI less_le_trans one_le_numeral power_increasing power_one_right)
    with True "1.prems" show ?thesis by (simp add: decimal.simps [of n] Suc_le_eq)
  next
    case False
    note d = decimal.simps [of n]
    show ?thesis
    proof (cases "k = 1")
      case True
      with False show ?thesis using length_greater_0_conv [of "decimal (n div 10)"] by (simp add: d)
    next
      case k: False
      with "1.prems" obtain k' where k': "k = Suc k'" "0 < k'" by (cases k) auto
      have "n div 10 < 10 ^ k' \<longleftrightarrow> n < 10 ^ k" by (simp add: k' div_less_iff_less_mult mult.commute)
      with False "1.IH" [of k'] k' show ?thesis by (simp add: d)
    qed
  qed
qed

lemma zero_pad_val [simp]: "digits_val (zero_pad w (decimal n)) = n"
proof -
  have "foldl (\<lambda>n b. 10 * n + digit_val b) 0 (replicate m 48) = 0" for m
    by (induction m) (simp_all add: digit_val_def)
  then show ?thesis using decimal_val [of n] by (simp add: digits_val_def zero_pad_def)
qed

lemma zero_pad_digits: "\<forall>b \<in> set (zero_pad w (decimal n)). is_digit b"
  using decimal_digits [of n] by (auto simp: zero_pad_def is_digit_def word_le_nat_alt)

lemma length_zero_pad [simp]: "length (zero_pad w ds) = max w (length ds)"
  by (simp add: zero_pad_def)


section \<open>Properties\<close>

text \<open>
  C28: Reading an entry back: through any pointer to the encoding of a key and a value, the accessors of
  \<^verbatim>\<open>utils.h\<close> find exactly that key and that value, and \<^verbatim>\<open>EntrySize\<close> is the length of the encoding, as
  long as the encoding is shorter than \<open>2^32\<close> bytes.
\<close>

theorem entry_accessors:
  assumes "reads p (entry_bytes k v)" "entry_ok k v"
  shows "Option.bind (ExtractUserKey p) string_of = Some k \<and>
    Option.bind (ExtractUserValue p) string_of = Some v \<and>
    EntrySize p = Some (of_nat (length (entry_bytes k v)))"
  using ExtractUserKey_entry [OF assms] ExtractUserValue_entry [OF assms] EntrySize_entry [OF assms] by auto

theorem entry_accessors_witness:
  "Option.bind (ExtractUserKey (view_of [1, 65, 2, 66, 67])) string_of = Some [65] \<and>
   Option.bind (ExtractUserValue (view_of [1, 65, 2, 66, 67])) string_of = Some [66, 67] \<and>
   EntrySize (view_of [1, 65, 2, 66, 67]) = Some 5"
proof -
  have "entry_bytes [65] [66, 67] = [1, 65, 2, 66, 67]"
    by (simp add: entry_bytes_def wrap_key_def EncodeVarint32_def)
  then show ?thesis
    using entry_accessors [of "view_of [1, 65, 2, 66, 67]" "[65]" "[66, 67]"]
      reads_view_of [of "[1, 65, 2, 66, 67]"]
    by (simp add: entry_ok_def)
qed

text \<open>
  C29: The comparator of the skip list is the lexicographic order of the user keys: negative, zero or
  positive as the first key is below, equal to or above the second, whatever follows the keys in memory.
\<close>

theorem comparator_is_key_order:
  assumes "reads p (wrap_key a)" "length a < 2 ^ 32" "reads q (wrap_key b)" "length b < 2 ^ 32"
  shows "\<exists>c. Comparator p q = Some c \<and> (c < 0 \<longleftrightarrow> a < b) \<and> (c = 0 \<longleftrightarrow> a = b) \<and> (0 < c \<longleftrightarrow> b < a)"
  using Comparator_wrap [OF assms] by auto

theorem comparator_is_key_order_witness:
  "\<exists>c. Comparator (view_of [1, 200]) (view_of [2, 100, 7]) = Some c \<and>
    (c < 0 \<longleftrightarrow> [200 :: byte] < [100, 7]) \<and> (c = 0 \<longleftrightarrow> [200 :: byte] = [100, 7]) \<and> (0 < c \<longleftrightarrow> [100, 7] < [200 :: byte])"
proof -
  have "wrap_key [200] = [1, 200]" "wrap_key [100, 7] = [2, 100, 7]"
    by (simp_all add: wrap_key_def EncodeVarint32_def)
  then show ?thesis
    using comparator_is_key_order [of "view_of [1, 200]" "[200]" "view_of [2, 100, 7]" "[100, 7]"]
      reads_view_of [of "[1, 200]"] reads_view_of [of "[2, 100, 7]"] by simp
qed

lemma FileName_fits:
  assumes "0 \<le> f"
  shows "FileName l f =
    (if f < 10 ^ 8 then Some (to_string_int l @ [95] @ zero_pad 8 (decimal (nat f))) else None)"
    "f < 10 ^ 8 \<Longrightarrow> length (zero_pad 8 (decimal (nat f))) = 8"
proof -
  have len: "length (decimal (nat f)) \<le> 8 \<longleftrightarrow> f < 10 ^ 8"
    using length_decimal_le [of 8 "nat f"] assms by (simp add: nat_less_iff)
  then show "FileName l f = (if f < 10 ^ 8 then Some (to_string_int l @ [95] @ zero_pad 8 (decimal (nat f))) else None)"
    "f < 10 ^ 8 \<Longrightarrow> length (zero_pad 8 (decimal (nat f))) = 8"
    using assms by (auto simp: FileName_def format_08d_def Let_def)
qed

text \<open>
  C32: \<^verbatim>\<open>FileName\<close> overruns its 9-byte buffer for every file id of nine or more digits; for the non-negative ids
  below \<open>10^8\<close> it writes the level, an underscore and the id in exactly eight digits.
\<close>

theorem file_name_buffer:
  assumes "0 \<le> f"
  shows "(FileName l f = None \<longleftrightarrow> 10 ^ 8 \<le> f) \<and>
    (f < 10 ^ 8 \<longrightarrow> FileName l f = Some (to_string_int l @ [95] @ zero_pad 8 (decimal (nat f))) \<and>
      length (zero_pad 8 (decimal (nat f))) = 8)"
  using FileName_fits(1) [OF assms, of l] FileName_fits(2) [OF assms] by auto

theorem file_name_buffer_witness:
  "FileName 0 100000000 = None \<and> FileName 1 42 = Some (str ''1_00000042'')"
proof -
  have d: "decimal 42 = [52, 50]" "decimal 1 = [49]" by (simp_all add: decimal.simps)
  have "zero_pad 8 [52, 50] = [48, 48, 48, 48, 48, 48, 52, 50]"
    by (simp add: zero_pad_def eval_nat_numeral)
  with d show ?thesis
    using file_name_buffer [of 100000000 0] file_name_buffer [of 42 1]
    by (simp add: str_def to_string_int_def)
qed

end
