(* ===== verification/File_Format.thy ===== *)
theory File_Format
  imports Entry_Format
begin

text \<open>
  \<^verbatim>\<open>db/file.h\<close>, \<^verbatim>\<open>StorageBuffer::Flush\<close> and the two readers of \<^verbatim>\<open>StorageEngine\<close>: the format of a data file.

  A file is \<^verbatim>\<open>key(lower) key(upper) fixed32(index offset) entry* index*\<close>, where an index item is
  \<^verbatim>\<open>key varint32(entry offset)\<close>.  \<open>None\<close> is undefined behaviour (reading outside a buffer, \<^verbatim>\<open>front()\<close>
  of an empty vector, a mapping that failed), an uncaught exception of \<^verbatim>\<open>stoi\<close> or a failed \<^verbatim>\<open>assert\<close>.

  The order in which a \<^verbatim>\<open>std::unordered_map\<close> is iterated is unspecified: it is the parameter \<open>iter\<close>
  of \<^verbatim>\<open>Flush\<close>, of which only \<open>iterates\<close> is assumed, that it yields every binding once.
\<close>

type_synonym key_table = "bytes \<Rightarrow> u32 option"
type_synonym iteration = "key_table \<Rightarrow> (bytes \<times> u32) list"

definition iterates :: "iteration \<Rightarrow> bool" where
  "iterates iter \<longleftrightarrow> (\<forall>m. finite (dom m) \<longrightarrow> map_of (iter m) = m \<and> distinct (map fst (iter m)))"

definition sorted_iter :: iteration where
  "sorted_iter m = map (\<lambda>k. (k, the (m k))) (sorted_list_of_set (dom m))"


section \<open>Writing a file\<close>

text \<open>The header writes the key of an entry as it is stored, with its length.\<close>

definition flush_bound :: "ByteArray \<Rightarrow> (bytes \<times> u32) option" where
  "flush_bound e =
    do { (len, key_size) \<leftarrow> get32 (ba_data e);
         bs \<leftarrow> read_bytes (ba_data e) (unat (plus32 len key_size));
         Some (bs, plus32 len key_size) }"

fun Flush_entries :: "ByteArray list \<Rightarrow> u32 \<Rightarrow> bytes \<Rightarrow> key_table \<Rightarrow> (bytes \<times> key_table) option" where
  "Flush_entries [] offset prev key_offset = Some ([], key_offset)"
| "Flush_entries (entry # content) offset prev key_offset =
    do { key \<leftarrow> ExtractUserKey_array entry;
         user_key \<leftarrow> string_of key;
         if user_key < prev then None
         else
           do { written \<leftarrow> string_of entry;
                (rest, key_offset') \<leftarrow>
                  Flush_entries content (offset + ba_size entry) user_key (key_offset(user_key \<mapsto> offset));
                Some (written @ rest, key_offset') } }"

definition index_item :: "bytes \<times> u32 \<Rightarrow> bytes" where
  "index_item item = EncodeVarint32 (of_nat (length (fst item))) @ fst item @ EncodeVarint32 (snd item)"

definition Flush :: "host \<Rightarrow> iteration \<Rightarrow> ByteArray list \<Rightarrow> key_table \<Rightarrow> u32 \<Rightarrow> (bytes \<times> key_table) option" where
  "Flush host iter content key_offset data_size =
    (if content = [] then None
     else
       do { (lower, lower_len) \<leftarrow> flush_bound (hd content);
            (upper, upper_len) \<leftarrow> flush_bound (last content);
            let offset = lower_len + upper_len;
            let index_offset = offset + 4 + data_size;
            (entries, key_offset') \<leftarrow> Flush_entries content (offset + 4) (str ''00000'') key_offset;
            Some (lower @ upper @ EncodeFixed32 host index_offset @ entries @ concat (map index_item (iter key_offset')),
                  key_offset') })"


section \<open>Opening a file\<close>

record File =
  level_id :: int
  file_id :: int
  file_size :: u32
  file_name :: bytes
  lower_bound :: bytes
  upper_bound :: bytes
  mmap :: view

text \<open>The files of the data folder, by path.\<close>

type_synonym disk = "bytes \<Rightarrow> bytes option"

definition FilePath :: "bytes \<Rightarrow> bytes" where
  "FilePath name = DataFolder @ str ''/'' @ name"

definition is_space :: "byte \<Rightarrow> bool" where
  "is_space b \<longleftrightarrow> b = 32 \<or> (9 \<le> b \<and> b \<le> 13)"

text \<open>\<^verbatim>\<open>std::stoi\<close>: blanks, a sign, then the longest run of digits; it throws when there is no digit or the
  value is not an \<^verbatim>\<open>int\<close>.\<close>

definition stoi :: "bytes \<Rightarrow> int option" where
  "stoi s =
    (let t = dropWhile is_space s;
         neg = (t \<noteq> [] \<and> hd t = 45);
         u = (if t \<noteq> [] \<and> (hd t = 45 \<or> hd t = 43) then tl t else t);
         ds = takeWhile is_digit u;
         n = (if neg then - int (digits_val ds) else int (digits_val ds))
     in if ds = [] \<or> n < - (2 ^ 31) \<or> 2 ^ 31 \<le> n then None else Some n)"

text \<open>\<^verbatim>\<open>find("_")\<close> and the two \<^verbatim>\<open>substr\<close>; without an underscore \<^verbatim>\<open>npos\<close> makes both the whole name.\<close>

definition split_name :: "bytes \<Rightarrow> bytes \<times> bytes" where
  "split_name name =
    (if 95 \<in> set name then (takeWhile (\<lambda>b. b \<noteq> 95) name, tl (dropWhile (\<lambda>b. b \<noteq> 95) name)) else (name, name))"

definition GetFileSize :: "disk \<Rightarrow> bytes \<Rightarrow> u32" where
  "GetFileSize d path = (case d path of None \<Rightarrow> - 1 | Some bs \<Rightarrow> of_nat (length bs))"

text \<open>\<^verbatim>\<open>file_size_ < 0\<close> is never true of a \<^verbatim>\<open>uint32_t\<close>; a file that is missing is mapped to nothing.\<close>

definition map_file :: "disk \<Rightarrow> bytes \<Rightarrow> u32 \<Rightarrow> view" where
  "map_file d path n = (case d path of None \<Rightarrow> (\<lambda>_. None) | Some bs \<Rightarrow> view_of (take (unat n) bs))"

definition File_new :: "disk \<Rightarrow> bytes \<Rightarrow> File option" where
  "File_new d name =
    do { level \<leftarrow> stoi (fst (split_name name));
         fid \<leftarrow> stoi (snd (split_name name));
         let n = GetFileSize d (FilePath name);
         let p = map_file d (FilePath name) n;
         (len1, key_size1) \<leftarrow> get32 p;
         lower \<leftarrow> read_bytes (shift len1 p) (unat key_size1);
         let q = shift (len1 + unat key_size1) p;
         (len2, key_size2) \<leftarrow> get32 q;
         upper \<leftarrow> read_bytes (shift len2 q) (unat key_size2);
         Some \<lparr>level_id = level, file_id = fid, file_size = n, file_name = name,
               lower_bound = lower, upper_bound = upper, mmap = p\<rparr> }"

text \<open>\<^verbatim>\<open>File::Delete\<close> removes the file; the result is \<^verbatim>\<open>0\<close> when it was there.\<close>

definition File_Delete :: "disk \<Rightarrow> File \<Rightarrow> int \<times> disk" where
  "File_Delete d f =
    (if d (FilePath (file_name f)) = None then (-1, d) else (0, d(FilePath (file_name f) := None)))"


section \<open>Reading a file\<close>

partial_function (option) LoadKeyOffset_loop :: "view \<Rightarrow> u32 \<Rightarrow> nat \<Rightarrow> key_table \<Rightarrow> key_table option" where
  "LoadKeyOffset_loop buf fsize p key_offset =
    (if p < unat fsize then
       do { (length1, key_size) \<leftarrow> get32 (shift p buf);
            key \<leftarrow> read_bytes (shift (p + length1) buf) (unat key_size);
            (length2, offset) \<leftarrow> get32 (shift (p + length1 + unat key_size) buf);
            LoadKeyOffset_loop buf fsize (p + length1 + unat key_size + length2) (key_offset(key \<mapsto> offset)) }
     else Some key_offset)"

definition LoadKeyOffset_file :: "host \<Rightarrow> File \<Rightarrow> key_table \<Rightarrow> key_table option" where
  "LoadKeyOffset_file host f key_offset =
    do { (length1, size1) \<leftarrow> get32 (mmap f);
         let p1 = unat (plus32 length1 size1);
         (length2, size2) \<leftarrow> get32 (shift p1 (mmap f));
         let p2 = p1 + unat (plus32 length2 size2);
         index_offset \<leftarrow> GetFixed32 host (shift p2 (mmap f));
         LoadKeyOffset_loop (mmap f) (file_size f) (unat index_offset) key_offset }"

definition GetValueByOffset_file :: "File \<Rightarrow> u32 \<Rightarrow> bytes option" where
  "GetValueByOffset_file f offset =
    do { let p = shift (unat offset) (mmap f);
         (length1, size1) \<leftarrow> get32 p;
         let q = shift (unat (plus32 length1 size1)) p;
         (length2, size2) \<leftarrow> get32 q;
         read_bytes (shift length2 q) (unat size2) }"


section \<open>The image of a file\<close>

type_synonym kv = "bytes \<times> bytes"

definition entry_of :: "kv \<Rightarrow> bytes" where
  "entry_of e = entry_bytes (fst e) (snd e)"

definition entries_of :: "kv list \<Rightarrow> bytes" where
  "entries_of es = concat (map entry_of es)"

definition header_of :: "kv list \<Rightarrow> bytes" where
  "header_of es = wrap_key (fst (hd es)) @ wrap_key (fst (last es))"

fun table_from :: "nat \<Rightarrow> kv list \<Rightarrow> key_table \<Rightarrow> key_table" where
  "table_from pos [] t = t"
| "table_from pos (e # es) t = table_from (pos + length (entry_of e)) es (t(fst e \<mapsto> of_nat pos))"

definition file_table :: "kv list \<Rightarrow> key_table" where
  "file_table es = table_from (length (header_of es) + 4) es Map.empty"

definition file_image :: "host \<Rightarrow> iteration \<Rightarrow> kv list \<Rightarrow> bytes" where
  "file_image host iter es =
    header_of es @ EncodeFixed32 host (of_nat (length (header_of es) + 4 + length (entries_of es))) @
    entries_of es @ concat (map index_item (iter (file_table es)))"

text \<open>Contents that can be written: in strict key order, the first key not below the constant \<^verbatim>\<open>prev\<close>
  starts from, and an image of less than \<open>2^32\<close> bytes.\<close>

definition content_ok :: "kv list \<Rightarrow> bool" where
  "content_ok es \<longleftrightarrow> es \<noteq> [] \<and> sorted_wrt (<) (map fst es) \<and> (\<forall>e \<in> set es. entry_ok (fst e) (snd e)) \<and>
    str ''00000'' \<le> fst (hd es)"

definition shows_entry :: "ByteArray \<Rightarrow> kv \<Rightarrow> bool" where
  "shows_entry a e \<longleftrightarrow> reads (ba_data a) (entry_of e) \<and> ba_size a = of_nat (length (entry_of e))"

lemma shows_entryD:
  assumes "shows_entry a e" "entry_ok (fst e) (snd e)"
  shows "string_of a = Some (entry_of e)" "\<exists>b. ExtractUserKey_array a = Some b \<and> string_of b = Some (fst e)"
    "flush_bound a = Some (wrap_key (fst e), of_nat (length (wrap_key (fst e))))"
proof -
  have r: "reads (ba_data a) (entry_bytes (fst e) (snd e))" using assms(1) by (simp add: shows_entry_def entry_of_def)
  show "string_of a = Some (entry_of e)"
    using assms by (simp add: shows_entry_def string_of_def entry_of_def entry_ok_def unat_of_nat_u32 read_bytes_reads)
  show "\<exists>b. ExtractUserKey_array a = Some b \<and> string_of b = Some (fst e)"
    unfolding array_overloads by (rule ExtractUserKey_entry [OF r assms(2)])
  note k = reads_entryD(1) [OF r] and len = entry_okD(3) [OF assms(2)]
  have "plus32 (length (wrap_key (fst e)) - length (fst e)) (of_nat (length (fst e))) = of_nat (length (wrap_key (fst e)))"
    by (simp add: plus32_def wrap_key_length)
  then show "flush_bound a = Some (wrap_key (fst e), of_nat (length (wrap_key (fst e))))"
    using unat_plus32_wrap [OF len] read_bytes_reads [OF k] by (simp add: flush_bound_def get32_wrap_key [OF k])
qed

lemma Flush_entries_correct:
  assumes "list_all2 shows_entry content es" "\<forall>e \<in> set es. entry_ok (fst e) (snd e)" "sorted_wrt (<) (map fst es)"
    and "es \<noteq> [] \<Longrightarrow> prev \<le> fst (hd es)"
  shows "Flush_entries content (of_nat pos) prev t = Some (entries_of es, table_from pos es t)"
  using assms
proof (induction content es arbitrary: pos prev t rule: list_all2_induct)
  case (Cons a content e es)
  have ok: "entry_ok (fst e) (snd e)" using Cons.prems(1) by simp
  note e = shows_entryD [OF Cons.hyps(1) ok]
  have sz: "ba_size a = of_nat (length (entry_of e))" using Cons.hyps(1) by (simp add: shows_entry_def)
  have "Flush_entries content (of_nat (pos + length (entry_of e))) (fst e) (t(fst e \<mapsto> of_nat pos)) =
      Some (entries_of es, table_from (pos + length (entry_of e)) es (t(fst e \<mapsto> of_nat pos)))"
  proof (rule Cons.IH)
    show "fst e \<le> fst (hd es)" if "es \<noteq> []" using Cons.prems(2) that by (cases es) auto
  qed (use Cons.prems in simp_all)
  then show ?case using e(1,2) sz Cons.prems(3) by (auto simp: entries_of_def)
qed (simp add: entries_of_def)

lemma Flush_correct:
  assumes "list_all2 shows_entry content es" "content_ok es"
  shows "Flush host iter content Map.empty (of_nat (length (entries_of es))) = Some (file_image host iter es, file_table es)"
proof -
  have es: "es \<noteq> []" "content \<noteq> []" using assms by (auto simp: content_ok_def)
  have hd: "shows_entry (hd content) (hd es)" "shows_entry (last content) (last es)"
    using assms(1) es by (auto simp: list_all2_conv_all_nth hd_conv_nth last_conv_nth)
  have ok: "entry_ok (fst (hd es)) (snd (hd es))" "entry_ok (fst (last es)) (snd (last es))"
    using assms(2) es by (auto simp: content_ok_def)
  note b = shows_entryD(3) [OF hd(1) ok(1)] shows_entryD(3) [OF hd(2) ok(2)]
  have "Flush_entries content (of_nat (length (header_of es) + 4)) (str ''00000'') Map.empty =
      Some (entries_of es, table_from (length (header_of es) + 4) es Map.empty)"
    using assms by (intro Flush_entries_correct) (auto simp: content_ok_def)
  then show ?thesis
    using es by (simp add: Flush_def b file_image_def file_table_def header_of_def)
qed


section \<open>Reading the image back\<close>

lemma get32_index:
  assumes "reads p (index_item (k, off))" "length k < 2 ^ 32"
  shows "get32 p = Some (length (wrap_key k) - length k, of_nat (length k))"
    "read_bytes (shift (length (wrap_key k) - length k) p) (unat (of_nat (length k) :: u32)) = Some k"
    "get32 (shift (length (wrap_key k)) p) = Some (length (EncodeVarint32 off), off)"
proof -
  have r: "reads p (wrap_key k)" "reads (shift (length (wrap_key k)) p) (EncodeVarint32 off)"
    using assms(1) by (simp_all add: index_item_def wrap_key_def reads_append)
  show "get32 p = Some (length (wrap_key k) - length k, of_nat (length k))" by (rule get32_wrap_key [OF r(1)])
  have "reads (shift (length (wrap_key k) - length k) p) k" using r(1) by (simp add: wrap_key_def reads_append)
  then show "read_bytes (shift (length (wrap_key k) - length k) p) (unat (of_nat (length k) :: u32)) = Some k"
    using assms(2) by (simp add: unat_of_nat_u32 read_bytes_reads)
  show "get32 (shift (length (wrap_key k)) p) = Some (length (EncodeVarint32 off), off)" by (rule get32_reads [OF r(2)])
qed

lemma length_index_item: "length (index_item (k, off)) = length (wrap_key k) + length (EncodeVarint32 off)"
  by (simp add: index_item_def wrap_key_def)

lemma LoadKeyOffset_loop_correct:
  assumes "reads (shift p buf) (concat (map index_item items))" "\<forall>i \<in> set items. length (fst i) < 2 ^ 32"
    and "p + length (concat (map index_item items)) = unat fsize"
  shows "LoadKeyOffset_loop buf fsize p t = Some (foldl (\<lambda>t i. t(fst i \<mapsto> snd i)) t items)"
  using assms
proof (induction items arbitrary: p t)
  case Nil
  then show ?case by (subst LoadKeyOffset_loop.simps) simp
next
  case (Cons i items)
  obtain k off where i: "i = (k, off)" by (cases i)
  have r: "reads (shift p buf) (index_item (k, off))" "reads (shift (p + length (index_item (k, off))) buf) (concat (map index_item items))"
    using Cons.prems(1) by (simp_all add: i reads_append)
  have k: "length k < 2 ^ 32" using Cons.prems(2) by (simp add: i)
  note g = get32_index [OF r(1) k, unfolded shift_shift]
  have le: "length k \<le> length (wrap_key k)" by (simp add: wrap_key_length)
  then have pos: "p + (length (wrap_key k) - length k) + length k = p + length (wrap_key k)" by simp
  have "p < unat fsize" using Cons.prems(3) le
    by (cases "length (wrap_key k)") (auto simp: i length_index_item wrap_key_length EncodeVarint32_eq)
  moreover have "LoadKeyOffset_loop buf fsize (p + length (wrap_key k) + length (EncodeVarint32 off)) (t(k \<mapsto> off)) =
      Some (foldl (\<lambda>t i. t(fst i \<mapsto> snd i)) (t(k \<mapsto> off)) items)"
    using Cons.prems r(2) by (intro Cons.IH) (simp_all add: i length_index_item add.assoc)
  ultimately show ?case
    using g k by (subst LoadKeyOffset_loop.simps) (simp add: i unat_of_nat_u32 pos)
qed

lemma foldl_upd_table:
  "distinct (map fst items) \<Longrightarrow> foldl (\<lambda>t i. t(fst i \<mapsto> snd i)) t items = t ++ map_of items"
proof (induction items arbitrary: t)
  case (Cons i items)
  then have none: "map_of items (fst i) = None" by (simp add: map_of_eq_None_iff)
  have "foldl (\<lambda>t i. t(fst i \<mapsto> snd i)) t (i # items) = t(fst i \<mapsto> snd i) ++ map_of items"
    unfolding foldl_Cons by (rule Cons.IH) (use Cons.prems in simp)
  also have "\<dots> = t ++ map_of (i # items)"
    using none by (cases i) (auto simp: map_add_def fun_eq_iff split: option.splits)
  finally show ?case .
qed simp

lemma dom_table_from: "dom (table_from pos es t) = dom t \<union> fst ` set es"
  by (induction es arbitrary: pos t) auto

lemma table_from_notin: "k \<notin> fst ` set es \<Longrightarrow> table_from pos es t k = t k"
  by (induction es arbitrary: pos t) auto

lemma table_from_at:
  "k \<notin> fst ` set post \<Longrightarrow> table_from pos (pre @ (k, v) # post) t k = Some (of_nat (pos + length (entries_of pre)))"
  by (induction pre arbitrary: pos t) (auto simp: entries_of_def table_from_notin add.assoc)

text \<open>A file of the model that holds such an image.\<close>

definition holds_image :: "host \<Rightarrow> iteration \<Rightarrow> File \<Rightarrow> kv list \<Rightarrow> bool" where
  "holds_image host iter f es \<longleftrightarrow> content_ok es \<and> length (file_image host iter es) < 2 ^ 32 \<and>
    mmap f = view_of (file_image host iter es) \<and> file_size f = of_nat (length (file_image host iter es)) \<and>
    lower_bound f = fst (hd es) \<and> upper_bound f = fst (last es)"

lemma image_parts:
  assumes "holds_image host iter f es"
  shows "reads (mmap f) (wrap_key (fst (hd es)))"
    "reads (shift (length (wrap_key (fst (hd es)))) (mmap f)) (wrap_key (fst (last es)))"
    "reads (shift (length (header_of es)) (mmap f)) (EncodeFixed32 host (of_nat (length (header_of es) + 4 + length (entries_of es))))"
    "reads (shift (length (header_of es) + 4) (mmap f)) (entries_of es)"
    "reads (shift (length (header_of es) + 4 + length (entries_of es)) (mmap f)) (concat (map index_item (iter (file_table es))))"
  using assms reads_view_of [of "file_image host iter es"]
  by (simp_all add: holds_image_def file_image_def header_of_def reads_append add.assoc)

lemma image_bounds:
  assumes "holds_image host iter f es"
  shows "length (wrap_key (fst (hd es))) < 2 ^ 32" "length (wrap_key (fst (last es))) < 2 ^ 32"
    "length (header_of es) + 4 + length (entries_of es) < 2 ^ 32"
    "length (header_of es) + 4 + length (entries_of es) + length (concat (map index_item (iter (file_table es)))) = unat (file_size f)"
proof -
  have "length (file_image host iter es) =
      length (header_of es) + 4 + length (entries_of es) + length (concat (map index_item (iter (file_table es))))"
    by (simp add: file_image_def)
  moreover have "length (file_image host iter es) < 2 ^ 32" "unat (file_size f) = length (file_image host iter es)"
    using assms by (simp_all add: holds_image_def unat_of_nat_u32)
  ultimately show "length (wrap_key (fst (hd es))) < 2 ^ 32" "length (wrap_key (fst (last es))) < 2 ^ 32"
    "length (header_of es) + 4 + length (entries_of es) < 2 ^ 32"
    "length (header_of es) + 4 + length (entries_of es) + length (concat (map index_item (iter (file_table es)))) = unat (file_size f)"
    by (simp_all add: header_of_def)
qed

lemma iter_file_table:
  assumes "iterates iter" "content_ok es"
  shows "map_of (iter (file_table es)) = file_table es" "distinct (map fst (iter (file_table es)))"
    "\<forall>i \<in> set (iter (file_table es)). length (fst i) < 2 ^ 32"
proof -
  have dom: "dom (file_table es) = fst ` set es" by (simp add: file_table_def dom_table_from)
  then have "finite (dom (file_table es))" by simp
  with assms(1) show it: "map_of (iter (file_table es)) = file_table es" "distinct (map fst (iter (file_table es)))"
    by (simp_all add: iterates_def)
  show "\<forall>i \<in> set (iter (file_table es)). length (fst i) < 2 ^ 32"
  proof
    fix i assume "i \<in> set (iter (file_table es))"
    then have "fst i \<in> dom (map_of (iter (file_table es)))" by (simp add: dom_map_of_conv_image_fst)
    then obtain e where "e \<in> set es" "fst i = fst e" using it(1) dom by auto
    then show "length (fst i) < 2 ^ 32" using assms(2) entry_okD(1) by (metis content_ok_def)
  qed
qed

lemma LoadKeyOffset_image:
  assumes f: "holds_image host iter f es" and "iterates iter"
  shows "LoadKeyOffset_file host f Map.empty = Some (file_table es)"
proof -
  note r = image_parts [OF f] and b = image_bounds [OF f]
  have ok: "content_ok es" using f by (simp add: holds_image_def)
  note it = iter_file_table [OF assms(2) ok]
  have hdr: "length (header_of es) = length (wrap_key (fst (hd es))) + length (wrap_key (fst (last es)))"
    by (simp add: header_of_def)
  have "GetFixed32 host (shift (length (header_of es)) (mmap f)) = Some (of_nat (length (header_of es) + 4 + length (entries_of es)))"
    by (rule GetFixed32_reads [OF r(3)])
  moreover have "unat (of_nat (length (header_of es) + 4 + length (entries_of es)) :: u32) = length (header_of es) + 4 + length (entries_of es)"
    by (rule unat_of_nat_u32 [OF b(3)])
  moreover have "LoadKeyOffset_loop (mmap f) (file_size f) (length (header_of es) + 4 + length (entries_of es)) Map.empty =
      Some (file_table es)"
    using LoadKeyOffset_loop_correct [OF r(5) it(3) b(4)] foldl_upd_table [OF it(2)] it(1) by simp
  ultimately show ?thesis
    by (simp add: LoadKeyOffset_file_def get32_wrap_key [OF r(1)] unat_plus32_wrap [OF b(1)]
        get32_wrap_key [OF r(2)] unat_plus32_wrap [OF b(2)] hdr [symmetric])
qed

lemma GetValueByOffset_eq:
  "GetValueByOffset_file f off = Option.bind (ExtractUserValue (shift (unat off) (mmap f))) string_of"
  by (simp add: GetValueByOffset_file_def ExtractUserValue_def string_of_def mk_ByteArray_def Let_def split_def)
    (simp add: bind_assoc split_def add.assoc)

lemma GetValueByOffset_image:
  assumes f: "holds_image host iter f es" and e: "(k, v) \<in> set es"
  shows "\<exists>off. file_table es k = Some off \<and> off \<noteq> 0 \<and> GetValueByOffset_file f off = Some v"
proof -
  obtain pre post where es: "es = pre @ (k, v) # post" using split_list [OF e] by blast
  have ok: "content_ok es" using f by (simp add: holds_image_def)
  then have "\<forall>x \<in> fst ` set post. k < x" by (auto simp: content_ok_def es sorted_wrt_append)
  then have fresh: "k \<notin> fst ` set post" by (metis less_irrefl)
  let ?off = "length (header_of es) + 4 + length (entries_of pre)"
  have tab: "file_table es k = Some (of_nat ?off)"
    unfolding file_table_def by (subst (2) es) (simp add: table_from_at [OF fresh] add.assoc)
  have "entries_of es = entries_of pre @ entry_of (k, v) @ entries_of post" by (simp add: es entries_of_def)
  then have "reads (shift (length (header_of es) + 4) (mmap f)) (entries_of pre @ entry_of (k, v) @ entries_of post)"
    and le: "?off < 2 ^ 32"
    using image_parts(4) [OF f] image_bounds(3) [OF f] by simp_all
  then have r: "reads (shift ?off (mmap f)) (entry_bytes k v)" by (simp add: reads_append entry_of_def add.assoc)
  have "entry_ok k v" using ok e by (auto simp: content_ok_def)
  from ExtractUserValue_entry [OF r this] have "GetValueByOffset_file f (of_nat ?off) = Some v"
    unfolding GetValueByOffset_eq unat_of_nat_u32 [OF le] by auto
  moreover have "(of_nat ?off :: u32) \<noteq> 0" using le unat_of_nat_u32 [OF le] by (metis add_is_0 unat_0 zero_neq_numeral)
  ultimately show ?thesis using tab by blast
qed

lemma file_table_None: "k \<notin> fst ` set es \<Longrightarrow> file_table es k = None"
  by (simp add: file_table_def table_from_notin)


section \<open>Opening what was written\<close>

lemma takeWhile_digits: "\<forall>b \<in> set ds. is_digit b \<Longrightarrow> takeWhile is_digit ds = ds"
  by (simp add: takeWhile_eq_all_conv)

lemma digit_not_special: "is_digit b \<Longrightarrow> \<not> is_space b \<and> b \<noteq> 45 \<and> b \<noteq> 43 \<and> b \<noteq> 95"
  by (auto simp: is_digit_def is_space_def word_le_nat_alt)

lemma stoi_digits:
  assumes "\<forall>b \<in> set ds. is_digit b" "ds \<noteq> []" "digits_val ds < 2 ^ 31"
  shows "stoi ds = Some (int (digits_val ds))"
proof -
  have "is_digit (hd ds)" using assms by simp
  then have "dropWhile is_space ds = ds" "hd ds \<noteq> 45" "hd ds \<noteq> 43"
    using digit_not_special assms(2) by (cases ds; auto)+
  with assms show ?thesis by (simp add: stoi_def Let_def takeWhile_digits)
qed

lemma split_name_digits:
  assumes "\<forall>b \<in> set ds. is_digit b"
  shows "split_name (ds @ 95 # es) = (ds, es)"
  using assms digit_not_special by (auto simp: split_name_def takeWhile_append dropWhile_append)

text \<open>The name of a file tells its level and its id.\<close>

lemma FileName_parse:
  assumes "FileName level fid = Some name" "0 \<le> level" "level < 2 ^ 31" "0 \<le> fid"
  shows "stoi (fst (split_name name)) = Some level" "stoi (snd (split_name name)) = Some fid"
proof -
  have fid: "fid < 10 ^ 8" and name: "name = decimal (nat level) @ 95 # zero_pad 8 (decimal (nat fid))"
    using assms length_decimal_le [of 8 "nat fid"]
    by (auto simp: FileName_def format_08d_def to_string_int_def Let_def nat_less_iff split: if_splits)
  have sp: "split_name name = (decimal (nat level), zero_pad 8 (decimal (nat fid)))"
    unfolding name by (rule split_name_digits [OF decimal_digits])
  have "zero_pad 8 (decimal (nat fid)) \<noteq> []" by (simp add: zero_pad_def)
  then show "stoi (fst (split_name name)) = Some level" "stoi (snd (split_name name)) = Some fid"
    using stoi_digits [OF decimal_digits [of "nat level"]] stoi_digits [OF zero_pad_digits [of 8 "nat fid"]] assms fid
    by (simp_all add: sp nat_less_iff)
qed

lemma File_new_image:
  assumes name: "FileName level fid = Some name" "0 \<le> level" "level < 2 ^ 31" "0 \<le> fid"
    and d: "d (FilePath name) = Some (file_image host iter es)"
    and ok: "content_ok es" and len: "length (file_image host iter es) < 2 ^ 32"
  shows "\<exists>f. File_new d name = Some f \<and> holds_image host iter f es \<and> level_id f = level \<and> file_id f = fid \<and> file_name f = name"
proof -
  let ?img = "file_image host iter es" and ?lo = "fst (hd es)" and ?hi = "fst (last es)"
  let ?v = "view_of ?img"
  define f where "f = \<lparr>level_id = level, file_id = fid, file_size = of_nat (length ?img), file_name = name,
    lower_bound = ?lo, upper_bound = ?hi, mmap = ?v\<rparr>"
  have f: "holds_image host iter f es" using ok len by (simp add: holds_image_def f_def)
  note r = image_parts(1,2) [OF f, unfolded f_def, simplified] and b = image_bounds(1,2) [OF f]
  have k: "length ?lo < 2 ^ 32" "length ?hi < 2 ^ 32" using b by (simp_all add: wrap_key_length)
  have v: "map_file d (FilePath name) (of_nat (length ?img)) = ?v"
    using d len by (simp add: map_file_def unat_of_nat_u32)
  have lo: "read_bytes (shift (length (wrap_key ?lo) - length ?lo) ?v) (length ?lo) = Some ?lo"
    using r(1) by (intro read_bytes_reads) (simp add: wrap_key_def reads_append)
  have hi: "read_bytes (shift (length (wrap_key ?hi) - length ?hi) (shift (length (wrap_key ?lo)) ?v)) (length ?hi) = Some ?hi"
    using r(2) by (intro read_bytes_reads) (simp add: wrap_key_def [of ?hi] reads_append)
  have pos: "length (wrap_key ?lo) - length ?lo + length ?lo = length (wrap_key ?lo)" by (simp add: wrap_key_length)
  have "File_new d name = Some f"
    using get32_wrap_key [OF r(1)] get32_wrap_key [OF r(2)] lo hi FileName_parse [OF name] d k
    by (simp add: File_new_def v f_def unat_of_nat_u32 pos GetFileSize_def Let_def)
  with f show ?thesis by (auto simp: f_def)
qed


section \<open>Properties\<close>

lemma iterates_sorted_iter: "iterates sorted_iter"
proof -
  have "map_of (sorted_iter m) = m" if "finite (dom m)" for m :: key_table
  proof -
    have "map_of (map (\<lambda>k. (k, the (m k))) xs) = m |` set xs" if "set xs \<subseteq> dom m" for xs
      using that by (induction xs) (auto simp: fun_eq_iff restrict_map_def)
    moreover have "m |` dom m = m" by (auto simp: restrict_map_def fun_eq_iff domIff)
    ultimately show ?thesis using \<open>finite (dom m)\<close> by (simp add: sorted_iter_def)
  qed
  then show ?thesis by (simp add: iterates_def sorted_iter_def o_def)
qed

definition array_of :: "kv \<Rightarrow> ByteArray" where
  "array_of e = mk_ByteArray (view_of (entry_of e)) (of_nat (length (entry_of e)))"

lemma shows_array_of: "list_all2 shows_entry (map array_of es) es"
  by (simp add: list_all2_conv_all_nth shows_entry_def array_of_def mk_ByteArray_def reads_view_of)

text \<open>
  C14: A data file round trip.  Whatever order the hash table is iterated in, the bytes that \<^verbatim>\<open>Flush\<close> writes for
  entries in strict key order open as a file with the level and id of its name and the first and last
  key as bounds; \<^verbatim>\<open>LoadKeyOffset\<close> reads the very table that \<^verbatim>\<open>Flush\<close> handed to the cache; its keys are those of the
  entries; and at each offset, never 0, \<^verbatim>\<open>GetValueByOffset\<close> finds the value.
\<close>

theorem data_file_roundtrip:
  assumes "iterates iter" "list_all2 shows_entry content es" "content_ok es"
    and "length (file_image host iter es) < 2 ^ 32"
    and "FileName level fid = Some name" "0 \<le> level" "level < 2 ^ 31" "0 \<le> fid"
  shows "\<exists>img ko f. Flush host iter content Map.empty (of_nat (length (entries_of es))) = Some (img, ko) \<and>
    File_new (d(FilePath name \<mapsto> img)) name = Some f \<and> level_id f = level \<and> file_id f = fid \<and>
    lower_bound f = fst (hd es) \<and> upper_bound f = fst (last es) \<and>
    LoadKeyOffset_file host f Map.empty = Some ko \<and> dom ko = fst ` set es \<and>
    (\<forall>e \<in> set es. \<exists>off. ko (fst e) = Some off \<and> off \<noteq> 0 \<and> GetValueByOffset_file f off = Some (snd e))"
proof -
  note flush = Flush_correct [OF assms(2,3), of host iter]
  obtain f where f: "File_new (d(FilePath name \<mapsto> file_image host iter es)) name = Some f" "holds_image host iter f es"
    "level_id f = level" "file_id f = fid"
    using File_new_image [OF assms(5-8) _ assms(3,4), of "d(FilePath name \<mapsto> file_image host iter es)"] by auto
  have "dom (file_table es) = fst ` set es" by (simp add: file_table_def dom_table_from)
  moreover have "lower_bound f = fst (hd es)" "upper_bound f = fst (last es)" using f(2) by (simp_all add: holds_image_def)
  moreover have "\<forall>e \<in> set es. \<exists>off. file_table es (fst e) = Some off \<and> off \<noteq> 0 \<and> GetValueByOffset_file f off = Some (snd e)"
    using GetValueByOffset_image [OF f(2)] by (metis prod.collapse)
  ultimately show ?thesis using flush f LoadKeyOffset_image [OF f(2) assms(1)] by blast
qed

theorem data_file_roundtrip_witness:
  "\<exists>img ko f. Flush LittleHost sorted_iter (map array_of [(str ''k1'', [7]), (str ''k2'', [])]) Map.empty
        (of_nat (length (entries_of [(str ''k1'', [7]), (str ''k2'', [])]))) = Some (img, ko) \<and>
    File_new [FilePath (str ''0_00000003'') \<mapsto> img] (str ''0_00000003'') = Some f \<and> level_id f = 0 \<and> file_id f = 3 \<and>
    lower_bound f = str ''k1'' \<and> upper_bound f = str ''k2'' \<and>
    LoadKeyOffset_file LittleHost f Map.empty = Some ko \<and> dom ko = {str ''k1'', str ''k2''}"
proof -
  let ?es = "[(str ''k1'', [7]), (str ''k2'', [])]"
  have lt: "str ''k1'' < str ''k2''" "\<not> str ''k2'' < str ''k1''" "str ''00000'' \<le> str ''k1''" "str ''k1'' \<noteq> str ''k2''"
    by (simp_all add: str_def)
  have enc: "entry_bytes (str ''k1'') [7] = [2, 107, 49, 1, 7]" "entry_bytes (str ''k2'') [] = [2, 107, 50, 0]"
    by (simp_all add: entry_bytes_def wrap_key_def EncodeVarint32_def str_def)
  have ok: "content_ok ?es"
    using lt by (simp add: content_ok_def entry_ok_def enc)
  have "dom (file_table ?es) = {str ''k1'', str ''k2''}" by (auto simp: file_table_def dom_table_from)
  then have "length (sorted_iter (file_table ?es)) = 2" "\<forall>i \<in> set (sorted_iter (file_table ?es)). length (index_item i) \<le> 12"
    using lt length_EncodeVarint32 [THEN order_trans] length_EncodeVarint32
    by (auto simp: sorted_iter_def index_item_def str_def intro!: add_mono [of _ 5 _ 5, simplified])
  then have "length (concat (map index_item (sorted_iter (file_table ?es)))) \<le> 24"
    by (cases "sorted_iter (file_table ?es)"; cases "tl (sorted_iter (file_table ?es))") auto
  moreover have "length (header_of ?es) = 6" by (simp add: header_of_def wrap_key_def EncodeVarint32_def str_def)
  moreover have "length (entries_of ?es) = 9" by (simp add: entries_of_def entry_of_def enc)
  ultimately have len: "length (file_image LittleHost sorted_iter ?es) < 2 ^ 32" by (simp add: file_image_def)
  have name: "FileName 0 3 = Some (str ''0_00000003'')"
    by (simp add: FileName_def format_08d_def to_string_int_def zero_pad_def decimal.simps str_def eval_nat_numeral)
  show ?thesis
    using data_file_roundtrip [OF iterates_sorted_iter shows_array_of ok len name, of Map.empty] by auto
qed

text \<open>
  C31: A key below \<^verbatim>\<open>"00000"\<close> brings the program down: \<^verbatim>\<open>Flush\<close> starts its order check from that constant, so the assertion
  fails on the first entry of such a buffer, although \<^verbatim>\<open>Add\<close> accepts every key.
\<close>

theorem flush_aborts_below_00000:
  assumes "list_all2 shows_entry content es" "es \<noteq> []" "\<forall>e \<in> set es. entry_ok (fst e) (snd e)" "fst (hd es) < str ''00000''"
  shows "Flush host iter content key_offset data_size = None"
proof -
  obtain a content' e es' where c: "content = a # content'" "es = e # es'" "shows_entry a e"
    using assms(1,2) by (cases content; cases es) auto
  have "\<exists>b. ExtractUserKey_array a = Some b \<and> string_of b = Some (fst e)"
    using shows_entryD(2) [OF c(3)] assms(3) c(2) by simp
  then have "Flush_entries content pos (str ''00000'') key_offset = None" for pos
    using assms(4) c by auto
  then show ?thesis by (simp add: Flush_def split_def bind_eq_None_conv)
qed

theorem flush_aborts_below_00000_witness:
  "Flush LittleHost sorted_iter [array_of (str ''!'', [1])] Map.empty 4 = None"
proof -
  have "entry_bytes (str ''!'') [1] = [1, 33, 1, 1]"
    by (simp add: entry_bytes_def wrap_key_def EncodeVarint32_def str_def)
  then show ?thesis
    using flush_aborts_below_00000 [OF shows_array_of, of "[(str ''!'', [1])]"]
    by (simp add: entry_ok_def str_def)
qed

text \<open>
  C30: The name of a data file carries its level and id: the constructor of \<^verbatim>\<open>File\<close> parses out of a name made by
  \<^verbatim>\<open>FileName\<close> the level and the id it was made from.
\<close>

theorem file_name_parses_back:
  assumes "FileName level fid = Some name" "0 \<le> level" "level < 2 ^ 31" "0 \<le> fid" "File_new d name = Some f"
  shows "level_id f = level \<and> file_id f = fid"
  using assms(5) FileName_parse [OF assms(1-4)] by (auto simp: File_new_def Let_def split: bind_splits)

theorem file_name_parses_back_witness:
  "\<exists>f. File_new [FilePath (str ''2_00000017'') \<mapsto> [1, 65, 1, 66]] (str ''2_00000017'') = Some f \<and> level_id f = 2 \<and> file_id f = 17"
proof -
  let ?d = "[FilePath (str ''2_00000017'') \<mapsto> [1, 65, 1, 66]]"
  have d: "decimal 17 = [49, 55]" "decimal 2 = [50]" by (simp_all add: decimal.simps)
  have "zero_pad 8 [49, 55] = [48, 48, 48, 48, 48, 48, 49, 55]" by (simp add: zero_pad_def eval_nat_numeral)
  with d have name: "FileName 2 17 = Some (str ''2_00000017'')"
    by (simp add: FileName_def format_08d_def to_string_int_def str_def)
  let ?v = "view_of [1, 65, 1, 66]"
  have w: "wrap_key [65] = [1, 65]" "wrap_key [66] = [1, 66]" by (simp_all add: wrap_key_def EncodeVarint32_def)
  have r: "reads ?v [1, 65]" "reads (shift 2 ?v) [1, 66]" "reads (shift 1 ?v) [65]" "reads (shift 3 ?v) [66]"
    using reads_view_of [of "[1, 65, 1, 66]"] by (simp_all add: reads_Cons numeral_2_eq_2 numeral_3_eq_3)
  have g: "get32 ?v = Some (1, 1)" "get32 (shift 2 ?v) = Some (1, 1)"
    using get32_wrap_key [of ?v "[65]"] get32_wrap_key [of "shift 2 ?v" "[66]"] r by (simp_all add: w)
  have "read_bytes (shift 1 ?v) 1 = Some [65]" "read_bytes (shift 3 ?v) 1 = Some [66]"
    using read_bytes_reads [OF r(3)] read_bytes_reads [OF r(4)] by simp_all
  moreover have "map_file ?d (FilePath (str ''2_00000017'')) (GetFileSize ?d (FilePath (str ''2_00000017''))) = ?v"
    by (simp add: map_file_def GetFileSize_def)
  ultimately have "\<exists>f. File_new ?d (str ''2_00000017'') = Some f"
    using g FileName_parse [OF name] by (simp only: File_new_def Let_def) (simp add: numeral_2_eq_2 numeral_3_eq_3)
  then show ?thesis using file_name_parses_back [OF name] by fastforce
qed

end
