(* ===== verification/Arena.thy ===== *)
theory Arena
  imports KV_Prelude
begin

text \<open>
  \<^verbatim>\<open>structure/memory.cpp\<close>: the arena that owns the entries and the nodes of a skip list.

  The C++ heap is a set of blocks, each created by one \<^verbatim>\<open>new char[n]\<close>.  A pointer is null or a block with an
  offset into it; \<^verbatim>\<open>new\<close> returns a block that did not exist before, with offset 0, uninitialised
  (\<open>None\<close>) and aligned for every type, as the language requires, so that the low bits of an address are
  those of its offset.  An \<^verbatim>\<open>int\<close> of the code is an integer in \<open>[-2^31, 2^31)\<close>; \<open>None\<close> is a failed
  \<^verbatim>\<open>assert\<close> (the Makefile does not define \<^verbatim>\<open>NDEBUG\<close>) or a signed overflow.
\<close>

section \<open>The heap\<close>

datatype ptr = Null | Ptr nat nat

record heap =
  next_block :: nat
  block_size :: "nat \<Rightarrow> nat"
  cell :: "nat \<Rightarrow> nat \<Rightarrow> byte option"

definition empty_heap :: heap where
  "empty_heap = \<lparr>next_block = 0, block_size = (\<lambda>_. 0), cell = (\<lambda>_ _. None)\<rparr>"

fun ptr_add :: "ptr \<Rightarrow> nat \<Rightarrow> ptr" where
  "ptr_add Null n = Null"
| "ptr_add (Ptr b i) n = Ptr b (i + n)"

definition new_char :: "heap \<Rightarrow> nat \<Rightarrow> ptr \<times> heap" where
  "new_char h n =
    (let b = next_block h in
     (Ptr b 0, h\<lparr>next_block := Suc b, block_size := (block_size h)(b := n),
                  cell := (cell h)(b := (\<lambda>_. None))\<rparr>))"

definition delete_block :: "nat \<Rightarrow> heap \<Rightarrow> heap" where
  "delete_block b h = h\<lparr>block_size := (block_size h)(b := 0), cell := (cell h)(b := (\<lambda>_. None))\<rparr>"

definition view_at :: "heap \<Rightarrow> ptr \<Rightarrow> view" where
  "view_at h p =
    (case p of Null \<Rightarrow> (\<lambda>_. None)
     | Ptr b i \<Rightarrow> (\<lambda>j. if i + j < block_size h b then cell h b (i + j) else None))"

definition write_bytes :: "heap \<Rightarrow> ptr \<Rightarrow> bytes \<Rightarrow> heap option" where
  "write_bytes h p bs =
    (case p of Null \<Rightarrow> None
     | Ptr b i \<Rightarrow>
        if i + length bs \<le> block_size h b
        then Some (h\<lparr>cell := (cell h)(b := (\<lambda>j. if i \<le> j \<and> j < i + length bs then Some (bs ! (j - i))
                                              else cell h b j))\<rparr>)
        else None)"


section \<open>The allocator\<close>

record Memory =
  alloc_ptr :: ptr
  alloc_bytes_remaining :: int
  blocks :: "nat list"
  blocks_memory :: int

definition kBlockSize :: int where "kBlockSize = 4096"

definition Memory_new :: Memory where
  "Memory_new = \<lparr>alloc_ptr = Null, alloc_bytes_remaining = 0, blocks = [], blocks_memory = 0\<rparr>"

definition AllocateNewBlock :: "heap \<Rightarrow> Memory \<Rightarrow> int \<Rightarrow> (ptr \<times> heap \<times> Memory) option" where
  "AllocateNewBlock h m block_bytes =
    (case new_char h (nat block_bytes) of
       (result, h') \<Rightarrow>
         if int_ok (blocks_memory m + block_bytes)
         then Some (result, h', m\<lparr>blocks_memory := blocks_memory m + block_bytes,
                                   blocks := blocks m @ [next_block h]\<rparr>)
         else None)"

definition AllocateFallback :: "heap \<Rightarrow> Memory \<Rightarrow> int \<Rightarrow> (ptr \<times> heap \<times> Memory) option" where
  "AllocateFallback h m bytes =
    (if bytes > kBlockSize div 4 then AllocateNewBlock h m bytes
     else do { (p, h', m') \<leftarrow> AllocateNewBlock h m kBlockSize;
               Some (p, h', m'\<lparr>alloc_ptr := ptr_add p (nat bytes),
                               alloc_bytes_remaining := kBlockSize - bytes\<rparr>) })"

definition Allocate :: "heap \<Rightarrow> Memory \<Rightarrow> int \<Rightarrow> (ptr \<times> heap \<times> Memory) option" where
  "Allocate h m bytes =
    (if \<not> bytes > 0 then None
     else if bytes \<le> alloc_bytes_remaining m
     then Some (alloc_ptr m, h, m\<lparr>alloc_ptr := ptr_add (alloc_ptr m) (nat bytes),
                                  alloc_bytes_remaining := alloc_bytes_remaining m - bytes\<rparr>)
     else AllocateFallback h m bytes)"

text \<open>The low three bits of an address.\<close>

fun addr_mod8 :: "ptr \<Rightarrow> int" where
  "addr_mod8 Null = 0"
| "addr_mod8 (Ptr b i) = int (i mod 8)"

definition align_slop :: "ptr \<Rightarrow> int" where
  "align_slop p = (let current_mod = addr_mod8 p in if current_mod = 0 then 0 else 8 - current_mod)"

definition AllocateAligned :: "heap \<Rightarrow> Memory \<Rightarrow> int \<Rightarrow> (ptr \<times> heap \<times> Memory) option" where
  "AllocateAligned h m bytes =
    (let slop = align_slop (alloc_ptr m);
         needed = bytes + slop
     in if \<not> int_ok needed then None
     else do { (result, h', m') \<leftarrow>
                 (if needed \<le> alloc_bytes_remaining m
                  then Some (ptr_add (alloc_ptr m) (nat slop), h,
                             m\<lparr>alloc_ptr := ptr_add (alloc_ptr m) (nat needed),
                               alloc_bytes_remaining := alloc_bytes_remaining m - needed\<rparr>)
                  else AllocateFallback h m bytes);
               if addr_mod8 result = 0 then Some (result, h', m') else None })"

definition Memory_delete :: "heap \<Rightarrow> Memory \<Rightarrow> heap" where
  "Memory_delete h m = fold delete_block (blocks m) h"


section \<open>Invariant and regions\<close>

definition arena_ok :: "heap \<Rightarrow> Memory \<Rightarrow> bool" where
  "arena_ok h m \<longleftrightarrow>
    (\<forall>b \<in> set (blocks m). b < next_block h) \<and> 0 \<le> alloc_bytes_remaining m \<and> 0 \<le> blocks_memory m \<and>
    (case alloc_ptr m of
       Null \<Rightarrow> alloc_bytes_remaining m = 0
     | Ptr b i \<Rightarrow> b \<in> set (blocks m) \<and> int i + alloc_bytes_remaining m = int (block_size h b))"

text \<open>The addresses handed out so far: all of every block but the free tail of the current one.\<close>

definition used :: "heap \<Rightarrow> Memory \<Rightarrow> (nat \<times> nat) set" where
  "used h m = {(b, j). b \<in> set (blocks m) \<and> j < block_size h b \<and> (\<forall>i. alloc_ptr m = Ptr b i \<longrightarrow> j < i)}"

fun region :: "ptr \<Rightarrow> nat \<Rightarrow> (nat \<times> nat) set" where
  "region Null n = {}"
| "region (Ptr b i) n = {(b, j) | j. i \<le> j \<and> j < i + n}"

text \<open>Blocks that exist in \<open>h\<close> are as they were in \<open>h'\<close>.\<close>

definition heap_le :: "heap \<Rightarrow> heap \<Rightarrow> bool" where
  "heap_le h h' \<longleftrightarrow> next_block h \<le> next_block h' \<and>
    (\<forall>b < next_block h. block_size h' b = block_size h b \<and> cell h' b = cell h b)"

lemma heap_le_refl [simp]: "heap_le h h"
  by (simp add: heap_le_def)

lemma heap_le_trans: "heap_le a b \<Longrightarrow> heap_le b c \<Longrightarrow> heap_le a c"
  by (simp add: heap_le_def)

lemma used_existing: "arena_ok h m \<Longrightarrow> (b, j) \<in> used h m \<Longrightarrow> b < next_block h"
  by (auto simp: used_def arena_ok_def)

text \<open>The contract every allocation function meets.\<close>

definition alloc_post :: "heap \<Rightarrow> Memory \<Rightarrow> nat \<Rightarrow> ptr \<Rightarrow> heap \<Rightarrow> Memory \<Rightarrow> bool" where
  "alloc_post h m n p h' m' \<longleftrightarrow>
    arena_ok h' m' \<and> heap_le h h' \<and> region p n \<inter> used h m = {} \<and> region p n \<union> used h m \<subseteq> used h' m' \<and>
    (\<exists>b i. p = Ptr b i \<and> i + n \<le> block_size h' b) \<and>
    set (blocks m') \<subseteq> set (blocks m) \<union> {next_block h..<next_block h'} \<and>
    blocks_memory m' \<le> blocks_memory m + max (int n) kBlockSize"

lemma AllocateNewBlock_post:
  assumes "arena_ok h m" "0 < n" "AllocateNewBlock h m n = Some (p, h', m')"
  shows "p = Ptr (next_block h) 0 \<and> block_size h' (next_block h) = nat n \<and> heap_le h h' \<and>
    next_block h' = Suc (next_block h) \<and> alloc_ptr m' = alloc_ptr m \<and>
    alloc_bytes_remaining m' = alloc_bytes_remaining m \<and> blocks m' = blocks m @ [next_block h] \<and> blocks_memory m' = blocks_memory m + n"
  using assms by (auto simp: AllocateNewBlock_def new_char_def Let_def heap_le_def split: if_splits)


lemma AllocateFallback_post:
  assumes ok: "arena_ok h m" and n: "0 < n" and a: "AllocateFallback h m n = Some (p, h', m')"
  shows "alloc_post h m (nat n) p h' m' \<and> p = Ptr (next_block h) 0"
proof (cases "n > kBlockSize div 4")
  case True
  with a have "AllocateNewBlock h m n = Some (p, h', m')" by (simp add: AllocateFallback_def)
  note post = AllocateNewBlock_post [OF ok n this]
  with ok n show ?thesis
    by (auto simp: alloc_post_def arena_ok_def used_def heap_le_def split: ptr.splits)
next
  case False
  with a obtain m1 where new: "AllocateNewBlock h m kBlockSize = Some (p, h', m1)"
    and m': "m' = m1\<lparr>alloc_ptr := ptr_add p (nat n), alloc_bytes_remaining := kBlockSize - n\<rparr>"
    by (auto simp: AllocateFallback_def split: bind_splits)
  have "0 < kBlockSize" by (simp add: kBlockSize_def)
  note post = AllocateNewBlock_post [OF ok this new]
  with ok n False m' show ?thesis
    by (auto simp: alloc_post_def arena_ok_def used_def heap_le_def kBlockSize_def split: ptr.splits)
qed

lemma Allocate_post:
  assumes ok: "arena_ok h m" and n: "0 < n" and a: "Allocate h m n = Some (p, h', m')"
  shows "alloc_post h m (nat n) p h' m'"
proof (cases "n \<le> alloc_bytes_remaining m")
  case True
  with ok n obtain b i where p0: "alloc_ptr m = Ptr b i" by (cases "alloc_ptr m") (auto simp: arena_ok_def)
  with True n a have "p = Ptr b i" "h' = h"
    "m' = m\<lparr>alloc_ptr := Ptr b (i + nat n), alloc_bytes_remaining := alloc_bytes_remaining m - n\<rparr>"
    by (simp_all add: Allocate_def)
  with p0 True ok n show ?thesis
    by (auto simp: alloc_post_def arena_ok_def used_def)
next
  case False
  with n a show ?thesis using AllocateFallback_post [OF ok n] by (auto simp: Allocate_def)
qed

lemma slop_aligns: "addr_mod8 (ptr_add p (nat (align_slop p))) = 0"
proof (cases p)
  case (Ptr b i)
  have "(i + (8 - i mod 8)) mod 8 = 0" if "i mod 8 \<noteq> 0" using that by presburger
  with Ptr show ?thesis by (auto simp: align_slop_def Let_def nat_diff_distrib)
qed simp

lemma align_slop_bounds: "0 \<le> align_slop p \<and> align_slop p \<le> 7"
  by (cases p) (auto simp: align_slop_def Let_def)

lemma AllocateAligned_post:
  assumes ok: "arena_ok h m" and n: "0 < n" and a: "AllocateAligned h m n = Some (p, h', m')"
  shows "alloc_post h m (nat n) p h' m'"
proof -
  define slop where "slop = align_slop (alloc_ptr m)"
  have slop: "0 \<le> slop" by (simp add: slop_def align_slop_bounds)
  show ?thesis
  proof (cases "n + slop \<le> alloc_bytes_remaining m")
    case True
    with ok n slop obtain b i where p0: "alloc_ptr m = Ptr b i"
      by (cases "alloc_ptr m") (auto simp: arena_ok_def)
    with True a have "p = Ptr b (i + nat slop)" "h' = h"
      "m' = m\<lparr>alloc_ptr := Ptr b (i + nat (n + slop)), alloc_bytes_remaining := alloc_bytes_remaining m - (n + slop)\<rparr>"
      by (auto simp: AllocateAligned_def Let_def slop_def split: if_splits)
    with p0 True ok n slop show ?thesis
      by (auto simp: alloc_post_def arena_ok_def used_def)
  next
    case False
    with a show ?thesis
      using AllocateFallback_post [OF ok n]
      by (auto simp: AllocateAligned_def Let_def slop_def split: if_splits bind_splits)
  qed
qed

lemma AllocateFallback_succeeds:
  assumes "int_ok (blocks_memory m + n)" "int_ok (blocks_memory m + kBlockSize)"
  shows "\<exists>h' m'. AllocateFallback h m n = Some (Ptr (next_block h) 0, h', m')"
  using assms by (auto simp: AllocateFallback_def AllocateNewBlock_def new_char_def Let_def)

text \<open>Enough room in the \<^verbatim>\<open>int\<close> counters for \<open>n\<close> more bytes.\<close>

definition room_for :: "Memory \<Rightarrow> int \<Rightarrow> bool" where
  "room_for m n \<longleftrightarrow> int_ok (blocks_memory m + n) \<and> int_ok (blocks_memory m + kBlockSize) \<and> int_ok (n + 7)"

lemma room_for_small: "arena_ok h m \<Longrightarrow> blocks_memory m + kBlockSize < 2 ^ 31 \<Longrightarrow> 0 < n \<Longrightarrow> n \<le> kBlockSize \<Longrightarrow> room_for m n"
  by (auto simp: room_for_def int_ok_def arena_ok_def kBlockSize_def)

lemma Allocate_succeeds: "0 < n \<Longrightarrow> room_for m n \<Longrightarrow> \<exists>p h' m'. Allocate h m n = Some (p, h', m')"
  using AllocateFallback_succeeds [of m n h] by (auto simp: Allocate_def room_for_def)

lemma AllocateAligned_succeeds:
  assumes "0 < n" "room_for m n"
  shows "\<exists>p h' m'. AllocateAligned h m n = Some (p, h', m') \<and> addr_mod8 p = 0"
proof -
  let ?slop = "align_slop (alloc_ptr m)"
  have ok: "int_ok (n + ?slop)"
    using assms align_slop_bounds [of "alloc_ptr m"] by (auto simp: room_for_def int_ok_def)
  obtain h' m' where fb: "AllocateFallback h m n = Some (Ptr (next_block h) 0, h', m')"
    using AllocateFallback_succeeds assms(2) unfolding room_for_def by blast
  show ?thesis
  proof (cases "n + ?slop \<le> alloc_bytes_remaining m")
    case True
    with ok slop_aligns [of "alloc_ptr m"] show ?thesis by (simp add: AllocateAligned_def Let_def)
  next
    case False
    with ok fb show ?thesis by (simp add: AllocateAligned_def Let_def)
  qed
qed



section \<open>The allocator interface\<close>

text \<open>
  What a client of the arena relies on, whichever allocation function it calls: memory it was given
  earlier is neither handed out again nor touched.
\<close>

lemma reads_write:
  assumes "write_bytes h p bs = Some h'"
  shows "reads (view_at h' p) bs"
  using assms by (auto simp: write_bytes_def view_at_def reads_def split: ptr.splits if_splits)

lemma reads_write_other:
  assumes "write_bytes h p bs = Some h'" "region p (length bs) \<inter> region q (length cs) = {}"
    and "reads (view_at h q) cs"
  shows "reads (view_at h' q) cs"
proof (cases q)
  case Null
  with assms(3) show ?thesis by (simp add: view_at_def)
next
  case q: (Ptr b i)
  from assms(1) obtain b' i' where p: "p = Ptr b' i'" by (cases p) (auto simp: write_bytes_def)
  show ?thesis
    unfolding reads_def
  proof (intro allI impI)
    fix j assume j: "j < length cs"
    then have "(b, i + j) \<in> region q (length cs)" by (simp add: q)
    with assms(2) have "(b, i + j) \<notin> region p (length bs)" by blast
    with j assms(1,3) show "view_at h' q j = Some (cs ! j)"
      by (auto simp: p q write_bytes_def view_at_def reads_def split: if_splits)
  qed
qed

lemma reads_heap_le:
  assumes "heap_le h h'" "region q (length cs) \<subseteq> {(b, j). b < next_block h}" "reads (view_at h q) cs"
  shows "reads (view_at h' q) cs"
proof (cases "cs = [] \<or> q = Null")
  case True
  with assms(3) show ?thesis by (auto simp: view_at_def)
next
  case False
  then obtain b i where q: "q = Ptr b i" by (cases q) auto
  with False have "(b, i) \<in> region q (length cs)" by auto
  with assms(2) have "b < next_block h" by auto
  with assms(1) have "cell h' b = cell h b" "block_size h' b = block_size h b" by (simp_all add: heap_le_def)
  with assms(3) show ?thesis by (simp add: q view_at_def cong: if_cong)
qed

locale allocator =
  fixes alloc :: "heap \<Rightarrow> Memory \<Rightarrow> int \<Rightarrow> (ptr \<times> heap \<times> Memory) option"
  assumes alloc_meets: "arena_ok h m \<Longrightarrow> 0 < n \<Longrightarrow> alloc h m n = Some (p, h', m') \<Longrightarrow>
      alloc_post h m (nat n) p h' m'"
    and alloc_returns: "0 < n \<Longrightarrow> room_for m n \<Longrightarrow> \<exists>p h' m'. alloc h m n = Some (p, h', m')"
begin

lemma alloc_fresh:
  assumes "arena_ok h m" "0 < n" "alloc h m n = Some (p, h', m')"
  shows "region p (nat n) \<inter> used h m = {}" "region p (nat n) \<subseteq> used h' m'" "used h m \<subseteq> used h' m'"
    "arena_ok h' m'" "heap_le h h'"
  using alloc_meets [OF assms] by (auto simp: alloc_post_def)

lemma alloc_keeps:
  assumes "arena_ok h m" "0 < n" "alloc h m n = Some (p, h', m')"
    and q: "region q (length cs) \<subseteq> used h m" "reads (view_at h q) cs"
  shows "region q (length cs) \<subseteq> used h' m' \<and> reads (view_at h' q) cs"
proof -
  have "region q (length cs) \<subseteq> {(b, j). b < next_block h}"
    using q(1) used_existing [OF assms(1)] by auto
  then show ?thesis
    using alloc_fresh [OF assms(1-3)] reads_heap_le q by blast
qed

lemma alloc_write:
  assumes "arena_ok h m" "0 < length bs" "alloc h m (int (length bs)) = Some (p, h', m')"
  shows "\<exists>h''. write_bytes h' p bs = Some h'' \<and> arena_ok h'' m' \<and> used h'' m' = used h' m' \<and>
    next_block h'' = next_block h' \<and> reads (view_at h'' p) bs \<and>
    (\<forall>q cs. region q (length cs) \<subseteq> used h m \<longrightarrow> reads (view_at h q) cs \<longrightarrow> reads (view_at h'' q) cs)"
proof -
  have n: "0 < int (length bs)" using assms(2) by simp
  note post = alloc_meets [OF assms(1) n assms(3)]
  then obtain b i where p: "p = Ptr b i" "i + length bs \<le> block_size h' b"
    by (auto simp: alloc_post_def)
  then obtain h'' where w: "write_bytes h' p bs = Some h''" by (simp add: write_bytes_def)
  then have same: "block_size h'' = block_size h'" "next_block h'' = next_block h'"
    by (auto simp: write_bytes_def p split: if_splits)
  have "arena_ok h'' m'" using post by (auto simp: alloc_post_def arena_ok_def same split: ptr.splits)
  moreover have "used h'' m' = used h' m'" by (simp add: used_def same)
  moreover have "reads (view_at h'' q) cs" if q: "region q (length cs) \<subseteq> used h m" "reads (view_at h q) cs" for q cs
  proof -
    have "region p (length bs) \<inter> region q (length cs) = {}"
      using alloc_fresh(1) [OF assms(1) n assms(3)] q(1) by auto
    with w show ?thesis
      using alloc_keeps [OF assms(1) n assms(3) q] reads_write_other by blast
  qed
  ultimately show ?thesis using w same(2) reads_write [OF w] by blast
qed

end

interpretation plain: allocator Allocate
  by unfold_locales (auto intro: Allocate_post Allocate_succeeds)

interpretation aligned: allocator AllocateAligned
proof unfold_locales
  show "\<exists>p h' m'. AllocateAligned h m n = Some (p, h', m')" if "0 < n" "room_for m n" for h m n
    using AllocateAligned_succeeds [OF that] by blast
qed (rule AllocateAligned_post)



section \<open>Sequences of allocations\<close>

datatype request = Plain int | Aligned int

fun req_size :: "request \<Rightarrow> int" where
  "req_size (Plain n) = n"
| "req_size (Aligned n) = n"

fun serve :: "heap \<Rightarrow> Memory \<Rightarrow> request \<Rightarrow> (ptr \<times> heap \<times> Memory) option" where
  "serve h m (Plain n) = Allocate h m n"
| "serve h m (Aligned n) = AllocateAligned h m n"

fun run_requests :: "heap \<Rightarrow> Memory \<Rightarrow> request list \<Rightarrow> ((ptr \<times> nat) list \<times> heap \<times> Memory) option" where
  "run_requests h m [] = Some ([], h, m)"
| "run_requests h m (r # rs) =
    do { (p, h1, m1) \<leftarrow> serve h m r;
         (ps, h2, m2) \<leftarrow> run_requests h1 m1 rs;
         Some ((p, nat (req_size r)) # ps, h2, m2) }"

lemma serve_post:
  "arena_ok h m \<Longrightarrow> 0 < req_size r \<Longrightarrow> serve h m r = Some (p, h', m') \<Longrightarrow> alloc_post h m (nat (req_size r)) p h' m'"
  by (cases r) (auto intro: Allocate_post AllocateAligned_post)

lemma run_requests_post:
  assumes "arena_ok h m" "\<forall>r \<in> set rs. 0 < req_size r" "run_requests h m rs = Some (ps, h', m')"
  shows "arena_ok h' m' \<and> heap_le h h' \<and> used h m \<subseteq> used h' m' \<and>
    (\<forall>(p, n) \<in> set ps. region p n \<inter> used h m = {} \<and> region p n \<subseteq> used h' m') \<and>
    sorted_wrt (\<lambda>(p, n) (q, k). region p n \<inter> region q k = {}) ps"
  using assms
proof (induction rs arbitrary: h m ps)
  case Nil
  then show ?case by simp
next
  case (Cons r rs)
  from Cons.prems(3) obtain p h1 m1 ps' where
    s: "serve h m r = Some (p, h1, m1)" and t: "run_requests h1 m1 rs = Some (ps', h', m')"
    and ps: "ps = (p, nat (req_size r)) # ps'"
    by (auto split: bind_splits)
  from s Cons.prems have post: "alloc_post h m (nat (req_size r)) p h1 m1" by (auto intro: serve_post)
  then have "arena_ok h1 m1" by (simp add: alloc_post_def)
  with Cons.IH [OF _ _ t] Cons.prems have ih: "arena_ok h' m'" "heap_le h1 h'" "used h1 m1 \<subseteq> used h' m'"
    "\<forall>(p, n) \<in> set ps'. region p n \<inter> used h1 m1 = {} \<and> region p n \<subseteq> used h' m'"
    "sorted_wrt (\<lambda>(p, n) (q, k). region p n \<inter> region q k = {}) ps'"
    by auto
  let ?n = "nat (req_size r)"
  from post have p: "heap_le h h1" "region p ?n \<inter> used h m = {}" "region p ?n \<subseteq> used h1 m1" "used h m \<subseteq> used h1 m1"
    by (simp_all add: alloc_post_def)
  have rest: "region p ?n \<inter> region q k = {}" "region q k \<inter> used h m = {}" "region q k \<subseteq> used h' m'"
    if "(q, k) \<in> set ps'" for q k
    using that ih(4) p(3,4) by blast+
  have "heap_le h h'" using p(1) ih(2) by (rule heap_le_trans)
  moreover have "used h m \<subseteq> used h' m'" "region p ?n \<subseteq> used h' m'" using p(3,4) ih(3) by blast+
  moreover have "\<forall>(q, k) \<in> set ps'. region p ?n \<inter> region q k = {}" using rest(1) by blast
  moreover have "\<forall>(q, k) \<in> set ps'. region q k \<inter> used h m = {} \<and> region q k \<subseteq> used h' m'"
    using rest(2,3) by blast
  ultimately show ?case using ih(1,5) p(2) by (simp add: ps)
qed

text \<open>
  C24: However plain and aligned requests of positive size are mixed, the regions an arena hands out are
  pairwise disjoint, and each lies inside a block that the arena owns and so frees in its destructor.
\<close>

theorem arena_regions_disjoint:
  assumes "\<forall>r \<in> set rs. 0 < req_size r" "run_requests h Memory_new rs = Some (ps, h', m')"
  shows "sorted_wrt (\<lambda>(p, n) (q, k). region p n \<inter> region q k = {}) ps \<and>
    (\<forall>(p, n) \<in> set ps. region p n \<subseteq> {(b, j). b \<in> set (blocks m') \<and> j < block_size h' b})"
proof -
  have "arena_ok h Memory_new" by (simp add: arena_ok_def Memory_new_def)
  from run_requests_post [OF this assms] show ?thesis by (fastforce simp: used_def)
qed

theorem arena_regions_disjoint_witness:
  "\<exists>ps h' m'. run_requests empty_heap Memory_new [Plain 5, Aligned 8, Plain 2000] = Some (ps, h', m') \<and>
    sorted_wrt (\<lambda>(p, n) (q, k). region p n \<inter> region q k = {}) ps"
proof -
  have "\<exists>x. run_requests empty_heap Memory_new [Plain 5, Aligned 8, Plain 2000] = Some x"
    by (simp add: Allocate_def AllocateAligned_def AllocateFallback_def AllocateNewBlock_def new_char_def
        Memory_new_def empty_heap_def kBlockSize_def int_ok_def Let_def align_slop_def)
  then obtain ps h' m' where run:
    "run_requests empty_heap Memory_new [Plain 5, Aligned 8, Plain 2000] = Some (ps, h', m')" by auto
  with arena_regions_disjoint [OF _ run] show ?thesis by auto
qed

text \<open>
  An allocation fails only when an \<^verbatim>\<open>int\<close> counter of the arena would overflow, and what \<^verbatim>\<open>AllocateAligned\<close> returns
  is aligned to eight bytes, so its final \<^verbatim>\<open>assert\<close> never fires.
\<close>

theorem arena_allocation_succeeds:
  assumes "0 < n" "int_ok (blocks_memory m + n)" "int_ok (blocks_memory m + kBlockSize)" "int_ok (n + 7)"
  shows "(\<exists>p h' m'. Allocate h m n = Some (p, h', m')) \<and>
    (\<exists>p h' m'. AllocateAligned h m n = Some (p, h', m') \<and> addr_mod8 p = 0)"
  using assms Allocate_succeeds [of n m h] AllocateAligned_succeeds [of n m h] by (simp add: room_for_def)

theorem arena_allocation_succeeds_witness:
  "\<exists>p h' m'. AllocateAligned empty_heap Memory_new 40 = Some (p, h', m') \<and> addr_mod8 p = 0"
  using arena_allocation_succeeds [of 40 Memory_new empty_heap]
  by (simp add: int_ok_def Memory_new_def kBlockSize_def)

end
