(* ===== verification/Random_Gen.thy ===== *)
theory Random_Gen
  imports KV_Prelude
begin

unbundle bit_operations_syntax

text \<open>
  \<^verbatim>\<open>structure/random.h\<close>: the Lehmer generator that draws the heights of skip list nodes.  The object is its
  32-bit seed; \<^verbatim>\<open>Next\<close> returns the new seed, which is also the number drawn.
\<close>

definition Random :: "u32 \<Rightarrow> u32" where
  "Random s =
    (let seed = s AND 0x7fffffff in
     if seed = 0 \<or> seed = 2147483647 then 1 else seed)"

definition Random_Next :: "u32 \<Rightarrow> u32" where
  "Random_Next seed =
    (let M = 2147483647 :: u32;
         A = 16807 :: u64;
         product = ucast seed * A;
         seed1 = (ucast (drop_bit 31 product + (product AND ucast M)) :: u32)
     in if seed1 > M then seed1 - M else seed1)"

text \<open>The seeds the generator can hold: everything strictly between 0 and \<open>2^31 - 1\<close>.\<close>

definition seed_ok :: "u32 \<Rightarrow> bool" where
  "seed_ok s \<longleftrightarrow> 0 < s \<and> s < 2147483647"

text \<open>The reference: multiplication modulo the Mersenne prime \<open>2^31 - 1\<close>.\<close>

definition lehmer :: "nat \<Rightarrow> nat" where
  "lehmer s = 16807 * s mod 2147483647"

lemma lehmer_nonzero:
  assumes "0 < s" "s < 2147483647"
  shows "lehmer s \<noteq> 0"
proof
  assume "lehmer s = 0"
  then have "2147483647 dvd 16807 * s" by (simp add: lehmer_def mod_eq_0_iff_dvd)
  moreover have "coprime (2147483647 :: nat) 16807"
  proof -
    have "coprime (2147483647 mod 7 :: nat) 7" by simp
    then have "coprime (2147483647 :: nat) 7" by (simp only: coprime_mod_left_iff)
    then have "coprime (2147483647 :: nat) (7 ^ 5)" by (subst coprime_power_right_iff) simp
    then show ?thesis by simp
  qed
  ultimately have "2147483647 dvd s" by (simp add: coprime_dvd_mult_right_iff)
  with assms show False by (auto dest: dvd_imp_le)
qed

text \<open>Folding the high bits back is reduction modulo \<open>2^31 - 1\<close>.\<close>

lemma fold_mersenne:
  fixes P :: nat
  shows "(P div 2 ^ 31 + P mod 2 ^ 31) mod 2147483647 = P mod 2147483647"
proof -
  have "P = 2147483647 * (P div 2 ^ 31) + (P div 2 ^ 31 + P mod 2 ^ 31)"
    using div_mult_mod_eq [of P "2 ^ 31"] by simp
  then show ?thesis by (metis mod_mult_self4 add.commute)
qed

lemma mod_once: "a \<noteq> m \<Longrightarrow> a < 2 * m \<Longrightarrow> a mod m = (if m < a then a - m else a)" for a m :: nat
  by (simp add: le_mod_geq)

lemma unat_Random_Next:
  assumes "seed_ok s"
  shows "unat (Random_Next s) = lehmer (unat s)"
proof -
  let ?P = "16807 * unat s"
  let ?hl = "?P div 2 ^ 31 + ?P mod 2 ^ 31"
  have s: "0 < unat s" "unat s < 2147483647"
    using assms by (simp_all add: seed_ok_def word_less_nat_alt)
  define x :: u64 where "x = ucast s * 16807"
  have prod: "unat x = ?P"
    using s by (simp add: x_def unat_word_ariths unat_ucast_u64 mult.commute)
  have hi: "?P div 2 ^ 31 < 16807" using s by (simp add: div_less_iff_less_mult)
  have lo: "?P mod 2 ^ 31 < 2 ^ 31" by simp
  have low: "x AND 2147483647 = take_bit 31 x"
    by (simp add: take_bit_eq_mask mask_eq_exp_minus_1)
  define seed1 :: u32 where "seed1 = ucast (drop_bit 31 x + (x AND 2147483647))"
  have "unat (drop_bit 31 x + take_bit 31 x) = ?hl"
    using hi lo
    by (simp add: unat_word_ariths unat_drop_bit_eq unsigned_take_bit_eq prod drop_bit_eq_div take_bit_eq_mod)
  then have seed1: "unat seed1 = ?hl"
    using hi lo by (simp add: seed1_def low unsigned_ucast_eq take_bit_nat_eq_self)
  have l: "lehmer (unat s) = ?hl mod 2147483647" by (simp only: lehmer_def fold_mersenne)
  then have "?hl \<noteq> 2147483647" using lehmer_nonzero [OF s] by auto
  with l hi lo have "lehmer (unat s) = (if 2147483647 < ?hl then ?hl - 2147483647 else ?hl)"
    using mod_once [of ?hl 2147483647] by simp
  moreover have "Random_Next s = (if seed1 > 2147483647 then seed1 - 2147483647 else seed1)"
    by (simp add: Random_Next_def Let_def seed1_def x_def)
  ultimately show ?thesis
    by (simp add: seed1 word_less_nat_alt unat_sub_if_size)
qed

lemma seed_ok_Next: "seed_ok s \<Longrightarrow> seed_ok (Random_Next s)"
  using lehmer_nonzero [of "unat s"] unat_Random_Next [of s]
  by (simp add: seed_ok_def word_less_nat_alt) (simp add: lehmer_def)

lemma seed_ok_Random: "seed_ok (Random s)"
proof -
  have "s AND 0x7fffffff = take_bit 31 s" by (simp add: take_bit_eq_mask mask_eq_exp_minus_1)
  then have "unat (s AND 0x7fffffff) = take_bit 31 (unat s)" by (simp add: unsigned_take_bit_eq)
  then have "unat (s AND 0x7fffffff) < 2 ^ 31" by (simp only: take_bit_nat_less_exp)
  then show ?thesis
    by (auto simp: Random_def seed_ok_def Let_def word_less_nat_alt word_neq_0_conv less_Suc_eq_le
        word_unat_eq_iff)
qed

text \<open>
  C33: The generator never leaves its cycle: from any constructor argument the seed lies strictly between 0 and
  \<open>2^31 - 1\<close>, and each draw is exactly multiplication by 16807 modulo \<open>2^31 - 1\<close>, which keeps it there.
\<close>

theorem random_next_is_lehmer:
  "seed_ok (Random s) \<and>
   (seed_ok t \<longrightarrow> unat (Random_Next t) = 16807 * unat t mod (2 ^ 31 - 1) \<and> seed_ok (Random_Next t))"
  using seed_ok_Random [of s] seed_ok_Next [of t] unat_Random_Next [of t] by (simp add: lehmer_def)

theorem random_next_is_lehmer_witness:
  "unat (Random_Next (Random 0xdeadbeef)) = 16807 * 1588444911 mod (2 ^ 31 - 1) \<and>
   seed_ok (Random_Next (Random 0xdeadbeef))"
proof -
  have "Random 0xdeadbeef = 1588444911" by (simp add: Random_def)
  with random_next_is_lehmer [where s = "0xdeadbeef" and t = "Random 0xdeadbeef"] show ?thesis by simp
qed

end
