(* ===== verification/Skip_List.thy ===== *)
theory Skip_List
  imports Arena Random_Gen
begin

text \<open>
  \<^verbatim>\<open>structure/skip_list.h\<close>: the ordered index of the in-memory buffer.

  The nodes form an explicit store from node addresses to nodes; a node is its key and its \<^verbatim>\<open>next_\<close> array,
  whose length is the height the node was allocated with and whose cells are uninitialised (\<open>None\<close>)
  until \<^verbatim>\<open>SetNext\<close>.  As in the source, the structure is generic in the key type and the comparator, and
  its nodes come from an arena that the caller shares.  The search loops have no bound of their own:
  they are \<open>partial_function\<close>s whose \<open>None\<close> is a loop that does not end, a read outside a
  \<^verbatim>\<open>next_\<close> array, a null dereference or a failed \<^verbatim>\<open>assert\<close>; that they return is a theorem.
\<close>

section \<open>State\<close>

record 'k node =
  node_key :: 'k
  node_next :: "ptr option list"

record 'k skip_list =
  head :: ptr
  nodes :: "ptr \<Rightarrow> 'k node option"
  rand :: u32
  max_height :: nat

definition kMaxHeight :: nat where "kMaxHeight = 12"

definition Next :: "'k skip_list \<Rightarrow> ptr \<Rightarrow> nat \<Rightarrow> ptr option" where
  "Next sl x n =
    do { nd \<leftarrow> nodes sl x;
         if n < length (node_next nd) then node_next nd ! n else None }"

definition SetNext :: "'k skip_list \<Rightarrow> ptr \<Rightarrow> nat \<Rightarrow> ptr \<Rightarrow> 'k skip_list option" where
  "SetNext sl x n y =
    do { nd \<leftarrow> nodes sl x;
         if n < length (node_next nd)
         then Some (sl\<lparr>nodes := (nodes sl)(x \<mapsto> nd\<lparr>node_next := (node_next nd)[n := Some y]\<rparr>)\<rparr>)
         else None }"

text \<open>\<^verbatim>\<open>sizeof(Node) + sizeof(void*) * (height - 1)\<close>, with 8-byte pointers.\<close>

definition NewNode :: "heap \<Rightarrow> Memory \<Rightarrow> 'k skip_list \<Rightarrow> 'k \<Rightarrow> nat \<Rightarrow>
    (ptr \<times> heap \<times> Memory \<times> 'k skip_list) option" where
  "NewNode h m sl key height =
    do { (p, h', m') \<leftarrow> AllocateAligned h m (16 + 8 * (int height - 1));
         Some (p, h', m', sl\<lparr>nodes := (nodes sl)(p \<mapsto> \<lparr>node_key = key, node_next = replicate height None\<rparr>)\<rparr>) }"

fun foldM :: "('a \<Rightarrow> 's \<Rightarrow> 's option) \<Rightarrow> 'a list \<Rightarrow> 's \<Rightarrow> 's option" where
  "foldM f [] s = Some s"
| "foldM f (x # xs) s = Option.bind (f x s) (foldM f xs)"

text \<open>The constructor: a head node of full height whose successors are all null.\<close>

definition SkipList_new :: "heap \<Rightarrow> Memory \<Rightarrow> 'k \<Rightarrow> (heap \<times> Memory \<times> 'k skip_list) option" where
  "SkipList_new h m head_key =
    do { (p, h', m', sl) \<leftarrow>
           NewNode h m \<lparr>head = Null, nodes = Map.empty, rand = Random 0xdeadbeef, max_height = 1\<rparr> head_key kMaxHeight;
         sl' \<leftarrow> foldM (\<lambda>i s. SetNext s p i Null) [0..<kMaxHeight] (sl\<lparr>head := p\<rparr>);
         Some (h', m', sl') }"


section \<open>Searching\<close>

function RandomHeight_loop :: "nat \<Rightarrow> u32 \<Rightarrow> nat \<times> u32" where
  "RandomHeight_loop height seed =
    (if height < kMaxHeight then
       (let seed' = Random_Next seed in
        if seed' mod 4 = 0 then RandomHeight_loop (height + 1) seed' else (height, seed'))
     else (height, seed))"
  by pat_completeness auto
termination
  by (relation "measure (\<lambda>(height, seed). kMaxHeight - height)") auto

definition RandomHeight :: "u32 \<Rightarrow> nat \<times> u32" where
  "RandomHeight seed = RandomHeight_loop 1 seed"

declare RandomHeight_loop.simps [simp del]

type_synonym 'k compare = "'k \<Rightarrow> 'k \<Rightarrow> int option"

definition Equal :: "'k compare \<Rightarrow> 'k \<Rightarrow> 'k \<Rightarrow> bool option" where
  "Equal cmp a b = do { c \<leftarrow> cmp a b; Some (c = 0) }"

definition KeyIsAfterNode :: "'k compare \<Rightarrow> 'k skip_list \<Rightarrow> 'k \<Rightarrow> ptr \<Rightarrow> bool option" where
  "KeyIsAfterNode cmp sl key n =
    (if n = Null then Some False
     else do { nd \<leftarrow> nodes sl n; c \<leftarrow> cmp (node_key nd) key; Some (c < 0) })"

partial_function (option) FindGreaterOrEqual_loop ::
  "'k compare \<Rightarrow> 'k skip_list \<Rightarrow> 'k \<Rightarrow> ptr \<Rightarrow> nat \<Rightarrow> ptr option list option \<Rightarrow>
    (ptr \<times> ptr option list option) option" where
  "FindGreaterOrEqual_loop cmp sl key x level prev =
    do { nxt \<leftarrow> Next sl x level;
         after \<leftarrow> KeyIsAfterNode cmp sl key nxt;
         if after then FindGreaterOrEqual_loop cmp sl key nxt level prev
         else
           let prev' = map_option (\<lambda>arr. arr[level := Some x]) prev in
           if level = 0 then Some (nxt, prev')
           else FindGreaterOrEqual_loop cmp sl key x (level - 1) prev' }"

definition FindGreaterOrEqual ::
  "'k compare \<Rightarrow> 'k skip_list \<Rightarrow> 'k \<Rightarrow> ptr option list option \<Rightarrow> (ptr \<times> ptr option list option) option" where
  "FindGreaterOrEqual cmp sl key prev =
    FindGreaterOrEqual_loop cmp sl key (head sl) (max_height sl - 1) prev"

text \<open>The \<^verbatim>\<open>assert\<close> of \<^verbatim>\<open>FindLessThan\<close> runs at the top of each iteration.\<close>

definition before_or_head :: "'k compare \<Rightarrow> 'k skip_list \<Rightarrow> 'k \<Rightarrow> ptr \<Rightarrow> bool option" where
  "before_or_head cmp sl key x =
    (if x = head sl then Some True
     else do { nd \<leftarrow> nodes sl x; c \<leftarrow> cmp (node_key nd) key; Some (c < 0) })"

definition stop_at :: "'k compare \<Rightarrow> 'k skip_list \<Rightarrow> 'k \<Rightarrow> ptr \<Rightarrow> bool option" where
  "stop_at cmp sl key n =
    (if n = Null then Some True
     else do { nd \<leftarrow> nodes sl n; c \<leftarrow> cmp (node_key nd) key; Some (c \<ge> 0) })"

partial_function (option) FindLessThan_loop ::
  "'k compare \<Rightarrow> 'k skip_list \<Rightarrow> 'k \<Rightarrow> ptr \<Rightarrow> nat \<Rightarrow> ptr option" where
  "FindLessThan_loop cmp sl key x level =
    do { asserted \<leftarrow> before_or_head cmp sl key x;
         if \<not> asserted then None
         else
           do { nxt \<leftarrow> Next sl x level;
                stop \<leftarrow> stop_at cmp sl key nxt;
                if stop then
                  if level = 0 then Some x else FindLessThan_loop cmp sl key x (level - 1)
                else FindLessThan_loop cmp sl key nxt level } }"

definition FindLessThan :: "'k compare \<Rightarrow> 'k skip_list \<Rightarrow> 'k \<Rightarrow> ptr option" where
  "FindLessThan cmp sl key = FindLessThan_loop cmp sl key (head sl) (max_height sl - 1)"

partial_function (option) FindLast_loop :: "'k skip_list \<Rightarrow> ptr \<Rightarrow> nat \<Rightarrow> ptr option" where
  "FindLast_loop sl x level =
    do { nxt \<leftarrow> Next sl x level;
         if nxt = Null then
           if level = 0 then Some x else FindLast_loop sl x (level - 1)
         else FindLast_loop sl nxt level }"

definition FindLast :: "'k skip_list \<Rightarrow> ptr option" where
  "FindLast sl = FindLast_loop sl (head sl) (max_height sl - 1)"

definition Contains :: "'k compare \<Rightarrow> 'k skip_list \<Rightarrow> 'k \<Rightarrow> bool option" where
  "Contains cmp sl key =
    do { (x, _) \<leftarrow> FindGreaterOrEqual cmp sl key None;
         if x = Null then Some False
         else do { nd \<leftarrow> nodes sl x; Equal cmp key (node_key nd) } }"


section \<open>Inserting\<close>

definition key_equals :: "'k compare \<Rightarrow> 'k skip_list \<Rightarrow> ptr \<Rightarrow> 'k \<Rightarrow> bool option" where
  "key_equals cmp sl x key =
    (if x = Null then Some False else do { nd \<leftarrow> nodes sl x; Equal cmp (node_key nd) key })"

definition set_key :: "'k skip_list \<Rightarrow> ptr \<Rightarrow> 'k \<Rightarrow> 'k skip_list" where
  "set_key sl x key = sl\<lparr>nodes := (nodes sl)(x := map_option (\<lambda>nd. nd\<lparr>node_key := key\<rparr>) (nodes sl x))\<rparr>"

definition link_level :: "ptr \<Rightarrow> ptr option list \<Rightarrow> nat \<Rightarrow> 'k skip_list \<Rightarrow> 'k skip_list option" where
  "link_level x prev i sl =
    do { p \<leftarrow> prev ! i;
         nxt \<leftarrow> Next sl p i;
         sl1 \<leftarrow> SetNext sl x i nxt;
         SetNext sl1 p i x }"

definition Insert :: "'k compare \<Rightarrow> heap \<Rightarrow> Memory \<Rightarrow> 'k skip_list \<Rightarrow> 'k \<Rightarrow>
    (heap \<times> Memory \<times> 'k skip_list) option" where
  "Insert cmp h m sl key =
    do { (x, prevs) \<leftarrow> FindGreaterOrEqual cmp sl key (Some (replicate kMaxHeight None));
         prev \<leftarrow> prevs;
         found \<leftarrow> key_equals cmp sl x key;
         if found then Some (h, m, set_key sl x key)
         else
           do { let (height, seed) = RandomHeight (rand sl);
                let prev' = (if height > max_height sl
                             then fold (\<lambda>i arr. arr[i := Some (head sl)]) [max_height sl..<height] prev
                             else prev);
                let sl1 = sl\<lparr>rand := seed, max_height := (if height > max_height sl then height else max_height sl)\<rparr>;
                (y, h', m', sl2) \<leftarrow> NewNode h m sl1 key height;
                sl3 \<leftarrow> foldM (link_level y prev') [0..<height] sl2;
                Some (h', m', sl3) } }"


section \<open>Iterators\<close>

text \<open>An iterator is the node it stands on, null when it is not valid.\<close>

definition Iter_new :: ptr where
  "Iter_new = Null"

definition Iter_Valid :: "ptr \<Rightarrow> bool" where
  "Iter_Valid it \<longleftrightarrow> it \<noteq> Null"

definition Iter_key :: "'k skip_list \<Rightarrow> ptr \<Rightarrow> 'k option" where
  "Iter_key sl it = (if Iter_Valid it then map_option node_key (nodes sl it) else None)"

definition Iter_Next :: "'k skip_list \<Rightarrow> ptr \<Rightarrow> ptr option" where
  "Iter_Next sl it = (if Iter_Valid it then Next sl it 0 else None)"

definition Iter_Prev :: "'k compare \<Rightarrow> 'k skip_list \<Rightarrow> ptr \<Rightarrow> ptr option" where
  "Iter_Prev cmp sl it =
    (if Iter_Valid it then
       do { nd \<leftarrow> nodes sl it;
            x \<leftarrow> FindLessThan cmp sl (node_key nd);
            Some (if x = head sl then Null else x) }
     else None)"

definition Iter_Seek :: "'k compare \<Rightarrow> 'k skip_list \<Rightarrow> 'k \<Rightarrow> ptr option" where
  "Iter_Seek cmp sl target =
    do { (x, _) \<leftarrow> FindGreaterOrEqual cmp sl target None;
         if x \<noteq> Null then
           do { nd \<leftarrow> nodes sl x;
                eq \<leftarrow> Equal cmp (node_key nd) target;
                Some (if \<not> eq then Null else x) }
         else Some x }"

definition Iter_SeekToFirst :: "'k skip_list \<Rightarrow> ptr option" where
  "Iter_SeekToFirst sl = Next sl (head sl) 0"

definition Iter_SeekToLast :: "'k skip_list \<Rightarrow> ptr option" where
  "Iter_SeekToLast sl = do { x \<leftarrow> FindLast sl; Some (if x = head sl then Null else x) }"

end
