(* ===== verification/Skip_List_Correct.thy ===== *)
theory Skip_List_Correct
  imports Skip_List
begin

text \<open>
  Correctness of the skip list of \<open>Skip_List\<close>.  The representation predicate \<open>sl_rep\<close> relates the
  linked structure to the list of its nodes in key order: the successor of a node at level \<open>i\<close> is the
  next node of that list that is higher than \<open>i\<close>.  The comparator is the interface the structure relies
  on: the locale \<open>ordered_keys\<close> states its law, every lemma about searching and inserting is proved
  inside it, and the storage buffer interprets it with the comparator of the entries in its arena.
\<close>

section \<open>Representation\<close>

definition height_of :: "'k skip_list \<Rightarrow> ptr \<Rightarrow> nat" where
  "height_of sl x = (case nodes sl x of None \<Rightarrow> 0 | Some nd \<Rightarrow> length (node_next nd))"

definition key_of :: "'k skip_list \<Rightarrow> ptr \<Rightarrow> 'k" where
  "key_of sl x = node_key (the (nodes sl x))"

definition first_above :: "(ptr \<Rightarrow> nat) \<Rightarrow> nat \<Rightarrow> ptr list \<Rightarrow> ptr" where
  "first_above ht i xs = (case filter (\<lambda>x. i < ht x) xs of [] \<Rightarrow> Null | x # _ \<Rightarrow> x)"

definition last_above :: "(ptr \<Rightarrow> nat) \<Rightarrow> nat \<Rightarrow> ptr list \<Rightarrow> ptr" where
  "last_above ht i xs = last (filter (\<lambda>x. i < ht x) xs)"

text \<open>Every node's successor at each of its levels is the next higher node.\<close>

definition links_ok :: "'k skip_list \<Rightarrow> ptr list \<Rightarrow> bool" where
  "links_ok sl xs \<longleftrightarrow>
    (\<forall>pre x post i. xs = pre @ x # post \<longrightarrow> i < height_of sl x \<longrightarrow>
      Next sl x i = Some (first_above (height_of sl) i post))"

definition sl_rep :: "('k \<Rightarrow> bool) \<Rightarrow> ('k \<Rightarrow> 'o::linorder) \<Rightarrow> 'k skip_list \<Rightarrow> ptr list \<Rightarrow> bool" where
  "sl_rep ok ukey sl ns \<longleftrightarrow>
    distinct (head sl # ns) \<and> Null \<notin> set (head sl # ns) \<and> set (head sl # ns) = dom (nodes sl) \<and>
    height_of sl (head sl) = kMaxHeight \<and> 1 \<le> max_height sl \<and> max_height sl \<le> kMaxHeight \<and>
    (\<forall>x \<in> set ns. 1 \<le> height_of sl x \<and> height_of sl x \<le> max_height sl \<and> ok (key_of sl x)) \<and>
    sorted_wrt (<) (map (\<lambda>x. ukey (key_of sl x)) ns) \<and> links_ok sl (head sl # ns) \<and> seed_ok (rand sl)"

definition keys_of :: "'k skip_list \<Rightarrow> ptr list \<Rightarrow> 'k list" where
  "keys_of sl ns = map (key_of sl) ns"

lemma first_above_Nil [simp]: "first_above ht i [] = Null"
  by (simp add: first_above_def)

lemma first_above_Cons:
  "first_above ht i (x # xs) = (if i < ht x then x else first_above ht i xs)"
  by (simp add: first_above_def)

lemma first_above_append:
  "first_above ht i (xs @ ys) =
    (if \<exists>x \<in> set xs. i < ht x then first_above ht i xs else first_above ht i ys)"
  by (induction xs) (auto simp: first_above_Cons)

lemma first_above_split:
  assumes "\<exists>x \<in> set xs. i < ht x"
  obtains as y bs where "xs = as @ y # bs" "\<forall>x \<in> set as. \<not> i < ht x" "i < ht y" "first_above ht i xs = y"
proof -
  obtain as y bs where xs: "xs = as @ y # bs" "i < ht y" "\<forall>x \<in> set as. \<not> i < ht x"
    using split_list_first_prop [OF assms] by blast
  moreover from xs have "first_above ht i xs = y" by (auto simp: first_above_append first_above_Cons)
  ultimately show thesis using that by blast
qed

lemma first_above_in: "first_above ht i xs \<noteq> Null \<Longrightarrow> first_above ht i xs \<in> set xs"
  by (induction xs) (auto simp: first_above_Cons split: if_splits)

lemma last_above_skip:
  assumes "i < ht x" "\<forall>y \<in> set ys. \<not> i < ht y"
  shows "last_above ht i (xs @ x # ys) = x"
  using assms by (simp add: last_above_def)

lemma links_okD: "links_ok sl (pre @ x # post) \<Longrightarrow> i < height_of sl x \<Longrightarrow>
    Next sl x i = Some (first_above (height_of sl) i post)"
  by (auto simp: links_ok_def)


section \<open>Searching\<close>

text \<open>
  A search stands on a node \<open>x\<close> at a level below its height.  The nodes after \<open>x\<close> are those still to
  be passed (\<open>todo\<close>) and those to stop at (\<open>hi\<close>).  The next node at this level is one of \<open>todo\<close>
  or, when none of them reaches the level, null or one of \<open>hi\<close>.
\<close>

lemma search_step:
  assumes "links_ok sl (pre @ x # todo @ hi)" "level < height_of sl x"
  obtains (go) as y bs where "todo = as @ y # bs" "Next sl x level = Some y" "level < height_of sl y"
    "\<forall>z \<in> set as. \<not> level < height_of sl z"
  | (down) n where "Next sl x level = Some n" "n = first_above (height_of sl) level hi"
    "\<forall>z \<in> set todo. \<not> level < height_of sl z"
proof (cases "\<exists>z \<in> set todo. level < height_of sl z")
  case True
  then show thesis
    using go links_okD [OF assms] first_above_split [OF True] by (metis first_above_append)
next
  case False
  then show thesis
    using down links_okD [OF assms] by (simp add: first_above_append)
qed

lemma Null_not_above: "Null \<notin> set xs \<Longrightarrow> first_above ht i xs = Null \<longleftrightarrow> (\<forall>x \<in> set xs. \<not> i < ht x)"
  by (induction xs) (auto simp: first_above_Cons)

text \<open>The array \<^verbatim>\<open>prev\<close> after a search that passed the nodes \<open>lo\<close>.\<close>

definition filled :: "'k skip_list \<Rightarrow> ptr list \<Rightarrow> nat \<Rightarrow> ptr option list \<Rightarrow> ptr option list" where
  "filled sl lo level arr =
    map (\<lambda>i. if i \<le> level then Some (last_above (height_of sl) i lo) else arr ! i) [0..<length arr]"

lemma length_filled [simp]: "length (filled sl lo level arr) = length arr"
  by (simp add: filled_def)

lemma nth_filled: "i < length arr \<Longrightarrow>
    filled sl lo level arr ! i = (if i \<le> level then Some (last_above (height_of sl) i lo) else arr ! i)"
  by (simp add: filled_def)

lemma filled_0:
  assumes "last_above (height_of sl) 0 lo = x"
  shows "filled sl lo 0 arr = arr[0 := Some x]"
  by (rule nth_equalityI) (auto simp: nth_filled nth_list_update assms)

lemma filled_Suc:
  assumes "last_above (height_of sl) (Suc l) lo = x"
  shows "filled sl lo (Suc l) arr = filled sl lo l (arr[Suc l := Some x])"
  by (rule nth_equalityI) (auto simp: nth_filled nth_list_update assms le_Suc_eq)

text \<open>The nodes \<open>lo\<close> hold keys below \<open>key\<close>, the nodes \<open>hi\<close> hold the others.\<close>

definition passes :: "('k \<Rightarrow> bool) \<Rightarrow> ('k \<Rightarrow> 'o::linorder) \<Rightarrow> 'k skip_list \<Rightarrow> 'k \<Rightarrow> ptr list \<Rightarrow> ptr list \<Rightarrow> bool" where
  "passes ok ukey sl key lo hi \<longleftrightarrow>
    (\<forall>x \<in> set lo. x \<noteq> Null \<and> x \<in> dom (nodes sl) \<and> ok (key_of sl x) \<and> ukey (key_of sl x) < ukey key) \<and>
    (\<forall>x \<in> set hi. x \<noteq> Null \<and> x \<in> dom (nodes sl) \<and> ok (key_of sl x) \<and> \<not> ukey (key_of sl x) < ukey key)"

locale ordered_keys =
  fixes cmp :: "'k compare" and ok :: "'k \<Rightarrow> bool" and ukey :: "'k \<Rightarrow> 'o::linorder"
  assumes cmp_law: "ok a \<Longrightarrow> ok b \<Longrightarrow>
      cmp a b = Some (if ukey a < ukey b then -1 else if ukey a = ukey b then 0 else 1)"
begin

lemma Equal_law: "ok a \<Longrightarrow> ok b \<Longrightarrow> Equal cmp a b = Some (ukey a = ukey b)"
  by (simp add: Equal_def cmp_law)

lemma KeyIsAfterNode_law:
  assumes "x \<noteq> Null" "x \<in> dom (nodes sl)" "ok (key_of sl x)" "ok key"
  shows "KeyIsAfterNode cmp sl key x = Some (ukey (key_of sl x) < ukey key)"
  using assms by (auto simp: KeyIsAfterNode_def key_of_def cmp_law)

lemma FindGreaterOrEqual_loop_correct:
  assumes "links_ok sl (pre @ x # todo @ hi)" "level < height_of sl x"
    and "passes ok ukey sl key todo hi" "ok key" "\<forall>z \<in> set (todo @ hi). 0 < height_of sl z"
  shows "FindGreaterOrEqual_loop cmp sl key x level prev =
    Some (first_above (height_of sl) 0 hi, map_option (filled sl (pre @ x # todo) level) prev)"
  using assms
proof (induction "level + length todo" arbitrary: pre x todo level prev rule: less_induct)
  case less
  note step = FindGreaterOrEqual_loop.simps [of cmp sl key x level prev]
  from less.prems(1,2) show ?case
  proof (cases rule: search_step)
    case (go as y bs)
    then have y: "KeyIsAfterNode cmp sl key y = Some True"
      using less.prems(3,4) KeyIsAfterNode_law by (auto simp: passes_def)
    have "FindGreaterOrEqual_loop cmp sl key y level prev = Some (first_above (height_of sl) 0 hi,
        map_option (filled sl ((pre @ x # as) @ y # bs) level) prev)"
      using less.prems go by (intro less.hyps) (auto simp: passes_def)
    then show ?thesis by (simp add: step go y)
  next
    case (down n)
    have "KeyIsAfterNode cmp sl key n = Some False"
    proof (cases "n = Null")
      case False
      then have "n \<in> set hi" using down(2) first_above_in by metis
      with False less.prems(3,4) show ?thesis using KeyIsAfterNode_law by (auto simp: passes_def)
    qed (simp add: KeyIsAfterNode_def)
    moreover have last: "last_above (height_of sl) level (pre @ x # todo) = x"
      using less.prems(2) down(3) by (rule last_above_skip)
    moreover have "FindGreaterOrEqual_loop cmp sl key x l prev' = Some (first_above (height_of sl) 0 hi,
        map_option (filled sl (pre @ x # todo) l) prev')" if "level = Suc l" for l prev'
      using less.prems that by (intro less.hyps) auto
    ultimately show ?thesis
      using down(1,2) 
      by (subst step, cases level) (auto simp: option.map_comp o_def filled_0 filled_Suc Let_def cong: option.map_cong)
  qed
qed

lemma FindLessThan_loop_correct:
  assumes "links_ok sl (pre @ x # todo @ hi)" "level < height_of sl x"
    and "passes ok ukey sl key todo hi" "ok key" "\<forall>z \<in> set (todo @ hi). 0 < height_of sl z"
    and "x = head sl \<or> (x \<in> dom (nodes sl) \<and> ok (key_of sl x) \<and> ukey (key_of sl x) < ukey key)"
  shows "FindLessThan_loop cmp sl key x level = Some (last (x # todo))"
  using assms
proof (induction "level + length todo" arbitrary: pre x todo level rule: less_induct)
  case less
  note step = FindLessThan_loop.simps [of cmp sl key x level]
  have before: "before_or_head cmp sl key x = Some True"
    using less.prems(4,6) by (auto simp: before_or_head_def key_of_def cmp_law)
  from less.prems(1,2) show ?case
  proof (cases rule: search_step)
    case (go as y bs)
    then have y: "stop_at cmp sl key y = Some False" and yk: "y \<in> dom (nodes sl)" "ok (key_of sl y)" "ukey (key_of sl y) < ukey key"
      using less.prems(3,4) by (auto simp: passes_def stop_at_def key_of_def cmp_law)
    have "FindLessThan_loop cmp sl key y level = Some (last (y # bs))"
      using less.prems go yk by (intro less.hyps [of level bs "pre @ x # as"]) (auto simp: passes_def)
    then show ?thesis by (simp add: step go y before)
  next
    case (down n)
    have n: "stop_at cmp sl key n = Some True"
    proof (cases "n = Null")
      case False
      then have "n \<in> set hi" using down(2) first_above_in by metis
      with False less.prems(3,4) show ?thesis by (auto simp: passes_def stop_at_def key_of_def cmp_law not_less)
    qed (simp add: stop_at_def)
    show ?thesis
    proof (cases level)
      case 0
      with down(3) less.prems(5) have "todo = []" by (cases todo) auto
      with 0 n down(1) before show ?thesis by (subst step) simp
    next
      case (Suc l)
      with less.prems have "FindLessThan_loop cmp sl key x l = Some (last (x # todo))"
        by (intro less.hyps) auto
      with Suc n down(1) before show ?thesis by (subst step) simp
    qed
  qed
qed

end

lemma FindLast_loop_correct:
  assumes "links_ok sl (pre @ x # todo)" "level < height_of sl x" "Null \<notin> set todo"
    and "\<forall>z \<in> set todo. 0 < height_of sl z"
  shows "FindLast_loop sl x level = Some (last (x # todo))"
  using assms
proof (induction "level + length todo" arbitrary: pre x todo level rule: less_induct)
  case less
  note step = FindLast_loop.simps [of sl x level]
  have "links_ok sl (pre @ x # todo @ [])" using less.prems(1) by simp
  from this less.prems(2) show ?case
  proof (cases rule: search_step)
    case (go as y bs)
    have "FindLast_loop sl y level = Some (last (y # bs))"
      using less.prems go by (intro less.hyps [of level bs "pre @ x # as"]) auto
    with go less.prems(3) show ?thesis by (auto simp: step)
  next
    case (down n)
    show ?thesis
    proof (cases level)
      case 0
      with down(3) less.prems(4) have "todo = []" by (cases todo) auto
      with 0 down(1,2) show ?thesis by (subst step) simp
    next
      case (Suc l)
      with less.prems have "FindLast_loop sl x l = Some (last (x # todo))"
        by (intro less.hyps) auto
      with Suc down(1,2) show ?thesis by (subst step) simp
    qed
  qed
qed


section \<open>Search results on a represented list\<close>

definition below :: "('k \<Rightarrow> 'o::linorder) \<Rightarrow> 'k skip_list \<Rightarrow> 'k \<Rightarrow> ptr list \<Rightarrow> ptr list" where
  "below ukey sl key ns = takeWhile (\<lambda>x. ukey (key_of sl x) < ukey key) ns"

definition onward :: "('k \<Rightarrow> 'o::linorder) \<Rightarrow> 'k skip_list \<Rightarrow> 'k \<Rightarrow> ptr list \<Rightarrow> ptr list" where
  "onward ukey sl key ns = dropWhile (\<lambda>x. ukey (key_of sl x) < ukey key) ns"

lemma below_from: "below ukey sl key ns @ onward ukey sl key ns = ns"
  by (simp add: below_def onward_def)

lemma sorted_dropWhile_not:
  assumes "sorted_wrt (<) (map f xs)" "x \<in> set (dropWhile (\<lambda>x. f x < (c :: 'o::linorder)) xs)"
  shows "\<not> f x < c"
  using assms
proof (induction xs)
  case (Cons y ys)
  show ?case
  proof (cases "f y < c")
    case True
    with Cons show ?thesis by simp
  next
    case False
    with Cons.prems have "x = y \<or> f y < f x" by auto
    with False show ?thesis by auto
  qed
qed simp

lemma passes_below_from:
  assumes "sl_rep ok ukey sl ns"
  shows "passes ok ukey sl key (below ukey sl key ns) (onward ukey sl key ns)"
proof -
  have lo: "x \<in> set ns \<and> ukey (key_of sl x) < ukey key" if "x \<in> set (below ukey sl key ns)" for x
    using that by (auto simp: below_def dest: set_takeWhileD)
  have hi: "x \<in> set ns \<and> \<not> ukey (key_of sl x) < ukey key" if "x \<in> set (onward ukey sl key ns)" for x
    using that assms sorted_dropWhile_not [of "\<lambda>x. ukey (key_of sl x)" ns x "ukey key"]
    by (auto simp: onward_def sl_rep_def dest: set_dropWhileD)
  have "x \<noteq> Null \<and> x \<in> dom (nodes sl) \<and> ok (key_of sl x)" if "x \<in> set ns" for x
    using assms that unfolding sl_rep_def by (metis list.set_intros(2))
  with lo hi show ?thesis by (simp add: passes_def)
qed

lemma sl_rep_heights:
  assumes "sl_rep ok ukey sl ns"
  shows "max_height sl - 1 < height_of sl (head sl)" "x \<in> set ns \<Longrightarrow> 0 < height_of sl x"
  using assms by (auto simp: sl_rep_def Suc_le_eq)

context ordered_keys
begin

lemma FindGreaterOrEqual_correct:
  assumes rep: "sl_rep ok ukey sl ns" and key: "ok key"
  shows "FindGreaterOrEqual cmp sl key prev =
    Some (first_above (height_of sl) 0 (onward ukey sl key ns),
      map_option (filled sl (head sl # below ukey sl key ns) (max_height sl - 1)) prev)"
proof -
  have "links_ok sl ([] @ head sl # below ukey sl key ns @ onward ukey sl key ns)"
    using rep by (simp add: below_from sl_rep_def)
  moreover have "\<forall>z \<in> set (below ukey sl key ns @ onward ukey sl key ns). 0 < height_of sl z"
    unfolding below_from using sl_rep_heights(2) [OF rep] by blast
  ultimately show ?thesis
    using FindGreaterOrEqual_loop_correct [where pre = "[]", OF _ sl_rep_heights(1) [OF rep] passes_below_from [OF rep] key]
    by (simp add: FindGreaterOrEqual_def)
qed

lemma first_from:
  assumes "sl_rep ok ukey sl ns"
  shows "first_above (height_of sl) 0 (onward ukey sl key ns) =
    (case onward ukey sl key ns of [] \<Rightarrow> Null | x # _ \<Rightarrow> x)"
proof (cases "onward ukey sl key ns")
  case (Cons x xs)
  then have "x \<in> set ns" by (metis onward_def list.set_intros(1) set_dropWhileD)
  with Cons show ?thesis using sl_rep_heights(2) [OF assms] by (simp add: first_above_Cons)
qed simp

lemma FindLessThan_correct:
  assumes rep: "sl_rep ok ukey sl ns" and key: "ok key"
  shows "FindLessThan cmp sl key = Some (last (head sl # below ukey sl key ns))"
proof -
  have "links_ok sl ([] @ head sl # below ukey sl key ns @ onward ukey sl key ns)"
    using rep by (simp add: below_from sl_rep_def)
  moreover have "\<forall>z \<in> set (below ukey sl key ns @ onward ukey sl key ns). 0 < height_of sl z"
    unfolding below_from using sl_rep_heights(2) [OF rep] by blast
  ultimately show ?thesis
    using FindLessThan_loop_correct [where pre = "[]", OF _ sl_rep_heights(1) [OF rep] passes_below_from [OF rep] key]
    by (simp add: FindLessThan_def)
qed

end

lemma FindLast_correct:
  assumes rep: "sl_rep ok ukey sl ns"
  shows "FindLast sl = Some (last (head sl # ns))"
proof -
  have "links_ok sl ([] @ head sl # ns)" "Null \<notin> set ns" using rep by (simp_all add: sl_rep_def)
  moreover have "\<forall>z \<in> set ns. 0 < height_of sl z" using sl_rep_heights(2) [OF rep] by blast
  ultimately show ?thesis
    using FindLast_loop_correct [where pre = "[]", OF _ sl_rep_heights(1) [OF rep]] by (simp add: FindLast_def)
qed


section \<open>Linking a new node\<close>

text \<open>Two states of a list that differ in successor pointers only.\<close>

definition same_shape :: "'k skip_list \<Rightarrow> 'k skip_list \<Rightarrow> bool" where
  "same_shape sl sl' \<longleftrightarrow> head sl' = head sl \<and> rand sl' = rand sl \<and> max_height sl' = max_height sl \<and>
    dom (nodes sl') = dom (nodes sl) \<and> key_of sl' = key_of sl \<and> height_of sl' = height_of sl"

lemma same_shape_refl [simp]: "same_shape sl sl"
  by (simp add: same_shape_def)

lemma same_shape_trans: "same_shape a b \<Longrightarrow> same_shape b c \<Longrightarrow> same_shape a c"
  by (simp add: same_shape_def)

lemma height_pos_dom: "i < height_of sl x \<Longrightarrow> x \<in> dom (nodes sl)"
  by (auto simp: height_of_def split: option.splits)

lemma SetNext_correct:
  assumes "n < height_of sl x"
  shows "\<exists>sl'. SetNext sl x n y = Some sl' \<and> same_shape sl sl' \<and>
    (\<forall>z i. Next sl' z i = (if z = x \<and> i = n then Some y else Next sl z i))"
proof -
  from assms obtain nd where nd: "nodes sl x = Some nd" "n < length (node_next nd)"
    by (auto simp: height_of_def split: option.splits)
  let ?sl' = "sl\<lparr>nodes := (nodes sl)(x \<mapsto> nd\<lparr>node_next := (node_next nd)[n := Some y]\<rparr>)\<rparr>"
  have "SetNext sl x n y = Some ?sl'" using nd by (simp add: SetNext_def)
  moreover have "same_shape sl ?sl'"
    using nd by (auto simp: same_shape_def key_of_def height_of_def fun_eq_iff)
  moreover have "\<forall>z i. Next ?sl' z i = (if z = x \<and> i = n then Some y else Next sl z i)"
    using nd by (auto simp: Next_def nth_list_update)
  ultimately show ?thesis by blast
qed

lemma link_level_correct:
  assumes "prev ! i = Some p" "p \<noteq> x" "i < height_of sl x" "i < height_of sl p" "Next sl p i = Some n"
  shows "\<exists>sl'. link_level x prev i sl = Some sl' \<and> same_shape sl sl' \<and>
    (\<forall>z j. Next sl' z j = (if z = p \<and> j = i then Some x else if z = x \<and> j = i then Some n else Next sl z j))"
proof -
  obtain sl1 where 1: "SetNext sl x i n = Some sl1" "same_shape sl sl1"
    "\<forall>z j. Next sl1 z j = (if z = x \<and> j = i then Some n else Next sl z j)"
    using SetNext_correct [OF assms(3)] by blast
  then have "i < height_of sl1 p" using assms(4) by (simp add: same_shape_def)
  then obtain sl2 where 2: "SetNext sl1 p i x = Some sl2" "same_shape sl1 sl2"
    "\<forall>z j. Next sl2 z j = (if z = p \<and> j = i then Some x else Next sl1 z j)"
    using SetNext_correct by blast
  have "link_level x prev i sl = Some sl2" using assms 1 2 by (simp add: link_level_def)
  moreover have "same_shape sl sl2" using 1 2 by (blast intro: same_shape_trans)
  ultimately show ?thesis using 1(3) 2(3) assms(2) by simp
qed

lemma foldM_append: "foldM f (xs @ ys) s = Option.bind (foldM f xs s) (foldM f ys)"
  by (induction xs arbitrary: s) (auto split: bind_splits)

text \<open>Linking the levels below \<open>k\<close> of node \<open>x\<close>, where \<open>P i\<close> is its predecessor at level \<open>i\<close>.\<close>

lemma link_levels_correct:
  assumes "k \<le> height_of sl x"
    and P: "\<And>i. i < k \<Longrightarrow> prev ! i = Some (P i) \<and> P i \<noteq> x \<and> i < height_of sl (P i) \<and> Next sl (P i) i = Some (N i)"
  shows "\<exists>sl'. foldM (link_level x prev) [0..<k] sl = Some sl' \<and> same_shape sl sl' \<and>
    (\<forall>z j. Next sl' z j =
      (if j < k \<and> z = P j then Some x else if j < k \<and> z = x then Some (N j) else Next sl z j))"
  using assms
proof (induction k)
  case 0
  then show ?case by simp
next
  case (Suc k)
  then obtain s1 where s1: "foldM (link_level x prev) [0..<k] sl = Some s1" "same_shape sl s1"
    "\<forall>z j. Next s1 z j =
      (if j < k \<and> z = P j then Some x else if j < k \<and> z = x then Some (N j) else Next sl z j)"
    by (metis Suc_leD less_Suc_eq)
  have P': "prev ! k = Some (P k)" "P k \<noteq> x" "k < height_of s1 x" "k < height_of s1 (P k)" "Next s1 (P k) k = Some (N k)"
    using Suc.prems s1 by (auto simp: same_shape_def)
  obtain s2 where s2: "link_level x prev k s1 = Some s2" "same_shape s1 s2"
    "\<forall>z j. Next s2 z j = (if z = P k \<and> j = k then Some x else if z = x \<and> j = k then Some (N k) else Next s1 z j)"
    using link_level_correct [OF P'] by blast
  have "foldM (link_level x prev) [0..<Suc k] sl = Some s2" using s1(1) s2(1) by (simp add: foldM_append)
  moreover have "same_shape sl s2" using s1(2) s2(2) by (rule same_shape_trans)
  moreover have "\<forall>z j. Next s2 z j =
      (if j < Suc k \<and> z = P j then Some x else if j < Suc k \<and> z = x then Some (N j) else Next sl z j)"
    using s1(3) s2(3) by (auto simp: less_Suc_eq)
  ultimately show ?case by blast
qed

text \<open>Where the new node belongs: after the last node of \<open>lo\<close> that reaches each of its levels.\<close>

lemma last_above_split:
  assumes "\<exists>x \<in> set xs. i < ht x"
  obtains as bs where "xs = as @ last_above ht i xs # bs" "i < ht (last_above ht i xs)" "\<forall>x \<in> set bs. \<not> i < ht x"
proof -
  obtain as y bs where "xs = as @ y # bs" "i < ht y" "\<forall>x \<in> set bs. \<not> i < ht x"
    using split_list_last_prop [OF assms] by blast
  then show thesis using that by (simp add: last_above_skip)
qed

lemma last_above_in_tail:
  assumes "\<exists>x \<in> set ys. i < ht x"
  shows "last_above ht i (xs @ ys) \<in> set ys"
proof -
  have ne: "filter (\<lambda>x. i < ht x) ys \<noteq> []" using assms by (auto simp: filter_empty_conv)
  then have "last_above ht i (xs @ ys) = last (filter (\<lambda>x. i < ht x) ys)" by (simp add: last_above_def)
  with last_in_set [OF ne] show ?thesis by simp
qed

lemma links_ok_insert:
  assumes links: "links_ok sl (lo @ hi)"
    and dist: "distinct (lo @ y # hi)"
    and ht: "\<And>z. z \<noteq> y \<Longrightarrow> height_of sl' z = height_of sl z"
    and top: "\<And>i. i < height_of sl' y \<Longrightarrow> \<exists>z \<in> set lo. i < height_of sl z"
    and nxt: "\<And>z j. Next sl' z j =
      (if j < height_of sl' y \<and> z = last_above (height_of sl) j lo then Some y
       else if j < height_of sl' y \<and> z = y then Some (first_above (height_of sl) j hi) else Next sl z j)"
  shows "links_ok sl' (lo @ y # hi)"
  unfolding links_ok_def
proof (intro allI impI)
  fix pre x post i
  assume split: "lo @ y # hi = pre @ x # post" and i: "i < height_of sl' x"
  have fa: "first_above (height_of sl') j zs = first_above (height_of sl) j zs" if "y \<notin> set zs" for j zs
    using that ht by (induction zs) (auto simp: first_above_Cons)
  have y: "y \<notin> set lo" "y \<notin> set hi" using dist by auto
  from split consider (lo) lo2 where "lo = pre @ x # lo2" "post = lo2 @ y # hi"
    | (new) "pre = lo" "x = y" "post = hi" | (hi) hi1 where "pre = lo @ y # hi1" "hi = hi1 @ x # post"
    by (auto simp: append_eq_append_conv2 append_eq_Cons_conv Cons_eq_append_conv)
  then show "Next sl' x i = Some (first_above (height_of sl') i post)"
  proof cases
    case lo
    have x: "x \<noteq> y" "i < height_of sl x" using lo y i ht by auto
    have old: "Next sl x i = Some (first_above (height_of sl) i (lo2 @ hi))"
      using links links_okD [of sl pre x "lo2 @ hi" i] x lo by simp
    have htl: "(\<exists>z \<in> set lo2. i < height_of sl' z) \<longleftrightarrow> (\<exists>z \<in> set lo2. i < height_of sl z)"
      using ht y(1) lo(1) by (metis Un_iff list.set_intros(2) set_append)
    show ?thesis
    proof (cases "\<exists>z \<in> set lo2. i < height_of sl z")
      case True
      then have "x \<noteq> last_above (height_of sl) i lo"
        using last_above_in_tail [OF True, of "pre @ [x]"] dist lo by auto
      moreover have "\<exists>z \<in> set lo2. i < height_of sl' z" using True by (simp add: htl)
      ultimately show ?thesis
        using True old x lo y fa [of lo2] by (simp add: nxt first_above_append)
    next
      case False
      then have "last_above (height_of sl) i lo = x" using x lo by (simp add: last_above_skip)
      with False old x lo y show ?thesis
        using fa [of lo2] fa [of hi] htl
        by (simp add: nxt first_above_append first_above_Cons)
    qed
  next
    case new
    then have "last_above (height_of sl) i lo \<in> set lo"
      using i last_above_in_tail [of lo i "height_of sl" "[]"] top [of i] by simp
    with new i y show ?thesis
      using fa [of hi] by (auto simp: nxt)
  next
    case (hi hi1)
    have x: "x \<noteq> y" "x \<notin> set lo" using dist hi by auto
    have "x \<noteq> last_above (height_of sl) i lo" if "i < height_of sl' y"
      using last_above_split [OF top [OF that]] x(2) by (metis in_set_conv_decomp)
    moreover have "Next sl x i = Some (first_above (height_of sl) i post)"
      using links links_okD [of sl "lo @ hi1" x post i] i x ht hi by simp
    ultimately show ?thesis using x y hi fa [of post] by (auto simp: nxt)
  qed
qed

end
