(* ===== verification/Skip_List_Insert.thy ===== *)
theory Skip_List_Insert
  imports Skip_List_Correct
begin

text \<open>
  Insertion into the skip list and the contracts of its public operations, proved in the locale
  \<open>ordered_keys\<close> for every lawful comparator.  The specification is on the sorted list of keys:
  \<open>put_key\<close> replaces the key that compares equal, or puts the new key at its place.
\<close>

section \<open>Replacing a key\<close>

lemma set_key_facts:
  assumes "x \<in> dom (nodes sl)"
  shows "height_of (set_key sl x key) = height_of sl" "Next (set_key sl x key) = Next sl"
    "key_of (set_key sl x key) = (key_of sl)(x := key)" "dom (nodes (set_key sl x key)) = dom (nodes sl)"
    "head (set_key sl x key) = head sl" "rand (set_key sl x key) = rand sl"
    "max_height (set_key sl x key) = max_height sl"
  using assms by (auto simp: set_key_def height_of_def Next_def key_of_def fun_eq_iff split: option.splits)

lemma sl_rep_not_Null: "sl_rep ok ukey sl ns \<Longrightarrow> Null \<notin> dom (nodes sl)"
  unfolding sl_rep_def by metis

lemma set_key_rep:
  assumes rep: "sl_rep ok ukey sl ns" and x: "x \<in> set ns" and eq: "ukey (key_of sl x) = ukey key" and "ok key"
  shows "sl_rep ok ukey (set_key sl x key) ns"
proof -
  have dom: "x \<in> dom (nodes sl)" using rep x by (metis list.set_intros(2) sl_rep_def)
  have "map (\<lambda>z. ukey (((key_of sl)(x := key)) z)) ns = map (\<lambda>z. ukey (key_of sl z)) ns"
    using eq by simp
  then have "sorted_wrt (<) (map (\<lambda>z. ukey (((key_of sl)(x := key)) z)) ns)"
    using rep by (simp only: sl_rep_def)
  moreover have "Null \<notin> dom (nodes sl)" using rep by (rule sl_rep_not_Null)
  ultimately show ?thesis
    using rep \<open>ok key\<close> unfolding sl_rep_def links_ok_def set_key_facts [OF dom] by simp
qed


section \<open>The height of a new node\<close>

lemma RandomHeight_loop_bounds:
  assumes "seed_ok seed" "1 \<le> k" "k \<le> kMaxHeight"
  shows "1 \<le> fst (RandomHeight_loop k seed) \<and> fst (RandomHeight_loop k seed) \<le> kMaxHeight \<and>
    seed_ok (snd (RandomHeight_loop k seed))"
  using assms
proof (induction k seed rule: RandomHeight_loop.induct)
  case (1 k seed)
  note step = RandomHeight_loop.simps [of k seed]
  show ?case
  proof (cases "k < kMaxHeight \<and> Random_Next seed mod 4 = 0")
    case True
    with 1 show ?thesis using seed_ok_Next by (simp add: step Let_def)
  next
    case False
    with 1 show ?thesis using seed_ok_Next by (auto simp: step Let_def)
  qed
qed

lemma RandomHeight_bounds:
  assumes "seed_ok seed" "RandomHeight seed = (k, seed')"
  shows "1 \<le> k" "k \<le> kMaxHeight" "seed_ok seed'"
  using RandomHeight_loop_bounds [of seed 1] assms by (simp_all add: RandomHeight_def kMaxHeight_def)


section \<open>Adding a node\<close>

lemma fold_set_nth:
  assumes "j \<le> length arr"
  shows "length (fold (\<lambda>i arr. arr[i := Some p]) [k..<j] arr) = length arr \<and>
    (\<forall>i < length arr. fold (\<lambda>i arr. arr[i := Some p]) [k..<j] arr ! i = (if k \<le> i \<and> i < j then Some p else arr ! i))"
  using assms by (induction j) (auto simp: nth_list_update less_Suc_eq)

lemma last_above_lo:
  assumes rep: "sl_rep ok ukey sl (lo @ hi)" and i: "i < kMaxHeight"
  shows "last_above (height_of sl) i (head sl # lo) \<in> set (head sl # lo)"
    "i < height_of sl (last_above (height_of sl) i (head sl # lo))"
    "Next sl (last_above (height_of sl) i (head sl # lo)) i = Some (first_above (height_of sl) i hi)"
    "max_height sl \<le> i \<Longrightarrow> last_above (height_of sl) i (head sl # lo) = head sl"
proof -
  let ?p = "last_above (height_of sl) i (head sl # lo)"
  have ex: "\<exists>x \<in> set (head sl # lo). i < height_of sl x" using rep i by (simp add: sl_rep_def)
  then obtain as bs where split: "head sl # lo = as @ ?p # bs" "i < height_of sl ?p"
    and bs: "\<forall>x \<in> set bs. \<not> i < height_of sl x"
    by (rule last_above_split)
  show "?p \<in> set (head sl # lo)" by (subst split(1)) simp
  show "i < height_of sl ?p" by (rule split(2))
  have "links_ok sl ((head sl # lo) @ hi)" using rep by (simp add: sl_rep_def)
  then have "links_ok sl (as @ ?p # (bs @ hi))" by (subst (asm) split(1)) simp
  from links_okD [OF this split(2)] bs
  show "Next sl ?p i = Some (first_above (height_of sl) i hi)" by (auto simp: first_above_append)
  show "?p = head sl" if "max_height sl \<le> i"
  proof -
    have "\<forall>y \<in> set lo. \<not> i < height_of sl y" using rep that by (force simp: sl_rep_def)
    with last_above_skip [of i "height_of sl" "head sl" lo "[]"] i rep show ?thesis
      by (simp add: sl_rep_def)
  qed
qed

text \<open>The state after \<^verbatim>\<open>NewNode\<close>: the node is there, none of its cells is set.\<close>

definition with_node :: "'k skip_list \<Rightarrow> nat \<Rightarrow> u32 \<Rightarrow> ptr \<Rightarrow> 'k \<Rightarrow> 'k skip_list" where
  "with_node sl height seed y key =
    sl\<lparr>rand := seed, max_height := max height (max_height sl),
       nodes := (nodes sl)(y \<mapsto> \<lparr>node_key = key, node_next = replicate height None\<rparr>)\<rparr>"

lemma with_node_facts:
  assumes "y \<notin> dom (nodes sl)"
  shows "height_of (with_node sl k seed y key) = (height_of sl)(y := k)"
    "Next (with_node sl k seed y key) = Next sl"
    "key_of (with_node sl k seed y key) = (key_of sl)(y := key)"
    "dom (nodes (with_node sl k seed y key)) = insert y (dom (nodes sl))"
    "head (with_node sl k seed y key) = head sl" "rand (with_node sl k seed y key) = seed"
    "max_height (with_node sl k seed y key) = max k (max_height sl)"
proof -
  have "nodes sl y = None" using assms by auto
  then show "Next (with_node sl k seed y key) = Next sl"
    by (auto simp: with_node_def Next_def fun_eq_iff)
qed (auto simp: with_node_def height_of_def key_of_def fun_eq_iff)

lemma link_new_node:
  assumes rep: "sl_rep ok ukey sl (lo @ hi)"
    and y: "y \<notin> dom (nodes sl)" "y \<noteq> Null"
    and k: "1 \<le> k" "k \<le> kMaxHeight" and seed: "seed_ok seed" and "ok key"
    and lo: "\<forall>x \<in> set lo. ukey (key_of sl x) < ukey key" and hi: "\<forall>x \<in> set hi. ukey key < ukey (key_of sl x)"
    and prev: "\<forall>i < k. prev ! i = Some (last_above (height_of sl) i (head sl # lo))"
  shows "\<exists>sl'. foldM (link_level y prev) [0..<k] (with_node sl k seed y key) = Some sl' \<and>
    sl_rep ok ukey sl' (lo @ y # hi) \<and> keys_of sl' (lo @ y # hi) = keys_of sl lo @ key # keys_of sl hi \<and>
    dom (nodes sl') = insert y (dom (nodes sl))"
proof -
  let ?sl = "with_node sl k seed y key" and ?P = "\<lambda>i. last_above (height_of sl) i (head sl # lo)"
    and ?N = "\<lambda>i. first_above (height_of sl) i hi"
  note W = with_node_facts [OF y(1), of k seed key]
  have dom: "set (head sl # lo @ hi) = dom (nodes sl)" using rep by (simp add: sl_rep_def)
  have notin: "y \<notin> set (head sl # lo)" "y \<notin> set hi" using y(1) dom by auto
  have P: "prev ! i = Some (?P i) \<and> ?P i \<noteq> y \<and> i < height_of ?sl (?P i) \<and> Next ?sl (?P i) i = Some (?N i)" if "i < k" for i
    using prev that last_above_lo(1-3) [OF rep, of i] notin(1) k(2) by (auto simp: W)
  have "k \<le> height_of ?sl y" by (simp add: W)
  from link_levels_correct [OF this P] obtain sl' where fold: "foldM (link_level y prev) [0..<k] ?sl = Some sl'" and shape: "same_shape ?sl sl'"
    and nxt: "\<And>z j. Next sl' z j = (if j < k \<and> z = ?P j then Some y else if j < k \<and> z = y then Some (?N j) else Next sl z j)"
    unfolding W(2) by blast
  from shape have S: "height_of sl' = (height_of sl)(y := k)" "key_of sl' = (key_of sl)(y := key)"
    "dom (nodes sl') = insert y (dom (nodes sl))" "head sl' = head sl" "rand sl' = seed" "max_height sl' = max k (max_height sl)"
    by (simp_all add: same_shape_def W)
  have links: "links_ok sl' ((head sl # lo) @ y # hi)"
  proof (rule links_ok_insert)
    show "links_ok sl ((head sl # lo) @ hi)" using rep by (simp add: sl_rep_def)
    show "distinct ((head sl # lo) @ y # hi)" using rep notin by (auto simp: sl_rep_def)
    show "\<exists>z \<in> set (head sl # lo). i < height_of sl z" if "i < height_of sl' y" for i
      using that k rep by (intro bexI [of _ "head sl"]) (auto simp: S sl_rep_def)
  qed (auto simp: S nxt)
  have keys: "map (\<lambda>x. ukey (key_of sl' x)) (lo @ y # hi) =
      map (\<lambda>x. ukey (key_of sl x)) lo @ ukey key # map (\<lambda>x. ukey (key_of sl x)) hi"
    using notin by (auto simp: S)
  have "sl_rep ok ukey sl' (lo @ y # hi)"
    unfolding sl_rep_def
  proof (intro conjI)
    show "distinct (head sl' # lo @ y # hi)" "Null \<notin> set (head sl' # lo @ y # hi)"
      using rep notin y(2) by (auto simp: sl_rep_def S)
    show "set (head sl' # lo @ y # hi) = dom (nodes sl')" using dom by (auto simp: S)
    show "\<forall>x \<in> set (lo @ y # hi). 1 \<le> height_of sl' x \<and> height_of sl' x \<le> max_height sl' \<and> ok (key_of sl' x)"
      using rep k \<open>ok key\<close> by (auto simp: sl_rep_def S le_max_iff_disj)
    show "sorted_wrt (<) (map (\<lambda>x. ukey (key_of sl' x)) (lo @ y # hi))"
      unfolding keys using rep lo hi by (auto simp: sl_rep_def sorted_wrt_append)
    show "height_of sl' (head sl') = kMaxHeight" "1 \<le> max_height sl'" "max_height sl' \<le> kMaxHeight"
      using rep notin k by (auto simp: sl_rep_def S)
    show "links_ok sl' (head sl' # lo @ y # hi)" using links by (simp add: S)
    show "seed_ok (rand sl')" using seed by (simp add: S)
  qed
  moreover have "keys_of sl' (lo @ y # hi) = keys_of sl lo @ key # keys_of sl hi"
    using notin by (auto simp: keys_of_def S)
  ultimately show ?thesis using fold S(3) by blast
qed


section \<open>Insert\<close>

text \<open>The nodes of a list stand in memory its arena has handed out.\<close>

definition nodes_in :: "heap \<Rightarrow> Memory \<Rightarrow> 'k skip_list \<Rightarrow> bool" where
  "nodes_in h m sl \<longleftrightarrow> (\<forall>x \<in> dom (nodes sl). region x 1 \<subseteq> used h m)"

lemma NewNode_fresh:
  assumes "arena_ok h m" "nodes_in h m sl" "Null \<notin> dom (nodes sl)" "blocks_memory m + kBlockSize < 2 ^ 31" "1 \<le> k" "k \<le> kMaxHeight"
  shows "\<exists>y h' m'. NewNode h m sl key k = Some (y, h', m', sl\<lparr>nodes := (nodes sl)(y \<mapsto> \<lparr>node_key = key, node_next = replicate k None\<rparr>)\<rparr>) \<and>
    y \<notin> dom (nodes sl) \<and> y \<noteq> Null \<and> addr_mod8 y = 0 \<and> region y 1 \<subseteq> used h' m' \<and>
    arena_ok h' m' \<and> heap_le h h' \<and> used h m \<subseteq> used h' m' \<and>
    set (blocks m') \<subseteq> set (blocks m) \<union> {next_block h..<next_block h'} \<and>
    blocks_memory m' \<le> blocks_memory m + kBlockSize"
proof -
  let ?n = "16 + 8 * (int k - 1)"
  have n: "0 < ?n" "?n \<le> kBlockSize" using assms(5,6) by (simp_all add: kBlockSize_def kMaxHeight_def)
  obtain y h' m' where a: "AllocateAligned h m ?n = Some (y, h', m')" "addr_mod8 y = 0"
    using AllocateAligned_succeeds [OF n(1) room_for_small [OF assms(1,4) n]] by blast
  note post = aligned.alloc_meets [OF assms(1) n(1) a(1)]
  then obtain b i where y: "y = Ptr b i" by (auto simp: alloc_post_def)
  have sub: "region y 1 \<subseteq> region y (nat ?n)" using n(1) by (auto simp: y)
  have "y \<notin> dom (nodes sl)"
  proof
    assume "y \<in> dom (nodes sl)"
    then have "region y 1 \<subseteq> used h m" using assms(2) by (simp add: nodes_in_def)
    with sub post have "region y 1 = {}" by (auto simp: alloc_post_def)
    then show False by (auto simp: y)
  qed
  moreover have "max (int (nat ?n)) kBlockSize = kBlockSize" using n by simp
  ultimately show ?thesis using a post sub y by (auto simp: NewNode_def alloc_post_def)
qed

lemma nodes_in_mono: "nodes_in h m sl \<Longrightarrow> used h m \<subseteq> used h' m' \<Longrightarrow> region y 1 \<subseteq> used h' m' \<Longrightarrow>
    dom (nodes sl') = insert y (dom (nodes sl)) \<Longrightarrow> nodes_in h' m' sl'"
  by (auto simp: nodes_in_def)

text \<open>The predecessors that \<^verbatim>\<open>Insert\<close> collects, at every level of the new node.\<close>

definition insert_prev :: "'k skip_list \<Rightarrow> nat \<Rightarrow> ptr option list \<Rightarrow> ptr option list" where
  "insert_prev sl height prev =
    (if height > max_height sl then fold (\<lambda>i arr. arr[i := Some (head sl)]) [max_height sl..<height] prev else prev)"

lemma insert_prev_last_above:
  assumes rep: "sl_rep ok ukey sl (lo @ hi)" and k: "k \<le> kMaxHeight" "i < k"
  shows "insert_prev sl k (filled sl (head sl # lo) (max_height sl - 1) (replicate kMaxHeight None)) ! i =
    Some (last_above (height_of sl) i (head sl # lo))"
proof -
  let ?f = "filled sl (head sl # lo) (max_height sl - 1) (replicate kMaxHeight None)"
  have mh: "1 \<le> max_height sl" using rep by (simp add: sl_rep_def)
  have nth: "insert_prev sl k ?f ! i = (if max_height sl \<le> i then Some (head sl) else ?f ! i)"
    using fold_set_nth [of k ?f "head sl" "max_height sl"] k by (auto simp: insert_prev_def)
  have "?f ! i = Some (last_above (height_of sl) i (head sl # lo))" if "\<not> max_height sl \<le> i"
    using that k mh by (subst nth_filled) auto
  then show ?thesis
    unfolding nth using last_above_lo(4) [OF rep, of i] k by auto
qed


lemma takeWhile_below: "takeWhile (\<lambda>x. ukey x < ukey key) (keys_of sl ns) = keys_of sl (below ukey sl key ns)"
  by (simp add: keys_of_def below_def takeWhile_map o_def)

lemma put_key_found:
  assumes "sl_rep ok ukey sl ns" "onward ukey sl key ns = x # hi" "ukey (key_of sl x) = ukey key"
  shows "put_key ukey key (keys_of sl ns) = keys_of sl (below ukey sl key ns) @ key # keys_of sl hi"
    "x \<notin> set (below ukey sl key ns)" "x \<notin> set hi" "x \<in> set ns"
proof -
  define lo where "lo = below ukey sl key ns"
  have ns: "ns = lo @ x # hi" using below_from [of ukey sl key ns] assms(2) by (simp add: lo_def)
  have sorted: "sorted_wrt (<) (map (\<lambda>x. ukey (key_of sl x)) (lo @ x # hi))" "distinct (lo @ x # hi)"
    using assms(1) by (simp_all only: ns sl_rep_def distinct.simps)
  then have "\<forall>z \<in> set lo. ukey (key_of sl z) \<le> ukey key" "\<forall>z \<in> set hi. \<not> ukey (key_of sl z) \<le> ukey key"
    using assms(3) by (auto simp: sorted_wrt_append)
  then have "dropWhile (\<lambda>z. ukey z \<le> ukey key) (keys_of sl (lo @ x # hi)) = keys_of sl hi"
    using assms(3) by (cases hi) (auto simp: keys_of_def dropWhile_append)
  then show "put_key ukey key (keys_of sl ns) = keys_of sl (below ukey sl key ns) @ key # keys_of sl hi"
    unfolding put_key_def takeWhile_below by (simp add: lo_def [symmetric]) (simp add: ns)
  show "x \<notin> set (below ukey sl key ns)" "x \<notin> set hi" "x \<in> set ns"
    using sorted(2) unfolding lo_def [symmetric] by (simp_all, simp add: ns)
qed

lemma put_key_not_found:
  assumes "sl_rep ok ukey sl ns" "\<forall>x \<in> set (onward ukey sl key ns). ukey key < ukey (key_of sl x)"
  shows "put_key ukey key (keys_of sl ns) = keys_of sl (below ukey sl key ns) @ key # keys_of sl (onward ukey sl key ns)"
proof -
  have "\<forall>z \<in> set (below ukey sl key ns). ukey (key_of sl z) \<le> ukey key"
    by (auto simp: below_def dest: set_takeWhileD)
  then have "dropWhile (\<lambda>z. ukey z \<le> ukey key) (keys_of sl (below ukey sl key ns @ onward ukey sl key ns)) =
      keys_of sl (onward ukey sl key ns)"
    using assms(2) by (cases "onward ukey sl key ns") (auto simp: keys_of_def dropWhile_append)
  then show ?thesis unfolding put_key_def takeWhile_below by (simp add: below_from)
qed

text \<open>What one \<^verbatim>\<open>Insert\<close> leaves behind.\<close>

definition insert_post :: "('k \<Rightarrow> bool) \<Rightarrow> ('k \<Rightarrow> 'o::linorder) \<Rightarrow> heap \<Rightarrow> Memory \<Rightarrow> 'k list \<Rightarrow> 'k \<Rightarrow>
    heap \<Rightarrow> Memory \<Rightarrow> 'k skip_list \<Rightarrow> ptr list \<Rightarrow> bool" where
  "insert_post ok ukey h m ks key h' m' sl' ns' \<longleftrightarrow>
    sl_rep ok ukey sl' ns' \<and> keys_of sl' ns' = put_key ukey key ks \<and> nodes_in h' m' sl' \<and>
    arena_ok h' m' \<and> heap_le h h' \<and> used h m \<subseteq> used h' m' \<and>
    set (blocks m') \<subseteq> set (blocks m) \<union> {next_block h..<next_block h'} \<and>
    blocks_memory m' \<le> blocks_memory m + kBlockSize"

context ordered_keys
begin

lemma Insert_replaces:
  assumes rep: "sl_rep ok ukey sl ns" and mem: "arena_ok h m" "nodes_in h m sl" and key: "ok key"
    and hi: "onward ukey sl key ns = x # hi" "ukey (key_of sl x) = ukey key"
  shows "Insert cmp h m sl key = Some (h, m, set_key sl x key) \<and>
    insert_post ok ukey h m (keys_of sl ns) key h m (set_key sl x key) ns"
proof -
  note found = put_key_found [OF rep hi]
  have x: "x \<in> dom (nodes sl)" "x \<noteq> Null" "ok (key_of sl x)"
    using rep found(4) unfolding sl_rep_def by (metis list.set_intros(2))+
  then have "key_equals cmp sl x key = Some True"
    using key hi(2) Equal_law by (auto simp: key_equals_def key_of_def)
  then have "Insert cmp h m sl key = Some (h, m, set_key sl x key)"
    using FindGreaterOrEqual_correct [OF rep key] first_from [OF rep, of key] hi(1) by (simp add: Insert_def)
  moreover have "keys_of (set_key sl x key) (below ukey sl key ns @ x # hi) = put_key ukey key (keys_of sl ns)"
    unfolding found(1) using found(2,3) by (auto simp: keys_of_def set_key_facts(3) [OF x(1)])
  then have "keys_of (set_key sl x key) ns = put_key ukey key (keys_of sl ns)"
    using below_from [of ukey sl key ns] hi(1) by simp
  ultimately show ?thesis
    using set_key_rep [OF rep found(4) hi(2) key] mem set_key_facts(4) [OF x(1)]
    by (simp add: insert_post_def nodes_in_def kBlockSize_def)
qed

lemma Insert_adds:
  assumes rep: "sl_rep ok ukey sl ns" and mem: "arena_ok h m" "nodes_in h m sl" and key: "ok key"
    and room: "blocks_memory m + kBlockSize < 2 ^ 31"
    and hi: "\<forall>x \<in> set (onward ukey sl key ns). ukey key < ukey (key_of sl x)"
  shows "\<exists>h' m' sl' y. Insert cmp h m sl key = Some (h', m', sl') \<and>
    insert_post ok ukey h m (keys_of sl ns) key h' m' sl' (below ukey sl key ns @ y # onward ukey sl key ns)"
proof -
  let ?lo = "below ukey sl key ns" and ?hi = "onward ukey sl key ns"
  have rep': "sl_rep ok ukey sl (?lo @ ?hi)" using rep by (simp add: below_from)
  obtain k seed where rh: "RandomHeight (rand sl) = (k, seed)" by fastforce
  have "seed_ok (rand sl)" using rep by (simp add: sl_rep_def)
  note k = RandomHeight_bounds [OF this rh]
  let ?sl1 = "sl\<lparr>rand := seed, max_height := (if k > max_height sl then k else max_height sl)\<rparr>"
  have "Null \<notin> dom (nodes ?sl1)" using sl_rep_not_Null [OF rep] by simp
  moreover have "nodes_in h m ?sl1" using mem(2) by (simp add: nodes_in_def)
  moreover have "?sl1\<lparr>nodes := (nodes ?sl1)(y \<mapsto> \<lparr>node_key = key, node_next = replicate k None\<rparr>)\<rparr> = with_node sl k seed y key" for y
    by (simp add: with_node_def max_def)
  moreover have "nodes ?sl1 = nodes sl" by simp
  ultimately obtain y h' m' where y: "NewNode h m ?sl1 key k = Some (y, h', m', with_node sl k seed y key)"
      "y \<notin> dom (nodes sl)" "y \<noteq> Null" "region y 1 \<subseteq> used h' m'" "arena_ok h' m'" "heap_le h h'" "used h m \<subseteq> used h' m'"
      "set (blocks m') \<subseteq> set (blocks m) \<union> {next_block h..<next_block h'}" "blocks_memory m' \<le> blocks_memory m + kBlockSize"
    using NewNode_fresh [OF mem(1) _ _ room k(1,2), of ?sl1 key] by metis
  let ?prev = "insert_prev sl k (filled sl (head sl # ?lo) (max_height sl - 1) (replicate kMaxHeight None))"
  have prev: "\<forall>i < k. ?prev ! i = Some (last_above (height_of sl) i (head sl # ?lo))"
    using insert_prev_last_above [OF rep' k(2)] by blast
  have lo: "\<forall>x \<in> set ?lo. ukey (key_of sl x) < ukey key" by (auto simp: below_def dest: set_takeWhileD)
  obtain sl' where link: "foldM (link_level y ?prev) [0..<k] (with_node sl k seed y key) = Some sl'"
    "sl_rep ok ukey sl' (?lo @ y # ?hi)" "keys_of sl' (?lo @ y # ?hi) = keys_of sl ?lo @ key # keys_of sl ?hi"
    "dom (nodes sl') = insert y (dom (nodes sl))"
    using link_new_node [OF rep' y(2,3) k(1,2,3) key lo hi prev] by blast
  have "key_equals cmp sl (first_above (height_of sl) 0 ?hi) key = Some False"
  proof (cases ?hi)
    case (Cons z zs)
    with passes_below_from [OF rep, of key] hi key show ?thesis
      unfolding first_from [OF rep] using Equal_law by (auto simp: passes_def key_equals_def key_of_def)
  qed (simp add: first_from [OF rep] key_equals_def)
  then have "Insert cmp h m sl key = Some (h', m', sl')"
    using FindGreaterOrEqual_correct [OF rep key] rh y(1) link(1)
    by (simp add: Insert_def insert_prev_def Let_def)
  then show ?thesis
    using link y(5-9) nodes_in_mono [OF mem(2) y(7,4) link(4)] put_key_not_found [OF rep hi]
    unfolding insert_post_def by metis
qed

lemma Insert_correct:
  assumes rep: "sl_rep ok ukey sl ns" and mem: "arena_ok h m" "nodes_in h m sl" and key: "ok key"
    and room: "blocks_memory m + kBlockSize < 2 ^ 31"
  shows "\<exists>h' m' sl' ns'. Insert cmp h m sl key = Some (h', m', sl') \<and>
    insert_post ok ukey h m (keys_of sl ns) key h' m' sl' ns'"
proof (cases "\<exists>x hi. onward ukey sl key ns = x # hi \<and> ukey (key_of sl x) = ukey key")
  case True
  then show ?thesis using Insert_replaces [OF rep mem key] by blast
next
  case False
  have "ukey key < ukey (key_of sl x)" if x: "x \<in> set (onward ukey sl key ns)" for x
  proof (cases "onward ukey sl key ns")
    case (Cons z zs)
    then have "ukey key < ukey (key_of sl z)"
      using False passes_below_from [OF rep, of key] by (auto simp: passes_def)
    moreover have "sorted_wrt (<) (map (\<lambda>x. ukey (key_of sl x)) (z # zs))"
      using rep Cons below_from [of ukey sl key ns] unfolding sl_rep_def
      by (metis map_append sorted_wrt_append)
    ultimately show ?thesis using x Cons by auto
  qed (use x in simp)
  then show ?thesis using Insert_adds [OF rep mem key room] by blast
qed

end

end
