(* ===== verification/Skip_List_API.thy ===== *)
theory Skip_List_API
  imports Skip_List_Insert
begin

text \<open>
  The contracts of the remaining public operations of the skip list: the constructor gives the empty
  list, \<^verbatim>\<open>Contains\<close> and \<^verbatim>\<open>Iterator::Seek\<close> find the key that compares equal, and the other iterator moves walk
  the nodes in key order, in both directions.
\<close>

definition first_ptr :: "ptr list \<Rightarrow> ptr" where
  "first_ptr xs = (case xs of [] \<Rightarrow> Null | x # _ \<Rightarrow> x)"

definition last_ptr :: "ptr list \<Rightarrow> ptr" where
  "last_ptr xs = (if xs = [] then Null else last xs)"

definition node_for :: "('k \<Rightarrow> 'o::linorder) \<Rightarrow> 'k skip_list \<Rightarrow> 'k \<Rightarrow> ptr list \<Rightarrow> ptr" where
  "node_for ukey sl key ns = (case find (\<lambda>x. ukey (key_of sl x) = ukey key) ns of None \<Rightarrow> Null | Some x \<Rightarrow> x)"

lemma sl_rep_cong:
  assumes "sl_rep ok ukey sl ns" "\<And>x. x \<in> set ns \<Longrightarrow> ok' (key_of sl x) \<and> ukey' (key_of sl x) = ukey (key_of sl x)"
  shows "sl_rep ok' ukey' sl ns"
proof -
  have "map (\<lambda>x. ukey' (key_of sl x)) ns = map (\<lambda>x. ukey (key_of sl x)) ns" using assms(2) by simp
  with assms show ?thesis unfolding sl_rep_def by (metis (no_types, lifting))
qed

lemma keys_of_member: "sl_rep ok ukey sl ns \<Longrightarrow> k \<in> set (keys_of sl ns) \<Longrightarrow> ok k"
  by (auto simp: keys_of_def sl_rep_def)

lemma sorted_keys_of: "sl_rep ok ukey sl ns \<Longrightarrow> sorted_wrt (<) (map ukey (keys_of sl ns))"
  by (simp add: keys_of_def sl_rep_def o_def)


section \<open>The constructor\<close>

lemma null_levels:
  assumes "k \<le> height_of sl p"
  shows "\<exists>sl'. foldM (\<lambda>i s. SetNext s p i Null) [0..<k] sl = Some sl' \<and> same_shape sl sl' \<and> (\<forall>i < k. Next sl' p i = Some Null)"
  using assms
proof (induction k)
  case (Suc k)
  then obtain s1 where s1: "foldM (\<lambda>i s. SetNext s p i Null) [0..<k] sl = Some s1" "same_shape sl s1" "\<forall>i < k. Next s1 p i = Some Null"
    by (metis Suc_leD)
  then have "k < height_of s1 p" using Suc.prems by (simp add: same_shape_def)
  then obtain s2 where s2: "SetNext s1 p k Null = Some s2" "same_shape s1 s2"
    "\<forall>z i. Next s2 z i = (if z = p \<and> i = k then Some Null else Next s1 z i)"
    using SetNext_correct by blast
  have "foldM (\<lambda>i s. SetNext s p i Null) [0..<Suc k] sl = Some s2" using s1(1) s2(1) by (simp add: foldM_append)
  with s1 s2 show ?case using same_shape_trans by (metis less_Suc_eq)
qed simp

lemma SkipList_new_correct:
  assumes "arena_ok h m" "blocks_memory m + kBlockSize < 2 ^ 31"
  shows "\<exists>h' m' sl. SkipList_new h m key = Some (h', m', sl) \<and> sl_rep ok ukey sl [] \<and> nodes_in h' m' sl \<and>
    arena_ok h' m' \<and> heap_le h h' \<and> used h m \<subseteq> used h' m' \<and>
    set (blocks m') \<subseteq> set (blocks m) \<union> {next_block h..<next_block h'} \<and>
    blocks_memory m' \<le> blocks_memory m + kBlockSize"
proof -
  let ?sl0 = "\<lparr>head = Null, nodes = Map.empty, rand = Random 0xdeadbeef, max_height = 1\<rparr>"
  obtain p h' m' where new: "NewNode h m ?sl0 key kMaxHeight = Some (p, h', m',
      ?sl0\<lparr>nodes := (nodes ?sl0)(p \<mapsto> \<lparr>node_key = key, node_next = replicate kMaxHeight None\<rparr>)\<rparr>)"
    and p: "p \<noteq> Null" "region p 1 \<subseteq> used h' m'" "arena_ok h' m'" "heap_le h h'" "used h m \<subseteq> used h' m'"
      "set (blocks m') \<subseteq> set (blocks m) \<union> {next_block h..<next_block h'}" "blocks_memory m' \<le> blocks_memory m + kBlockSize"
    using NewNode_fresh [OF assms(1) _ _ assms(2), of ?sl0 kMaxHeight key] by (auto simp: nodes_in_def kMaxHeight_def)
  define sl where "sl = ?sl0\<lparr>nodes := [p \<mapsto> \<lparr>node_key = key, node_next = replicate kMaxHeight None\<rparr>], head := p\<rparr>"
  have "kMaxHeight \<le> height_of sl p" by (simp add: sl_def height_of_def)
  from null_levels [OF this] obtain sl' where sl': "foldM (\<lambda>i s. SetNext s p i Null) [0..<kMaxHeight] sl = Some sl'"
    "same_shape sl sl'" "\<forall>i < kMaxHeight. Next sl' p i = Some Null" by blast
  from sl'(2) have S: "head sl' = p" "dom (nodes sl') = {p}" "height_of sl' p = kMaxHeight"
      "rand sl' = Random 0xdeadbeef" "max_height sl' = 1"
    by (simp_all add: same_shape_def sl_def height_of_def)
  have "links_ok sl' [p]" using sl'(3) S(3) by (auto simp: links_ok_def Cons_eq_append_conv)
  then have "sl_rep ok ukey sl' []"
    using S p(1) seed_ok_Random by (simp add: sl_rep_def kMaxHeight_def)
  moreover have "SkipList_new h m key = Some (h', m', sl')"
    using new sl'(1) by (simp add: SkipList_new_def sl_def)
  ultimately show ?thesis using p S(2) by (auto simp: nodes_in_def)
qed


section \<open>Iterators\<close>

lemma first_above_0:
  assumes "sl_rep ok ukey sl ns" "set xs \<subseteq> set ns"
  shows "first_above (height_of sl) 0 xs = first_ptr xs"
  using assms(2) sl_rep_heights(2) [OF assms(1)] by (cases xs) (auto simp: first_above_Cons first_ptr_def)

lemma Iter_SeekToFirst_correct:
  assumes rep: "sl_rep ok ukey sl ns"
  shows "Iter_SeekToFirst sl = Some (first_ptr ns)"
proof -
  have "links_ok sl ([] @ head sl # ns)" "0 < height_of sl (head sl)"
    using rep by (simp_all add: sl_rep_def kMaxHeight_def)
  from links_okD [OF this] show ?thesis by (simp add: Iter_SeekToFirst_def first_above_0 [OF rep])
qed

lemma Iter_Next_correct:
  assumes rep: "sl_rep ok ukey sl (pre @ x # post)"
  shows "Iter_Next sl x = Some (first_ptr post)"
proof -
  have "links_ok sl ((head sl # pre) @ x # post)" "0 < height_of sl x" "x \<noteq> Null"
    using rep sl_rep_heights(2) [OF rep, of x] by (auto simp: sl_rep_def)
  moreover have "first_above (height_of sl) 0 post = first_ptr post" using rep by (rule first_above_0) auto
  ultimately show ?thesis using links_okD [of sl "head sl # pre" x post 0] by (simp add: Iter_Next_def Iter_Valid_def)
qed

lemma Iter_SeekToLast_correct:
  assumes rep: "sl_rep ok ukey sl ns"
  shows "Iter_SeekToLast sl = Some (last_ptr ns)"
proof -
  have "last ns \<noteq> head sl" if "ns \<noteq> []" using rep last_in_set [OF that] by (auto simp: sl_rep_def)
  then show ?thesis by (auto simp: Iter_SeekToLast_def FindLast_correct [OF rep] last_ptr_def)
qed

lemma below_split:
  assumes "sl_rep ok ukey sl (pre @ x # post)"
  shows "below ukey sl (key_of sl x) (pre @ x # post) = pre"
proof -
  have "\<forall>z \<in> set pre. ukey (key_of sl z) < ukey (key_of sl x)"
    using assms by (auto simp: sl_rep_def sorted_wrt_append)
  then show ?thesis by (simp add: below_def takeWhile_append)
qed

context ordered_keys
begin

lemma Iter_Prev_correct:
  assumes rep: "sl_rep ok ukey sl (pre @ x # post)"
  shows "Iter_Prev cmp sl x = Some (last_ptr pre)"
proof -
  have x: "ok (key_of sl x)" "x \<noteq> Null" using rep by (auto simp: sl_rep_def)
  have "x \<in> dom (nodes sl)" using sl_rep_heights(2) [OF rep, of x] height_pos_dom by simp
  then obtain nd where nd: "nodes sl x = Some nd" "node_key nd = key_of sl x" by (auto simp: key_of_def)
  have "last pre \<noteq> head sl" if "pre \<noteq> []" using rep last_in_set [OF that] by (auto simp: sl_rep_def)
  then show ?thesis
    using FindLessThan_correct [OF rep x(1)] x(2) nd by (auto simp: Iter_Prev_def Iter_Valid_def below_split [OF rep] last_ptr_def)
qed

lemma node_for_onward:
  assumes rep: "sl_rep ok ukey sl ns"
  shows "node_for ukey sl key ns =
    (case onward ukey sl key ns of [] \<Rightarrow> Null | x # _ \<Rightarrow> if ukey (key_of sl x) = ukey key then x else Null)"
proof -
  let ?P = "\<lambda>x. ukey (key_of sl x) = ukey key"
  have none: "find ?P (below ukey sl key ns) = None"
    by (auto simp: find_None_iff below_def dest!: set_takeWhileD)
  have "find ?P ns = find ?P (below ukey sl key ns @ onward ukey sl key ns)" by (simp add: below_from)
  also have "\<dots> = find ?P (onward ukey sl key ns)"
    using none by (simp add: find_append)
  finally have eq: "find ?P ns = find ?P (onward ukey sl key ns)" .
  show ?thesis
  proof (cases "onward ukey sl key ns")
    case (Cons x xs)
    have "sorted_wrt (<) (map (\<lambda>x. ukey (key_of sl x)) (x # xs))"
      using rep Cons below_from [of ukey sl key ns] unfolding sl_rep_def by (metis map_append sorted_wrt_append)
    moreover have "\<not> ukey (key_of sl x) < ukey key" using passes_below_from [OF rep, of key] Cons by (simp add: passes_def)
    ultimately have "find ?P xs = None" if "\<not> ?P x" using that by (fastforce simp: find_None_iff)
    with Cons eq show ?thesis by (simp add: node_for_def)
  qed (simp add: node_for_def eq)
qed

lemma Iter_Seek_correct:
  assumes rep: "sl_rep ok ukey sl ns" and key: "ok key"
  shows "Iter_Seek cmp sl key = Some (node_for ukey sl key ns)"
proof (cases "onward ukey sl key ns")
  case Nil
  then show ?thesis
    using FindGreaterOrEqual_correct [OF rep key] first_from [OF rep, of key]
    by (simp add: Iter_Seek_def node_for_onward [OF rep])
next
  case (Cons x xs)
  have x: "x \<noteq> Null" "x \<in> dom (nodes sl)" "ok (key_of sl x)"
    using passes_below_from [OF rep, of key] Cons by (simp_all add: passes_def)
  then obtain nd where "nodes sl x = Some nd" "node_key nd = key_of sl x" by (auto simp: key_of_def)
  with Cons x show ?thesis
    using FindGreaterOrEqual_correct [OF rep key] first_from [OF rep, of key] Equal_law [OF x(3) key]
    by (simp add: Iter_Seek_def node_for_onward [OF rep])
qed

lemma Seek_key:
  assumes rep: "sl_rep ok ukey sl ns"
  shows "(node_for ukey sl key ns = Null \<longleftrightarrow> find_key ukey key (keys_of sl ns) = None) \<and>
    Iter_key sl (node_for ukey sl key ns) = find_key ukey key (keys_of sl ns)"
proof -
  have find: "find_key ukey key (keys_of sl ns) = map_option (key_of sl) (find (\<lambda>x. ukey (key_of sl x) = ukey key) ns)"
    by (induction ns) (auto simp: find_key_def keys_of_def)
  show ?thesis
  proof (cases "find (\<lambda>x. ukey (key_of sl x) = ukey key) ns")
    case (Some x)
    then have "x \<in> set ns" by (auto simp: find_Some_iff)
    then have "x \<noteq> Null" "x \<in> dom (nodes sl)" using rep unfolding sl_rep_def by (metis list.set_intros(2))+
    with Some show ?thesis by (auto simp: node_for_def find Iter_key_def Iter_Valid_def key_of_def)
  qed (simp add: node_for_def find Iter_key_def Iter_Valid_def)
qed

lemma Contains_correct:
  assumes rep: "sl_rep ok ukey sl ns" and key: "ok key"
  shows "Contains cmp sl key = Some (find_key ukey key (keys_of sl ns) \<noteq> None)"
proof -
  have "Contains cmp sl key = Some (node_for ukey sl key ns \<noteq> Null)"
  proof (cases "onward ukey sl key ns")
    case (Cons x xs)
    have x: "x \<noteq> Null" "x \<in> dom (nodes sl)" "ok (key_of sl x)"
      using passes_below_from [OF rep, of key] Cons by (simp_all add: passes_def)
    then obtain nd where "nodes sl x = Some nd" "node_key nd = key_of sl x" by (auto simp: key_of_def)
    with Cons x show ?thesis
      using FindGreaterOrEqual_correct [OF rep key] first_from [OF rep, of key] Equal_law [OF key x(3)]
      by (auto simp: Contains_def node_for_onward [OF rep])
  qed (use FindGreaterOrEqual_correct [OF rep key] first_from [OF rep, of key] in
      \<open>simp add: Contains_def node_for_onward [OF rep]\<close>)
  then show ?thesis using Seek_key [OF rep, of key] by simp
qed

end

end
