(* ===== verification/Storage_Buffer.thy ===== *)
theory Storage_Buffer
  imports File_Format Skip_List_API
begin

text \<open>
  \<^verbatim>\<open>db/storage_buffer.cpp\<close>: the two in-memory buffers.

  Entries are written into the arena of the income buffer and indexed by its skip list, whose keys are
  pointers to the entries and whose comparator reads them through the heap.  When the income buffer is
  full and the flush thread is idle it becomes the flush buffer, and a new income buffer takes its place.
  \<open>None\<close> is undefined behaviour or a failed \<^verbatim>\<open>assert\<close>.  The mutex makes every operation atomic; \<^verbatim>\<open>Notify\<close> is
  a counter of its calls.  The string literal the head node of a skip list points to is an address
  of the state, which no operation dereferences.
\<close>

section \<open>State and operations\<close>

record StorageBuffer =
  buffer_size :: u32
  income_size :: u32
  income_buffer :: "ptr skip_list option"
  flush_buffer :: "ptr skip_list option"
  income_memory :: "Memory option"
  flush_memory :: "Memory option"
  flush_thread_ready :: bool
  flush_buffer_ready :: bool
  literal_00000 :: ptr
  flush_notified :: nat

definition entry_cmp :: "heap \<Rightarrow> ptr compare" where
  "entry_cmp h a b = Comparator (view_at h a) (view_at h b)"

definition StorageBuffer_new :: "heap \<Rightarrow> u32 \<Rightarrow> ptr \<Rightarrow> (heap \<times> StorageBuffer) option" where
  "StorageBuffer_new h n lit =
    do { (h', m, sl) \<leftarrow> SkipList_new h Memory_new lit;
         Some (h', \<lparr>buffer_size = n, income_size = 0, income_buffer = Some sl, flush_buffer = None,
                    income_memory = Some m, flush_memory = None, flush_thread_ready = False,
                    flush_buffer_ready = False, literal_00000 = lit, flush_notified = 0\<rparr>) }"

definition SwapBuffer :: "heap \<Rightarrow> StorageBuffer \<Rightarrow> (heap \<times> StorageBuffer) option" where
  "SwapBuffer h sb =
    do { (h', m, sl) \<leftarrow> SkipList_new h Memory_new (literal_00000 sb);
         Some (h', sb\<lparr>income_size := 0, flush_memory := income_memory sb, income_memory := Some m,
                      flush_buffer := income_buffer sb, income_buffer := Some sl, flush_buffer_ready := True\<rparr>) }"

definition SetFlushThreadIdle :: "StorageBuffer \<Rightarrow> StorageBuffer" where
  "SetFlushThreadIdle sb = sb\<lparr>flush_thread_ready := True\<rparr>"

definition SetFlushThreadBusy :: "StorageBuffer \<Rightarrow> StorageBuffer" where
  "SetFlushThreadBusy sb = sb\<lparr>flush_thread_ready := False\<rparr>"

definition FlushBufferReady :: "StorageBuffer \<Rightarrow> bool" where
  "FlushBufferReady sb = flush_buffer_ready sb"

definition BufferSize :: "StorageBuffer \<Rightarrow> u32" where
  "BufferSize sb = buffer_size sb"

text \<open>The length of an entry as \<^verbatim>\<open>Add\<close> computes it, in 32 bits.\<close>

definition encoded_len :: "u32 \<Rightarrow> u32 \<Rightarrow> u32" where
  "encoded_len key_size value_size =
    of_int (VarintLength (ucast key_size)) + key_size + of_int (VarintLength (ucast value_size)) + value_size"

definition Add :: "heap \<Rightarrow> StorageBuffer \<Rightarrow> OrderType \<Rightarrow> ByteArray \<Rightarrow> ByteArray \<Rightarrow> (heap \<times> StorageBuffer) option" where
  "Add h sb order_type key value =
    do { let n = encoded_len (ba_size key) (ba_size value);
         m \<leftarrow> income_memory sb;
         (buf, h1, m1) \<leftarrow> Allocate h m (sint n);
         k \<leftarrow> string_of key;
         v \<leftarrow> string_of value;
         let written = EncodeVarint32 (ba_size key) @ k @ EncodeVarint32 (ba_size value) @ v;
         h2 \<leftarrow> write_bytes h1 buf written;
         if length written \<noteq> unat n then None
         else
           do { sl \<leftarrow> income_buffer sb;
                (h3, m2, sl') \<leftarrow> Insert (entry_cmp h2) h2 m1 sl buf;
                let sb1 = sb\<lparr>income_memory := Some m2, income_buffer := Some sl', income_size := income_size sb + n\<rparr>;
                if income_size sb1 > buffer_size sb1 \<and> flush_thread_ready sb1
                then do { (h4, sb2) \<leftarrow> SwapBuffer h3 (SetFlushThreadBusy sb1);
                          Some (h4, sb2\<lparr>flush_notified := flush_notified sb2 + 1\<rparr>) }
                else Some (h3, sb1) } }"

text \<open>One of the two lookups of \<^verbatim>\<open>Get\<close>: \<open>Some None\<close> when the buffer does not hold the key.\<close>

definition seek_value :: "heap \<Rightarrow> ptr skip_list option \<Rightarrow> ptr \<Rightarrow> bytes option option" where
  "seek_value h buffer temp =
    (case buffer of None \<Rightarrow> Some None
     | Some sl \<Rightarrow>
        do { it \<leftarrow> Iter_Seek (entry_cmp h) sl temp;
             if Iter_Valid it then
               do { key \<leftarrow> Iter_key sl it;
                    value \<leftarrow> ExtractUserValue (view_at h key);
                    s \<leftarrow> string_of value;
                    Some (Some s) }
             else Some None })"

text \<open>The search key is encoded into a temporary buffer, whose size is computed as an \<^verbatim>\<open>int\<close>.\<close>

definition Buffer_Get :: "heap \<Rightarrow> StorageBuffer \<Rightarrow> bytes \<Rightarrow> (bytes option \<times> heap) option" where
  "Buffer_Get h sb key =
    do { let n = VarintLength (of_nat (length key)) + int (length key);
         if \<not> int_ok n then None
         else
           do { let (temp, h1) = new_char h (nat n);
                h2 \<leftarrow> write_bytes h1 temp (EncodeVarint32 (of_nat (length key)) @ key);
                income \<leftarrow> seek_value h2 (income_buffer sb) temp;
                result \<leftarrow> (case income of Some v \<Rightarrow> Some (Some v) | None \<Rightarrow> seek_value h2 (flush_buffer sb) temp);
                Some (result, delete_block (next_block h) h2) } }"

partial_function (option) FlushBuffer_loop ::
  "heap \<Rightarrow> ptr skip_list \<Rightarrow> ptr \<Rightarrow> ByteArray list \<Rightarrow> u32 \<Rightarrow> (ByteArray list \<times> u32) option" where
  "FlushBuffer_loop h sl it content flush_size =
    (if Iter_Valid it then
       do { key \<leftarrow> Iter_key sl it;
            entry_size \<leftarrow> EntrySize (view_at h key);
            it' \<leftarrow> Iter_Next sl it;
            FlushBuffer_loop h sl it' (content @ [mk_ByteArray (view_at h key) entry_size]) (flush_size + entry_size) }
     else Some (content, flush_size))"

definition FlushBuffer :: "host \<Rightarrow> iteration \<Rightarrow> heap \<Rightarrow> StorageBuffer \<Rightarrow> key_table \<Rightarrow> (bytes \<times> key_table) option" where
  "FlushBuffer host iter h sb key_offset =
    do { sl \<leftarrow> flush_buffer sb;
         it \<leftarrow> Iter_SeekToFirst sl;
         (content, flush_size) \<leftarrow> FlushBuffer_loop h sl it [] 0;
         Flush host iter content key_offset flush_size }"

definition ClearFlushBuffer :: "heap \<Rightarrow> StorageBuffer \<Rightarrow> heap \<times> StorageBuffer" where
  "ClearFlushBuffer h sb =
    (case flush_memory sb of None \<Rightarrow> h | Some m \<Rightarrow> Memory_delete h m,
     sb\<lparr>flush_buffer_ready := False, flush_memory := None, flush_buffer := None\<rparr>)"

end
