(* ===== verification/Buffer_Correct.thy ===== *)
theory Buffer_Correct
  imports Storage_Buffer
begin

text \<open>
  Correctness of the storage buffer of \<open>Storage_Buffer\<close>.  The comparator on heap entries is interpreted as
  the comparator interface of the skip list, so that every lemma of \<open>ordered_keys\<close> applies to the two
  buffers.  \<open>sb_rep\<close> relates the state to two lists of key-value pairs in key order, and each operation
  is shown to act on these lists as its specification says.
\<close>

section \<open>The comparator on the heap\<close>

definition entry_at :: "heap \<Rightarrow> ptr \<Rightarrow> bool" where
  "entry_at h p \<longleftrightarrow> (\<exists>k. reads (view_at h p) (wrap_key k) \<and> length k < 2 ^ 32)"

definition key_at :: "heap \<Rightarrow> ptr \<Rightarrow> bytes" where
  "key_at h p = the (Option.bind (ExtractUserKey (view_at h p)) string_of)"

lemma wrap_at:
  assumes "reads (view_at h p) (wrap_key k)" "length k < 2 ^ 32"
  shows "entry_at h p \<and> key_at h p = k"
  using ExtractUserKey_wrap [OF assms] assms by (auto simp: entry_at_def key_at_def)

interpretation entry_order: ordered_keys "entry_cmp h" "entry_at h" "key_at h" for h
proof unfold_locales
  fix a b assume "entry_at h a" "entry_at h b"
  then obtain ka kb where k: "reads (view_at h a) (wrap_key ka)" "length ka < 2 ^ 32"
    "reads (view_at h b) (wrap_key kb)" "length kb < 2 ^ 32"
    by (auto simp: entry_at_def)
  then show "entry_cmp h a b = Some (if key_at h a < key_at h b then -1 else if key_at h a = key_at h b then 0 else 1)"
    using wrap_at [OF k(1,2)] wrap_at [OF k(3,4)] Comparator_wrap [OF k] by (simp add: entry_cmp_def)
qed


section \<open>One buffer\<close>

definition entry_in :: "heap \<Rightarrow> Memory \<Rightarrow> ptr \<Rightarrow> kv \<Rightarrow> bool" where
  "entry_in h m p e \<longleftrightarrow> reads (view_at h p) (entry_of e) \<and> region p (length (entry_of e)) \<subseteq> used h m \<and>
    entry_ok (fst e) (snd e)"

definition part_rep :: "heap \<Rightarrow> Memory \<Rightarrow> ptr skip_list \<Rightarrow> kv list \<Rightarrow> bool" where
  "part_rep h m sl es \<longleftrightarrow> arena_ok h m \<and> nodes_in h m sl \<and>
    (\<exists>ns. sl_rep (entry_at h) (key_at h) sl ns \<and> list_all2 (entry_in h m) (keys_of sl ns) es)"

lemma entry_inD:
  assumes "entry_in h m p e"
  shows "entry_at h p" "key_at h p = fst e"
proof -
  have "reads (view_at h p) (entry_bytes (fst e) (snd e))" "entry_ok (fst e) (snd e)"
    using assms by (simp_all add: entry_in_def entry_of_def)
  from wrap_at [OF reads_entryD(1) [OF this(1)] entry_okD(1) [OF this(2)]]
  show "entry_at h p" "key_at h p = fst e" by simp_all
qed

lemma entry_in_keys: "list_all2 (entry_in h m) ps es \<Longrightarrow> map (key_at h) ps = map fst es"
  by (induction ps es rule: list_all2_induct) (auto dest: entry_inD)

lemma part_rep_sorted:
  assumes "part_rep h m sl es"
  shows "sorted_wrt (<) (map fst es)"
  using assms sorted_keys_of entry_in_keys by (metis part_rep_def)

text \<open>What does not touch the blocks of an arena keeps the buffer in it.\<close>

definition agree :: "nat set \<Rightarrow> heap \<Rightarrow> heap \<Rightarrow> bool" where
  "agree B h h' \<longleftrightarrow> next_block h \<le> next_block h' \<and> (\<forall>b \<in> B. block_size h' b = block_size h b \<and> cell h' b = cell h b)"

lemma heap_le_agree: "arena_ok h m \<Longrightarrow> heap_le h h' \<Longrightarrow> agree (set (blocks m)) h h'"
  by (simp add: agree_def heap_le_def arena_ok_def)

lemma agree_arena:
  assumes "agree (set (blocks m)) h h'" "arena_ok h m"
  shows "arena_ok h' m" "used h' m = used h m"
proof -
  from assms show "arena_ok h' m" by (fastforce simp: agree_def arena_ok_def split: ptr.splits)
  from assms show "used h' m = used h m" by (auto simp: agree_def used_def)
qed

lemma entry_bytes_nonempty: "0 < length (entry_of e)"
  by (simp add: entry_of_def entry_bytes_def wrap_key_def EncodeVarint32_eq)

lemma agree_entry_in:
  assumes "agree (set (blocks m)) h h'" "arena_ok h m" "entry_in h m p e"
  shows "entry_in h' m p e" "view_at h' p = view_at h p"
proof -
  obtain b i where p: "p = Ptr b i"
    using assms(3) entry_bytes_nonempty [of e] by (cases p) (auto simp: entry_in_def view_at_def reads_def)
  then have "(b, i) \<in> used h m" using assms(3) entry_bytes_nonempty [of e] by (auto simp: entry_in_def)
  then have "b \<in> set (blocks m)" by (simp add: used_def)
  with assms(1) show v: "view_at h' p = view_at h p" by (simp add: agree_def p view_at_def cong: if_cong)
  show "entry_in h' m p e" using assms(3) v agree_arena(2) [OF assms(1,2)] by (simp add: entry_in_def)
qed

lemma list_all2_keys:
  assumes "list_all2 (entry_in h m) (keys_of sl ns) es" "x \<in> set ns"
  shows "\<exists>e. entry_in h m (key_of sl x) e"
proof -
  obtain i where "i < length ns" "ns ! i = x" using assms(2) by (auto simp: in_set_conv_nth)
  then have "entry_in h m (key_of sl x) (es ! i)" using list_all2_nthD [OF assms(1), of i] by (simp add: keys_of_def)
  then show ?thesis by blast
qed

text \<open>The representation survives any change of heap and arena that keeps every entry.\<close>

lemma part_rep_transfer:
  assumes "part_rep h m sl es" "arena_ok h' m'" "used h m \<subseteq> used h' m'"
    and keep: "\<And>p e. entry_in h m p e \<Longrightarrow> reads (view_at h' p) (entry_of e)"
  shows "part_rep h' m' sl es"
proof -
  obtain ns where ns: "sl_rep (entry_at h) (key_at h) sl ns" "list_all2 (entry_in h m) (keys_of sl ns) es"
    using assms(1) by (auto simp: part_rep_def)
  have in': "entry_in h' m' p e" if "entry_in h m p e" for p e
    using that keep [OF that] assms(3) by (auto simp: entry_in_def)
  have "sl_rep (entry_at h') (key_at h') sl ns"
  proof (rule sl_rep_cong [OF ns(1)])
    fix x assume "x \<in> set ns"
    then obtain e where "entry_in h m (key_of sl x) e" using list_all2_keys [OF ns(2)] by blast
    then show "entry_at h' (key_of sl x) \<and> key_at h' (key_of sl x) = key_at h (key_of sl x)"
      using entry_inD in' by metis
  qed
  moreover have "list_all2 (entry_in h' m') (keys_of sl ns) es" using ns(2) in' by (rule list_all2_mono)
  moreover have "nodes_in h' m' sl" using assms(1,3) by (auto simp: part_rep_def nodes_in_def)
  ultimately show ?thesis using assms(2) by (auto simp: part_rep_def)
qed

lemma part_rep_frame:
  assumes "part_rep h m sl es" "agree (set (blocks m)) h h'"
  shows "part_rep h' m sl es"
proof -
  have ok: "arena_ok h m" using assms(1) by (simp add: part_rep_def)
  show ?thesis
  proof (rule part_rep_transfer [OF assms(1) agree_arena(1) [OF assms(2) ok]])
    show "reads (view_at h' p) (entry_of e)" if "entry_in h m p e" for p e
      using agree_entry_in(2) [OF assms(2) ok that] that by (simp add: entry_in_def)
  qed (simp add: agree_arena(2) [OF assms(2) ok])
qed

lemma list_all2_put_key:
  assumes "list_all2 R ps es" "\<And>p e. R p e \<Longrightarrow> f p = g e" "R q x" 
  shows "list_all2 R (put_key f q ps) (put_key g x es)"
proof -
  have "list_all2 R (takeWhile (\<lambda>p. f p < f q) ps) (takeWhile (\<lambda>e. g e < g x) es)"
    "list_all2 R (dropWhile (\<lambda>p. f p \<le> f q) ps) (dropWhile (\<lambda>e. g e \<le> g x) es)"
    using assms(1) by (induction ps es rule: list_all2_induct) (auto simp: assms(2) assms(2) [OF assms(3)])
  then show ?thesis using assms(3) by (simp add: put_key_def list_all2_appendI)
qed

lemma Insert_part:
  assumes rep: "part_rep h m sl es" and e: "entry_in h m p e" and room: "blocks_memory m + kBlockSize < 2 ^ 31"
  shows "\<exists>h' m' sl'. Insert (entry_cmp h) h m sl p = Some (h', m', sl') \<and> part_rep h' m' sl' (put_key fst e es) \<and>
    heap_le h h' \<and> set (blocks m') \<subseteq> set (blocks m) \<union> {next_block h..<next_block h'} \<and>
    blocks_memory m' \<le> blocks_memory m + kBlockSize"
proof -
  obtain ns where ns: "sl_rep (entry_at h) (key_at h) sl ns" "list_all2 (entry_in h m) (keys_of sl ns) es"
    and mem: "arena_ok h m" "nodes_in h m sl"
    using rep by (auto simp: part_rep_def)
  obtain h' m' sl' ns' where ins: "Insert (entry_cmp h) h m sl p = Some (h', m', sl')"
    and post: "insert_post (entry_at h) (key_at h) h m (keys_of sl ns) p h' m' sl' ns'"
    using entry_order.Insert_correct [OF ns(1) mem entry_inD(1) [OF e] room] by blast
  have l: "list_all2 (entry_in h m) (put_key (key_at h) p (keys_of sl ns)) (put_key fst e es)"
    using ns(2) entry_inD(2) e by (rule list_all2_put_key)
  note ag = heap_le_agree [OF mem(1)]
  have le: "heap_le h h'" "arena_ok h' m'" "used h m \<subseteq> used h' m'" using post by (simp_all add: insert_post_def)
  have in': "entry_in h' m' q x" "view_at h' q = view_at h q" if "entry_in h m q x" for q x
    using agree_entry_in [OF ag [OF le(1)] mem(1) that] le agree_arena [OF ag [OF le(1)] mem(1)]
    by (auto simp: entry_in_def)
  have "sl_rep (entry_at h') (key_at h') sl' ns'"
  proof (rule sl_rep_cong)
    show "sl_rep (entry_at h) (key_at h) sl' ns'" using post by (simp add: insert_post_def)
    fix x assume "x \<in> set ns'"
    then obtain e' where "entry_in h m (key_of sl' x) e'"
      using l post list_all2_keys [of h m sl' ns' "put_key fst e es" x] by (auto simp: insert_post_def)
    then show "entry_at h' (key_of sl' x) \<and> key_at h' (key_of sl' x) = key_at h (key_of sl' x)"
      using entry_inD in'(1) by metis
  qed
  moreover have "list_all2 (entry_in h' m') (keys_of sl' ns') (put_key fst e es)"
    using post l in'(1) by (simp add: insert_post_def list_all2_mono)
  ultimately have "part_rep h' m' sl' (put_key fst e es)"
    using post by (auto simp: part_rep_def insert_post_def)
  then show ?thesis using ins post by (auto simp: insert_post_def)
qed


section \<open>Storing an entry\<close>

lemma sint_of_nat: "n < 2 ^ 31 \<Longrightarrow> sint (of_nat n :: u32) = int n"
  by (simp add: signed_of_nat signed_take_bit_int_eq_self)

lemma encoded_len_entry:
  assumes "string_of key = Some k" "string_of value = Some v"
  shows "encoded_len (ba_size key) (ba_size value) = of_nat (length (entry_bytes k v))"
    "EncodeVarint32 (ba_size key) @ k @ EncodeVarint32 (ba_size value) @ v = entry_bytes k v"
proof -
  have sz: "ba_size key = of_nat (length k)" "ba_size value = of_nat (length v)"
    using assms by (auto simp: string_of_def read_bytes_Some)
  have "VarintLength (ucast w) = int (length (EncodeVarint32 w))" for w :: u32
    by (simp add: VarintLength_eq EncodeVarint32_eq unat_ucast_u64)
  then show "encoded_len (ba_size key) (ba_size value) = of_nat (length (entry_bytes k v))"
    by (simp add: encoded_len_def sz entry_bytes_def wrap_key_length)
  show "EncodeVarint32 (ba_size key) @ k @ EncodeVarint32 (ba_size value) @ v = entry_bytes k v"
    by (simp add: sz entry_bytes_def wrap_key_def)
qed

lemma write_agree:
  assumes "write_bytes h p bs = Some h'" "\<And>b i. p = Ptr b i \<Longrightarrow> b \<notin> B"
  shows "agree B h h'"
  using assms by (auto simp: write_bytes_def agree_def split: ptr.splits if_splits)

text \<open>Room for one more entry of \<open>n\<close> bytes and a node, in the \<^verbatim>\<open>int\<close> counter of the arena.\<close>

definition room_to_add :: "Memory \<Rightarrow> nat \<Rightarrow> bool" where
  "room_to_add m n \<longleftrightarrow> blocks_memory m + int n + 2 * kBlockSize < 2 ^ 31"

lemma room_to_addD:
  assumes "arena_ok h m" "room_to_add m n" "0 < n"
  shows "room_for m (int n)" "n < 2 ^ 31"
  using assms by (auto simp: room_to_add_def room_for_def int_ok_def arena_ok_def kBlockSize_def)

lemma store_entry:
  assumes rep: "part_rep h m sl es" and ok: "entry_ok (fst e) (snd e)" and room: "room_to_add m (length (entry_of e))"
  shows "\<exists>p h1 m1 h2. Allocate h m (int (length (entry_of e))) = Some (p, h1, m1) \<and>
    write_bytes h1 p (entry_of e) = Some h2 \<and> part_rep h2 m1 sl es \<and> entry_in h2 m1 p e \<and>
    blocks_memory m1 \<le> blocks_memory m + max (int (length (entry_of e))) kBlockSize \<and> set (blocks m1) \<subseteq> set (blocks m) \<union> {next_block h..<next_block h2} \<and>
    (\<forall>B. B \<subseteq> {..<next_block h} \<and> B \<inter> set (blocks m) = {} \<longrightarrow> agree B h h2)"
proof -
  let ?n = "length (entry_of e)"
  have n: "0 < ?n" "0 < int ?n" using entry_bytes_nonempty [of e] by auto
  have mem: "arena_ok h m" using rep by (simp add: part_rep_def)
  obtain p h1 m1 where a: "Allocate h m (int ?n) = Some (p, h1, m1)"
    using plain.alloc_returns [OF n(2) room_to_addD(1) [OF mem room n(1)]] by blast
  have post: "alloc_post h m ?n p h1 m1" using plain.alloc_meets [OF mem n(2) a] by simp
  from plain.alloc_write [OF mem n(1) a] obtain h2
    where w: "write_bytes h1 p (entry_of e) = Some h2" "arena_ok h2 m1" "used h2 m1 = used h1 m1"
      "next_block h2 = next_block h1" "reads (view_at h2 p) (entry_of e)"
    and keep: "\<forall>q cs. region q (length cs) \<subseteq> used h m \<longrightarrow> reads (view_at h q) cs \<longrightarrow> reads (view_at h2 q) cs"
    by (elim exE conjE)
  have "part_rep h2 m1 sl es"
  proof (rule part_rep_transfer [OF rep w(2)])
    show "used h m \<subseteq> used h2 m1" using w(3) post by (simp add: alloc_post_def)
    show "reads (view_at h2 q) (entry_of x)" if "entry_in h m q x" for q x
      using keep that by (simp add: entry_in_def)
  qed
  moreover have "entry_in h2 m1 p e" using w(3,5) post ok by (simp add: entry_in_def alloc_post_def)
  moreover have "blocks_memory m1 \<le> blocks_memory m + max (int ?n) kBlockSize"
    using post by (simp add: alloc_post_def)
  moreover have bl: "set (blocks m1) \<subseteq> set (blocks m) \<union> {next_block h..<next_block h2}"
    using post w(4) by (simp add: alloc_post_def)
  moreover have "agree B h h2" if B: "B \<subseteq> {..<next_block h}" "B \<inter> set (blocks m) = {}" for B
  proof -
    have "b \<notin> B" if "p = Ptr b i" for b i
    proof -
      have "(b, i) \<in> used h1 m1" using post n(1) that by (auto simp: alloc_post_def)
      then have "b \<in> set (blocks m1)" by (simp add: used_def)
      with bl B show ?thesis by fastforce
    qed
    then have "agree B h1 h2" by (rule write_agree [OF w(1)])
    then show ?thesis using post B(1) by (auto simp: alloc_post_def agree_def heap_le_def)
  qed
  ultimately show ?thesis using a w(1) by blast
qed

text \<open>\<^verbatim>\<open>Add\<close> up to the swap.\<close>

lemma store_and_insert:
  assumes rep: "part_rep h m sl es" and ok: "entry_ok (fst e) (snd e)" and room: "room_to_add m (length (entry_of e))"
  shows "\<exists>p h1 m1 h2 h3 m3 sl'. Allocate h m (int (length (entry_of e))) = Some (p, h1, m1) \<and>
    write_bytes h1 p (entry_of e) = Some h2 \<and> Insert (entry_cmp h2) h2 m1 sl p = Some (h3, m3, sl') \<and>
    part_rep h3 m3 sl' (put_key fst e es) \<and> set (blocks m3) \<subseteq> set (blocks m) \<union> {next_block h..} \<and>
    blocks_memory m3 \<le> blocks_memory m + int (length (entry_of e)) + 2 * kBlockSize \<and>
    (\<forall>B. B \<subseteq> {..<next_block h} \<and> B \<inter> set (blocks m) = {} \<longrightarrow> agree B h h3)"
proof -
  obtain p h1 m1 h2 where st: "Allocate h m (int (length (entry_of e))) = Some (p, h1, m1)"
    "write_bytes h1 p (entry_of e) = Some h2" "part_rep h2 m1 sl es" "entry_in h2 m1 p e"
    "blocks_memory m1 \<le> blocks_memory m + max (int (length (entry_of e))) kBlockSize"
    "set (blocks m1) \<subseteq> set (blocks m) \<union> {next_block h..<next_block h2}"
    "\<forall>B. B \<subseteq> {..<next_block h} \<and> B \<inter> set (blocks m) = {} \<longrightarrow> agree B h h2"
    using store_entry [OF assms] by blast
  have bound: "blocks_memory m1 \<le> blocks_memory m + int (length (entry_of e)) + kBlockSize"
    using st(5) by (simp add: kBlockSize_def max_def split: if_splits)
  then have "blocks_memory m1 + kBlockSize < 2 ^ 31" using room by (simp add: room_to_add_def)
  from Insert_part [OF st(3,4) this] obtain h3 m3 sl' where ins: "Insert (entry_cmp h2) h2 m1 sl p = Some (h3, m3, sl')" "part_rep h3 m3 sl' (put_key fst e es)"
    "heap_le h2 h3" "set (blocks m3) \<subseteq> set (blocks m1) \<union> {next_block h2..<next_block h3}"
    "blocks_memory m3 \<le> blocks_memory m1 + kBlockSize"
    by blast
  have nb: "next_block h \<le> next_block h2" using st(7) by (auto simp: agree_def)
  have "agree B h h3" if "B \<subseteq> {..<next_block h}" "B \<inter> set (blocks m) = {}" for B
  proof -
    have "agree B h h2" using st(7) that by blast
    with ins(3) that(1) nb show ?thesis by (auto simp: agree_def heap_le_def)
  qed
  moreover have "set (blocks m3) \<subseteq> set (blocks m) \<union> {next_block h..}" using ins(4) st(6) nb by fastforce
  moreover have "blocks_memory m3 \<le> blocks_memory m + int (length (entry_of e)) + 2 * kBlockSize" using ins(5) bound by simp
  ultimately show ?thesis using st(1,2) ins(1,2) by blast
qed


section \<open>The two buffers\<close>

text \<open>The income buffer holds \<open>inc\<close>; the flush buffer holds \<open>fl\<close>, or there is none.\<close>

definition sb_rep :: "heap \<Rightarrow> StorageBuffer \<Rightarrow> kv list \<Rightarrow> kv list option \<Rightarrow> bool" where
  "sb_rep h sb inc fl \<longleftrightarrow>
    (\<exists>m sl. income_memory sb = Some m \<and> income_buffer sb = Some sl \<and> part_rep h m sl inc \<and>
      (case fl of None \<Rightarrow> flush_memory sb = None \<and> flush_buffer sb = None
       | Some es \<Rightarrow> \<exists>fm fsl. flush_memory sb = Some fm \<and> flush_buffer sb = Some fsl \<and> part_rep h fm fsl es \<and>
           set (blocks fm) \<inter> set (blocks m) = {})) \<and>
    (flush_buffer_ready sb \<longleftrightarrow> fl \<noteq> None) \<and> (flush_thread_ready sb \<longrightarrow> fl = None)"

definition lookup :: "kv list \<Rightarrow> kv list option \<Rightarrow> bytes \<Rightarrow> bytes option" where
  "lookup inc fl k = (case map_of inc k of Some v \<Rightarrow> Some v | None \<Rightarrow> (case fl of None \<Rightarrow> None | Some es \<Rightarrow> map_of es k))"

lemma part_blocks_existing: "part_rep h m sl es \<Longrightarrow> set (blocks m) \<subseteq> {..<next_block h}"
  by (auto simp: part_rep_def arena_ok_def)

lemma new_part:
  "\<exists>h' m sl. SkipList_new h Memory_new lit = Some (h', m, sl) \<and> part_rep h' m sl [] \<and> heap_le h h' \<and>
    set (blocks m) \<subseteq> {next_block h..} \<and> blocks_memory m \<le> kBlockSize"
proof -
  have "arena_ok h Memory_new" "blocks_memory Memory_new + kBlockSize < 2 ^ 31"
    by (simp_all add: Memory_new_def arena_ok_def kBlockSize_def)
  then obtain h' m sl where new: "SkipList_new h Memory_new lit = Some (h', m, sl)"
    "sl_rep (entry_at h) (key_at h) sl []" "nodes_in h' m sl" "arena_ok h' m" "heap_le h h'"
    "set (blocks m) \<subseteq> set (blocks Memory_new) \<union> {next_block h..<next_block h'}"
    "blocks_memory m \<le> blocks_memory Memory_new + kBlockSize"
    using SkipList_new_correct [of h Memory_new lit "entry_at h" "key_at h"] by blast
  have "sl_rep (entry_at h') (key_at h') sl []" using new(2) by (rule sl_rep_cong) simp
  with new(3,4) have "part_rep h' m sl []"
    by (auto simp: part_rep_def keys_of_def intro!: exI [of _ "[]"])
  moreover have "set (blocks m) \<subseteq> {next_block h..}" using new(6) by (auto simp: Memory_new_def)
  moreover have "blocks_memory m \<le> kBlockSize" using new(7) by (simp add: Memory_new_def)
  ultimately show ?thesis using new(1,5) by blast
qed

text \<open>The bytes of the blocks of the income arena.\<close>

definition income_used :: "StorageBuffer \<Rightarrow> int" where
  "income_used sb = (case income_memory sb of None \<Rightarrow> 0 | Some m \<Rightarrow> blocks_memory m)"

lemma StorageBuffer_new_rep:
  "\<exists>h' sb. StorageBuffer_new h n lit = Some (h', sb) \<and> sb_rep h' sb [] None \<and> buffer_size sb = n \<and> income_size sb = 0 \<and>
    \<not> flush_thread_ready sb \<and> income_used sb \<le> kBlockSize"
  using new_part [of h lit] by (auto simp: StorageBuffer_new_def sb_rep_def income_used_def)

lemma SwapBuffer_rep:
  assumes "income_memory sb = Some m" "income_buffer sb = Some sl" "part_rep h m sl inc" "\<not> flush_thread_ready sb"
  shows "\<exists>h' sb'. SwapBuffer h sb = Some (h', sb') \<and> sb_rep h' sb' [] (Some inc) \<and> \<not> flush_thread_ready sb' \<and>
    flush_notified sb' = flush_notified sb \<and> income_size sb' = 0 \<and> buffer_size sb' = buffer_size sb \<and> income_used sb' \<le> kBlockSize"
proof -
  obtain h' m' sl' where new: "SkipList_new h Memory_new (literal_00000 sb) = Some (h', m', sl')" "part_rep h' m' sl' []"
    "heap_le h h'" "set (blocks m') \<subseteq> {next_block h..}" "blocks_memory m' \<le> kBlockSize"
    using new_part by blast
  have "arena_ok h m" using assms(3) by (simp add: part_rep_def)
  then have "part_rep h' m sl inc" by (rule part_rep_frame [OF assms(3) heap_le_agree [OF _ new(3)]])
  moreover have "set (blocks m) \<inter> set (blocks m') = {}" using part_blocks_existing [OF assms(3)] new(4) by fastforce
  ultimately show ?thesis using new(1,2,5) assms(1,2,4) by (auto simp: SwapBuffer_def sb_rep_def income_used_def)
qed

text \<open>When \<^verbatim>\<open>Add\<close> makes the income buffer the flush buffer.\<close>

definition swaps :: "StorageBuffer \<Rightarrow> nat \<Rightarrow> bool" where
  "swaps sb n \<longleftrightarrow> income_size sb + of_nat n > buffer_size sb \<and> flush_thread_ready sb"

definition income_room :: "StorageBuffer \<Rightarrow> nat \<Rightarrow> bool" where
  "income_room sb n \<longleftrightarrow> income_used sb + int n + 2 * kBlockSize < 2 ^ 31"

definition add_post :: "StorageBuffer \<Rightarrow> StorageBuffer \<Rightarrow> nat \<Rightarrow> bool" where
  "add_post sb sb' n \<longleftrightarrow> buffer_size sb' = buffer_size sb \<and>
    (if swaps sb n
     then flush_notified sb' = flush_notified sb + 1 \<and> income_size sb' = 0 \<and> \<not> flush_thread_ready sb' \<and> income_used sb' \<le> kBlockSize
     else flush_notified sb' = flush_notified sb \<and> income_size sb' = income_size sb + of_nat n \<and>
       flush_thread_ready sb' = flush_thread_ready sb \<and> income_used sb' \<le> income_used sb + int n + 2 * kBlockSize)"

lemma Add_rep:
  assumes rep: "sb_rep h sb inc fl" and key: "string_of key = Some k" and val: "string_of value = Some v"
    and room: "income_room sb (length (entry_bytes k v))"
  shows "\<exists>h' sb'. Add h sb t key value = Some (h', sb') \<and> add_post sb sb' (length (entry_bytes k v)) \<and>
    (if swaps sb (length (entry_bytes k v)) then sb_rep h' sb' [] (Some (put_key fst (k, v) inc))
     else sb_rep h' sb' (put_key fst (k, v) inc) fl)"
proof -
  let ?n = "length (entry_bytes k v)"
  obtain m sl where im: "income_memory sb = Some m" "income_buffer sb = Some sl" "part_rep h m sl inc"
    using rep by (auto simp: sb_rep_def)
  have r: "room_to_add m ?n" using room im(1) by (simp add: income_room_def income_used_def room_to_add_def)
  have mem: "arena_ok h m" using im(3) by (simp add: part_rep_def)
  have n: "?n < 2 ^ 31" using room_to_addD(2) [OF mem r] entry_bytes_nonempty [of "(k, v)"] by (simp add: entry_of_def)
  then have ok: "entry_ok k v" by (simp add: entry_ok_def)
  obtain p h1 m1 h2 h3 m3 sl' where st: "Allocate h m (int ?n) = Some (p, h1, m1)" "write_bytes h1 p (entry_bytes k v) = Some h2"
    "Insert (entry_cmp h2) h2 m1 sl p = Some (h3, m3, sl')" "part_rep h3 m3 sl' (put_key fst (k, v) inc)"
    "set (blocks m3) \<subseteq> set (blocks m) \<union> {next_block h..}" "blocks_memory m3 \<le> blocks_memory m + int ?n + 2 * kBlockSize"
    "\<forall>B. B \<subseteq> {..<next_block h} \<and> B \<inter> set (blocks m) = {} \<longrightarrow> agree B h h3"
    using store_and_insert [OF im(3), of "(k, v)"] ok r by (auto simp: entry_of_def)
  let ?sb1 = "sb\<lparr>income_memory := Some m3, income_buffer := Some sl', income_size := income_size sb + of_nat ?n\<rparr>"
  have add: "Add h sb t key value =
      (if swaps sb ?n then do { (h4, sb2) \<leftarrow> SwapBuffer h3 (SetFlushThreadBusy ?sb1);
                               Some (h4, sb2\<lparr>flush_notified := flush_notified sb2 + 1\<rparr>) }
       else Some (h3, ?sb1))"
    using st(1-3) im(1,2) n sint_of_nat [OF n] unat_of_nat_u32 [of ?n] arg_cong [OF encoded_len_entry(2) [OF key val], of length, unfolded length_append]
    by (simp add: Add_def encoded_len_entry [OF key val] key val swaps_def Let_def)
  show ?thesis
  proof (cases "swaps sb ?n")
    case True
    obtain h4 sb4 where sw: "SwapBuffer h3 (SetFlushThreadBusy ?sb1) = Some (h4, sb4)"
      "sb_rep h4 sb4 [] (Some (put_key fst (k, v) inc))" "flush_notified sb4 = flush_notified sb"
      "\<not> flush_thread_ready sb4" "income_size sb4 = 0" "buffer_size sb4 = buffer_size sb" "income_used sb4 \<le> kBlockSize"
      using SwapBuffer_rep [of "SetFlushThreadBusy ?sb1" m3 sl', OF _ _ st(4)] by (auto simp: SetFlushThreadBusy_def)
    then show ?thesis using True by (simp add: add add_post_def sb_rep_def income_used_def cong: option.case_cong)
  next
    case False
    have "part_rep h3 fm fsl es" "set (blocks fm) \<inter> set (blocks m3) = {}"
      if "part_rep h fm fsl es" "set (blocks fm) \<inter> set (blocks m) = {}" for fm fsl es
    proof -
      have fm: "set (blocks fm) \<subseteq> {..<next_block h}" by (rule part_blocks_existing [OF that(1)])
      with st(7) that(2) have "agree (set (blocks fm)) h h3" by blast
      then show "part_rep h3 fm fsl es" by (rule part_rep_frame [OF that(1)])
      show "set (blocks fm) \<inter> set (blocks m3) = {}" using st(5) fm that(2) by fastforce
    qed
    then have "sb_rep h3 ?sb1 (put_key fst (k, v) inc) fl"
      using rep im st(4) by (fastforce simp: sb_rep_def split: option.splits)
    then show ?thesis using False st(6) im(1) by (simp add: add add_post_def income_used_def)
  qed
qed


section \<open>Looking up\<close>

lemma sb_rep_heap_le:
  assumes "sb_rep h sb inc fl" "heap_le h h'"
  shows "sb_rep h' sb inc fl"
proof -
  have "part_rep h' m sl es" if "part_rep h m sl es" for m sl es
    using that part_rep_frame heap_le_agree assms(2) by (metis part_rep_def)
  with assms(1) show ?thesis by (fastforce simp: sb_rep_def split: option.splits)
qed

lemma find_key_entries:
  assumes "list_all2 (entry_in h m) ps es" "key_at h q = k"
  shows "(find_key (key_at h) q ps = None \<longleftrightarrow> map_of es k = None) \<and>
    (\<forall>p. find_key (key_at h) q ps = Some p \<longrightarrow> (\<exists>v. map_of es k = Some v \<and> entry_in h m p (k, v)))"
  using assms(1)
proof (induction ps es rule: list_all2_induct)
  case (Cons p ps e es)
  then show ?case using entry_inD(2) [OF Cons.hyps(1)] assms(2) by (cases e) (auto simp: find_key_def)
qed (simp add: find_key_def)

lemma seek_part:
  assumes rep: "part_rep h m sl es" and q: "reads (view_at h q) (wrap_key k)" "length k < 2 ^ 32"
  shows "seek_value h (Some sl) q = Some (map_of es k)"
proof -
  obtain ns where ns: "sl_rep (entry_at h) (key_at h) sl ns" "list_all2 (entry_in h m) (keys_of sl ns) es"
    using rep by (auto simp: part_rep_def)
  have k: "entry_at h q" "key_at h q = k" using wrap_at [OF q] by simp_all
  note seek = entry_order.Iter_Seek_correct [OF ns(1) k(1)] and found = entry_order.Seek_key [OF ns(1), of q]
    and find = find_key_entries [OF ns(2) k(2)]
  show ?thesis
  proof (cases "find_key (key_at h) q (keys_of sl ns)")
    case None
    with find found seek show ?thesis by (simp add: seek_value_def Iter_Valid_def)
  next
    case (Some p)
    with find obtain v where v: "map_of es k = Some v" "entry_in h m p (k, v)" by blast
    then have "\<exists>a. ExtractUserValue (view_at h p) = Some a \<and> string_of a = Some v"
      by (intro ExtractUserValue_entry [of _ k]) (simp_all add: entry_in_def entry_of_def)
    with Some v found seek show ?thesis by (auto simp: seek_value_def Iter_Valid_def)
  qed
qed

lemma temp_key:
  assumes "length (wrap_key k) < 2 ^ 31"
  shows "\<exists>h1 h2. new_char h (nat (VarintLength (of_nat (length k)) + int (length k))) = (Ptr (next_block h) 0, h1) \<and>
    write_bytes h1 (Ptr (next_block h) 0) (wrap_key k) = Some h2 \<and> heap_le h h2 \<and> heap_le h (delete_block (next_block h) h2) \<and>
    reads (view_at h2 (Ptr (next_block h) 0)) (wrap_key k) \<and> int_ok (VarintLength (of_nat (length k)) + int (length k))"
proof -
  have k: "length k < 2 ^ 31" using assms by (simp add: wrap_key_length)
  then have "VarintLength (of_nat (length k)) = int (length (EncodeVarint32 (of_nat (length k))))"
    by (simp add: VarintLength_eq EncodeVarint32_eq unat_of_nat_u32 unat_of_nat_u64)
  then have n: "VarintLength (of_nat (length k)) + int (length k) = int (length (wrap_key k))"
    by (simp add: wrap_key_length)
  obtain h1 where h1: "new_char h (length (wrap_key k)) = (Ptr (next_block h) 0, h1)" by (simp add: new_char_def Let_def)
  then have "block_size h1 (next_block h) = length (wrap_key k)" and le: "heap_le h h1"
    by (auto simp: new_char_def Let_def heap_le_def)
  then obtain h2 where h2: "write_bytes h1 (Ptr (next_block h) 0) (wrap_key k) = Some h2" by (simp add: write_bytes_def)
  then have "heap_le h h2" "heap_le h (delete_block (next_block h) h2)"
    using le by (auto simp: write_bytes_def heap_le_def delete_block_def split: if_splits)
  then show ?thesis using h1 h2 reads_write [OF h2] assms by (simp add: n int_ok_def)
qed

lemma Buffer_Get_rep:
  assumes rep: "sb_rep h sb inc fl" and k: "length (wrap_key k) < 2 ^ 31"
  shows "\<exists>h'. Buffer_Get h sb k = Some (lookup inc fl k, h') \<and> sb_rep h' sb inc fl"
proof -
  obtain h1 h2 where t: "new_char h (nat (VarintLength (of_nat (length k)) + int (length k))) = (Ptr (next_block h) 0, h1)"
    "write_bytes h1 (Ptr (next_block h) 0) (wrap_key k) = Some h2" "heap_le h h2" "heap_le h (delete_block (next_block h) h2)"
    "reads (view_at h2 (Ptr (next_block h) 0)) (wrap_key k)" "int_ok (VarintLength (of_nat (length k)) + int (length k))"
    using temp_key [OF k] by blast
  have len: "length k < 2 ^ 32" using k by (simp add: wrap_key_length)
  have rep2: "sb_rep h2 sb inc fl" by (rule sb_rep_heap_le [OF rep t(3)])
  have seek: "seek_value h2 (Some sl) (Ptr (next_block h) 0) = Some (map_of es k)" if "part_rep h2 m sl es" for m sl es
    by (rule seek_part [OF that t(5) len])
  have inc: "seek_value h2 (income_buffer sb) (Ptr (next_block h) 0) = Some (map_of inc k)"
    using rep2 seek by (auto simp: sb_rep_def)
  have fl: "seek_value h2 (flush_buffer sb) (Ptr (next_block h) 0) = Some (case fl of None \<Rightarrow> None | Some es \<Rightarrow> map_of es k)"
  proof (cases fl)
    case None
    with rep2 show ?thesis by (auto simp: sb_rep_def seek_value_def)
  next
    case (Some es)
    with rep2 seek show ?thesis by (auto simp: sb_rep_def)
  qed
  have "Buffer_Get h sb k = Some (lookup inc fl k, delete_block (next_block h) h2)"
    using t(1,2,6) inc fl by (auto simp: Buffer_Get_def lookup_def wrap_key_def Let_def split: option.splits)
  then show ?thesis using sb_rep_heap_le [OF rep t(4)] by blast
qed


section \<open>Flushing and clearing\<close>

lemma entry_in_shows:
  assumes "entry_in h m p e"
  shows "EntrySize (view_at h p) = Some (of_nat (length (entry_of e)))"
    "shows_entry (mk_ByteArray (view_at h p) (of_nat (length (entry_of e)))) e"
  using assms EntrySize_entry [of "view_at h p" "fst e" "snd e"]
  by (simp_all add: entry_in_def entry_of_def shows_entry_def mk_ByteArray_def)

definition arrays_at :: "heap \<Rightarrow> ptr list \<Rightarrow> kv list \<Rightarrow> ByteArray list" where
  "arrays_at h ps es = map2 (\<lambda>p e. mk_ByteArray (view_at h p) (of_nat (length (entry_of e)))) ps es"

lemma arrays_at_shows: "list_all2 (entry_in h m) ps es \<Longrightarrow> list_all2 shows_entry (arrays_at h ps es) es"
  by (induction ps es rule: list_all2_induct) (auto simp: arrays_at_def entry_in_shows)

lemma FlushBuffer_loop_correct:
  assumes rep: "sl_rep ok ukey sl (pre @ ns)" and "list_all2 (entry_in h m) (keys_of sl ns) es"
  shows "FlushBuffer_loop h sl (first_ptr ns) content n =
    Some (content @ arrays_at h (keys_of sl ns) es, n + of_nat (length (entries_of es)))"
  using assms
proof (induction ns arbitrary: pre es content n)
  case Nil
  then show ?case
    by (subst FlushBuffer_loop.simps) (simp add: first_ptr_def Iter_Valid_def keys_of_def arrays_at_def entries_of_def)
next
  case (Cons x ns)
  obtain e es' where es: "es = e # es'" "entry_in h m (key_of sl x) e" "list_all2 (entry_in h m) (keys_of sl ns) es'"
    using Cons.prems(2) by (auto simp: keys_of_def list_all2_Cons1)
  have x: "x \<noteq> Null" using Cons.prems(1) by (auto simp: sl_rep_def)
  have "x \<in> dom (nodes sl)" using sl_rep_heights(2) [OF Cons.prems(1), of x] height_pos_dom by simp
  then have "Iter_key sl x = Some (key_of sl x)" using x by (auto simp: Iter_key_def Iter_Valid_def key_of_def)
  moreover have "FlushBuffer_loop h sl (first_ptr ns) content' n' =
      Some (content' @ arrays_at h (keys_of sl ns) es', n' + of_nat (length (entries_of es')))" for content' n'
    using Cons.IH [of "pre @ [x]" es'] Cons.prems(1) es(3) by simp
  ultimately show ?case
    using x entry_in_shows(1) [OF es(2)] Iter_Next_correct [OF Cons.prems(1)]
    by (subst FlushBuffer_loop.simps)
      (simp add: first_ptr_def Iter_Valid_def es(1) keys_of_def arrays_at_def entries_of_def)
qed

lemma FlushBuffer_rep:
  assumes "sb_rep h sb inc (Some es)" "content_ok es"
  shows "FlushBuffer host iter h sb Map.empty = Some (file_image host iter es, file_table es)"
proof -
  obtain fm sl ns where sl: "flush_buffer sb = Some sl" "sl_rep (entry_at h) (key_at h) sl ns"
    "list_all2 (entry_in h fm) (keys_of sl ns) es"
    using assms(1) by (auto simp: sb_rep_def part_rep_def)
  have "FlushBuffer_loop h sl (first_ptr ns) [] 0 = Some (arrays_at h (keys_of sl ns) es, of_nat (length (entries_of es)))"
    using FlushBuffer_loop_correct [where pre = "[]" and content = "[]" and n = 0, OF _ sl(3)] sl(2) by simp
  then show ?thesis
    using sl(1) Iter_SeekToFirst_correct [OF sl(2)] Flush_correct [OF arrays_at_shows [OF sl(3)] assms(2)]
    by (simp add: FlushBuffer_def)
qed

lemma agree_trans: "agree B h1 h2 \<Longrightarrow> agree B h2 h3 \<Longrightarrow> agree B h1 h3"
  by (simp add: agree_def)

lemma Memory_delete_agree: "B \<inter> set (blocks m) = {} \<Longrightarrow> agree B h (Memory_delete h m)"
proof -
  have one: "b \<notin> B \<Longrightarrow> agree B g (delete_block b g)" for b g
    by (auto simp: agree_def delete_block_def)
  have "B \<inter> set bs = {} \<Longrightarrow> agree B h (fold delete_block bs h)" for bs
  proof (induction bs arbitrary: h)
    case (Cons b bs)
    then show ?case using agree_trans [OF one [of b h]] by simp
  qed (simp add: agree_def)
  then show "B \<inter> set (blocks m) = {} \<Longrightarrow> agree B h (Memory_delete h m)" by (simp add: Memory_delete_def)
qed

lemma ClearFlushBuffer_rep:
  assumes "sb_rep h sb inc fl" "ClearFlushBuffer h sb = (h', sb')"
  shows "sb_rep h' sb' inc None"
proof -
  obtain m sl where m: "income_memory sb = Some m" "income_buffer sb = Some sl" "part_rep h m sl inc"
    using assms(1) by (auto simp: sb_rep_def)
  have "agree (set (blocks m)) h h'"
  proof (cases "flush_memory sb")
    case None
    with assms(2) show ?thesis by (auto simp: ClearFlushBuffer_def agree_def)
  next
    case (Some fm)
    then have "set (blocks m) \<inter> set (blocks fm) = {}"
      using assms(1) m(1) by (auto simp: sb_rep_def split: option.splits)
    with Some assms(2) show ?thesis by (auto simp: ClearFlushBuffer_def Memory_delete_agree)
  qed
  then have "part_rep h' m sl inc" by (rule part_rep_frame [OF m(3)])
  with m assms show ?thesis by (auto simp: sb_rep_def ClearFlushBuffer_def)
qed

end
