(* ===== verification/Buffer_Runs.thy ===== *)
theory Buffer_Runs
  imports Buffer_Correct
begin

text \<open>
  Sequences of operations on a storage buffer and the machine they refine.  A step is one atomic operation
  of the code: an \<^verbatim>\<open>Add\<close>, a \<^verbatim>\<open>Get\<close>, or one round of the flush thread (write the flush buffer, clear it,
  become idle again).  The specification keeps two sorted lists of key-value pairs and no memory at all.
\<close>

section \<open>Runs of the code\<close>

definition string_array :: "bytes \<Rightarrow> ByteArray" where
  "string_array s = mk_ByteArray (view_of s) (of_nat (length s))"

datatype buffer_op = BAdd OrderType bytes bytes | BGet bytes | BFlush

datatype buffer_output = Stored | Found "bytes option" | Flushed bytes key_table | Waiting

fun buffer_step :: "host \<Rightarrow> iteration \<Rightarrow> buffer_op \<Rightarrow> heap \<times> StorageBuffer \<Rightarrow> (buffer_output \<times> heap \<times> StorageBuffer) option" where
  "buffer_step host iter (BAdd t k v) (h, sb) =
    do { (h', sb') \<leftarrow> Add h sb t (string_array k) (string_array v); Some (Stored, h', sb') }"
| "buffer_step host iter (BGet k) (h, sb) =
    do { (r, h') \<leftarrow> Buffer_Get h sb k; Some (Found r, h', sb) }"
| "buffer_step host iter BFlush (h, sb) =
    (if FlushBufferReady sb then
       do { (img, key_offset) \<leftarrow> FlushBuffer host iter h sb Map.empty;
            let (h', sb') = ClearFlushBuffer h sb;
            Some (Flushed img key_offset, h', SetFlushThreadIdle sb') }
     else Some (Waiting, h, SetFlushThreadIdle sb))"

fun buffer_run :: "host \<Rightarrow> iteration \<Rightarrow> buffer_op list \<Rightarrow> heap \<times> StorageBuffer \<Rightarrow> (buffer_output list \<times> heap \<times> StorageBuffer) option" where
  "buffer_run host iter [] s = Some ([], s)"
| "buffer_run host iter (op # ops) s =
    do { (out, s1) \<leftarrow> buffer_step host iter op s;
         (outs, s2) \<leftarrow> buffer_run host iter ops s1;
         Some (out # outs, s2) }"


section \<open>The specification\<close>

record buffer_spec =
  spec_income :: "kv list"
  spec_flush :: "kv list option"
  spec_size :: u32
  spec_idle :: bool

definition spec_new :: buffer_spec where
  "spec_new = \<lparr>spec_income = [], spec_flush = None, spec_size = 0, spec_idle = False\<rparr>"

fun spec_step :: "host \<Rightarrow> iteration \<Rightarrow> u32 \<Rightarrow> buffer_op \<Rightarrow> buffer_spec \<Rightarrow> buffer_output \<times> buffer_spec" where
  "spec_step host iter limit (BAdd t k v) s =
    (let income = put_key fst (k, v) (spec_income s);
         n = spec_size s + of_nat (length (entry_bytes k v))
     in (Stored,
         if n > limit \<and> spec_idle s
         then \<lparr>spec_income = [], spec_flush = Some income, spec_size = 0, spec_idle = False\<rparr>
         else s\<lparr>spec_income := income, spec_size := n\<rparr>))"
| "spec_step host iter limit (BGet k) s = (Found (lookup (spec_income s) (spec_flush s) k), s)"
| "spec_step host iter limit BFlush s =
    (case spec_flush s of
       None \<Rightarrow> (Waiting, s\<lparr>spec_idle := True\<rparr>)
     | Some es \<Rightarrow> (Flushed (file_image host iter es) (file_table es), s\<lparr>spec_flush := None, spec_idle := True\<rparr>))"

fun spec_run :: "host \<Rightarrow> iteration \<Rightarrow> u32 \<Rightarrow> buffer_op list \<Rightarrow> buffer_spec \<Rightarrow> buffer_output list \<times> buffer_spec" where
  "spec_run host iter limit [] s = ([], s)"
| "spec_run host iter limit (op # ops) s =
    (let (out, s1) = spec_step host iter limit op s; (outs, s2) = spec_run host iter limit ops s1 in (out # outs, s2))"

text \<open>Operations the 32-bit counters of the code can carry, with keys that \<^verbatim>\<open>Flush\<close> accepts.\<close>

fun op_ok :: "buffer_op \<Rightarrow> bool" where
  "op_ok (BAdd t k v) \<longleftrightarrow> str ''00000'' \<le> k"
| "op_ok (BGet k) \<longleftrightarrow> length (wrap_key k) < 2 ^ 31"
| "op_ok BFlush \<longleftrightarrow> True"

fun op_cost :: "buffer_op \<Rightarrow> int" where
  "op_cost (BAdd t k v) = int (length (entry_bytes k v)) + 2 * kBlockSize"
| "op_cost (BGet k) = 0"
| "op_cost BFlush = 0"


section \<open>Simulation\<close>

definition keys_ok :: "kv list \<Rightarrow> bool" where
  "keys_ok es \<longleftrightarrow> (\<forall>e \<in> set es. str ''00000'' \<le> fst e)"

definition sim :: "u32 \<Rightarrow> int \<Rightarrow> heap \<times> StorageBuffer \<Rightarrow> buffer_spec \<Rightarrow> bool" where
  "sim limit c hs s \<longleftrightarrow> (case hs of (h, sb) \<Rightarrow>
    sb_rep h sb (spec_income s) (spec_flush s) \<and> income_size sb = spec_size s \<and> flush_thread_ready sb = spec_idle s \<and>
    buffer_size sb = limit \<and> income_used sb \<le> c \<and> kBlockSize \<le> c \<and> keys_ok (spec_income s) \<and>
    (\<forall>es. spec_flush s = Some es \<longrightarrow> es \<noteq> [] \<and> keys_ok es))"

lemma string_of_array: "length s < 2 ^ 32 \<Longrightarrow> string_of (string_array s) = Some s"
  by (simp add: string_array_def mk_ByteArray_def string_of_def unat_of_nat_u32 read_bytes_reads reads_view_of)

lemma keys_ok_put:
  assumes "sorted_wrt (<) (map fst es)" "keys_ok es" "str ''00000'' \<le> k"
  shows "keys_ok (put_key fst (k, v) es)" "put_key fst (k, v) es \<noteq> []"
  using assms set_put_key [OF assms(1), of "(k, v)"] by (auto simp: keys_ok_def put_key_def)

lemma flush_content_ok:
  assumes "sb_rep h sb inc (Some es)" "es \<noteq> []" "keys_ok es"
  shows "content_ok es"
proof -
  obtain fm fsl where p: "part_rep h fm fsl es" using assms(1) by (auto simp: sb_rep_def)
  then obtain ps where "list_all2 (entry_in h fm) ps es" by (auto simp: part_rep_def)
  then have "\<forall>e \<in> set es. entry_ok (fst e) (snd e)"
    by (induction ps es rule: list_all2_induct) (auto simp: entry_in_def)
  then show ?thesis using part_rep_sorted [OF p] assms(2,3) by (simp add: content_ok_def keys_ok_def)
qed

lemma sim_add:
  assumes s: "sim limit c (h, sb) s" and k: "str ''00000'' \<le> k" and room: "c + op_cost (BAdd t k v) < 2 ^ 31"
  shows "\<exists>h' sb'. Add h sb t (string_array k) (string_array v) = Some (h', sb') \<and>
    sim limit (c + op_cost (BAdd t k v)) (h', sb') (snd (spec_step host iter limit (BAdd t k v) s))"
proof -
  let ?n = "length (entry_bytes k v)"
  have kv: "0 \<le> kBlockSize" by (simp add: kBlockSize_def)
  then have room': "income_room sb ?n" using s room by (simp add: sim_def income_room_def)
  have "?n < 2 ^ 31" using s room kv by (auto simp: sim_def)
  then have "length k < 2 ^ 32" "length v < 2 ^ 32" by (auto simp: entry_bytes_def wrap_key_length)
  note arr = string_of_array [OF this(1)] string_of_array [OF this(2)]
  have rep: "sb_rep h sb (spec_income s) (spec_flush s)" using s by (simp add: sim_def)
  obtain h' sb' where add: "Add h sb t (string_array k) (string_array v) = Some (h', sb')" "add_post sb sb' ?n"
    "if swaps sb ?n then sb_rep h' sb' [] (Some (put_key fst (k, v) (spec_income s)))
     else sb_rep h' sb' (put_key fst (k, v) (spec_income s)) (spec_flush s)"
    using Add_rep [OF rep arr room'] by blast
  have "sorted_wrt (<) (map fst (spec_income s))" using rep part_rep_sorted by (auto simp: sb_rep_def)
  moreover have "keys_ok (spec_income s)" using s by (simp add: sim_def)
  ultimately have keys: "keys_ok (put_key fst (k, v) (spec_income s))" "put_key fst (k, v) (spec_income s) \<noteq> []"
    using keys_ok_put [OF _ _ k] by blast+
  have "sim limit (c + op_cost (BAdd t k v)) (h', sb') (snd (spec_step host iter limit (BAdd t k v) s))"
  proof (cases "swaps sb ?n")
    case True
    with s add keys kv show ?thesis by (auto simp: sim_def add_post_def swaps_def Let_def keys_ok_def [of "[]"])
  next
    case False
    with s add keys kv show ?thesis by (auto simp: sim_def add_post_def swaps_def Let_def)
  qed
  with add(1) show ?thesis by blast
qed

lemma sim_step:
  assumes s: "sim limit c hs s" and op: "op_ok op" "c + op_cost op < 2 ^ 31"
  shows "\<exists>hs'. buffer_step host iter op hs = Some (fst (spec_step host iter limit op s), hs') \<and>
    sim limit (c + op_cost op) hs' (snd (spec_step host iter limit op s))"
proof -
  obtain h sb where hs: "hs = (h, sb)" by (cases hs)
  have rep: "sb_rep h sb (spec_income s) (spec_flush s)" using s by (simp add: sim_def hs)
  show ?thesis
  proof (cases op)
    case (BAdd t k v)
    with sim_add [of limit c h sb s k t v host iter] s op show ?thesis by (auto simp: hs Let_def)
  next
    case (BGet k)
    then obtain h' where "Buffer_Get h sb k = Some (lookup (spec_income s) (spec_flush s) k, h')" "sb_rep h' sb (spec_income s) (spec_flush s)"
      using Buffer_Get_rep [OF rep, of k] op by auto
    with BGet s show ?thesis by (auto simp: hs sim_def)
  next
    case BFlush
    show ?thesis
    proof (cases "spec_flush s")
      case None
      with BFlush s show ?thesis
        by (auto simp: hs sim_def sb_rep_def FlushBufferReady_def SetFlushThreadIdle_def income_used_def)
    next
      case (Some es)
      then have ok: "content_ok es" using flush_content_ok rep s by (auto simp: sim_def hs)
      obtain h' sb' where clr: "ClearFlushBuffer h sb = (h', sb')" by fastforce
      have "FlushBufferReady sb" using rep Some by (simp add: sb_rep_def FlushBufferReady_def)
      moreover have "sb_rep h' sb' (spec_income s) None" by (rule ClearFlushBuffer_rep [OF rep clr])
      moreover have "income_size sb' = income_size sb" "buffer_size sb' = buffer_size sb" "income_used sb' = income_used sb"
        using clr by (auto simp: ClearFlushBuffer_def income_used_def)
      ultimately show ?thesis
        using BFlush s Some clr FlushBuffer_rep [of h sb _ es, OF _ ok] rep
        by (auto simp: hs sim_def SetFlushThreadIdle_def sb_rep_def income_used_def)
    qed
  qed
qed

lemma op_cost_pos: "0 \<le> op_cost op"
  by (cases op) (simp_all add: kBlockSize_def)

lemma sim_run:
  assumes "sim limit c hs s" "\<forall>op \<in> set ops. op_ok op" "c + sum_list (map op_cost ops) < 2 ^ 31"
  shows "\<exists>hs'. buffer_run host iter ops hs = Some (fst (spec_run host iter limit ops s), hs') \<and>
    sim limit (c + sum_list (map op_cost ops)) hs' (snd (spec_run host iter limit ops s))"
  using assms
proof (induction ops arbitrary: c hs s)
  case (Cons op ops)
  have "0 \<le> sum_list (map op_cost ops)" by (rule sum_list_nonneg) (auto simp: op_cost_pos)
  then have "c + op_cost op < 2 ^ 31" using Cons.prems(3) by simp
  then obtain hs1 where 1: "buffer_step host iter op hs = Some (fst (spec_step host iter limit op s), hs1)"
    "sim limit (c + op_cost op) hs1 (snd (spec_step host iter limit op s))"
    using sim_step [OF Cons.prems(1)] Cons.prems(2) by fastforce
  then obtain hs2 where "buffer_run host iter ops hs1 = Some (fst (spec_run host iter limit ops (snd (spec_step host iter limit op s))), hs2)"
    "sim limit (c + op_cost op + sum_list (map op_cost ops)) hs2 (snd (spec_run host iter limit ops (snd (spec_step host iter limit op s))))"
    using Cons.IH [OF 1(2)] Cons.prems(2,3) by auto
  with 1 show ?case by (auto simp: Let_def split_def add.assoc)
qed simp

lemma new_sim:
  "\<exists>hs. StorageBuffer_new h limit lit = Some hs \<and> sim limit kBlockSize hs spec_new"
  using StorageBuffer_new_rep [of h limit lit] by (auto simp: sim_def spec_new_def keys_ok_def)



section \<open>Properties\<close>

text \<open>
  C13: The storage buffer refines its specification.  From a new buffer, every sequence of additions, lookups and
  flush rounds runs without undefined behaviour and without a failed assertion, and returns exactly what
  two sorted lists would: each lookup the latest value, each flush the file image of the buffer it writes.
  The hypotheses are keys that \<^verbatim>\<open>Flush\<close> accepts and arenas that fit the \<^verbatim>\<open>int\<close> counter.
\<close>

theorem buffer_run_refines:
  assumes "\<forall>op \<in> set ops. op_ok op" "kBlockSize + sum_list (map op_cost ops) < 2 ^ 31"
  shows "\<exists>hs hs'. StorageBuffer_new h limit lit = Some hs \<and>
    buffer_run host iter ops hs = Some (fst (spec_run host iter limit ops spec_new), hs')"
  using new_sim [of h limit lit] sim_run [OF _ assms] by blast

theorem buffer_run_refines_witness:
  "\<exists>hs hs'. StorageBuffer_new empty_heap 6 Null = Some hs \<and>
    buffer_run LittleHost sorted_iter
      [BFlush, BAdd Put (str ''k2'') [7], BAdd Delete (str ''k1'') [8], BAdd Put (str ''k2'') [9], BGet (str ''k2''), BGet (str ''k1''), BGet (str ''x'')] hs =
      Some ([Waiting, Stored, Stored, Stored, Found (Some [9]), Found (Some [8]), Found None], hs')"
proof -
  let ?ops = "[BFlush, BAdd Put (str ''k2'') [7], BAdd Delete (str ''k1'') [8], BAdd Put (str ''k2'') [9], BGet (str ''k2''), BGet (str ''k1''), BGet (str ''x'')]"
  have ok: "\<forall>op \<in> set ?ops. op_ok op" by (simp add: str_def wrap_key_def EncodeVarint32_def)
  have cost: "kBlockSize + sum_list (map op_cost ?ops) < 2 ^ 31"
    by (simp add: kBlockSize_def str_def entry_bytes_def wrap_key_def EncodeVarint32_def)
  have "fst (spec_run LittleHost sorted_iter 6 ?ops spec_new) =
      [Waiting, Stored, Stored, Stored, Found (Some [9]), Found (Some [8]), Found None]"
    by (simp add: spec_new_def Let_def str_def entry_bytes_def wrap_key_def EncodeVarint32_def put_key_def lookup_def)
  then show ?thesis using buffer_run_refines [OF ok cost, of empty_heap 6 Null LittleHost sorted_iter] by metis
qed

text \<open>
  Reads see the latest write, across the swap of the buffers: in every state a run can reach, after
  \<^verbatim>\<open>Add\<close> of a key a lookup of that key finds the value added, and every other lookup finds what it found before.
\<close>

theorem buffer_add_then_get:
  assumes "\<forall>op \<in> set ops. op_ok op" "str ''00000'' \<le> k" "length (wrap_key q) < 2 ^ 31"
    and "kBlockSize + sum_list (map op_cost ops) + op_cost (BAdd t k v) < 2 ^ 31"
    and "StorageBuffer_new h0 limit lit = Some hs0" "buffer_run host iter ops hs0 = Some (outs, h, sb)"
  shows "\<exists>h1 sb1 r h2 h3. Add h sb t (string_array k) (string_array v) = Some (h1, sb1) \<and>
    Buffer_Get h sb q = Some (r, h2) \<and> Buffer_Get h1 sb1 q = Some (if q = k then Some v else r, h3)"
proof -
  let ?s = "snd (spec_run host iter limit ops spec_new)" and ?c = "kBlockSize + sum_list (map op_cost ops)"
  have new: "sim limit kBlockSize hs0 spec_new" using new_sim [of h0 limit lit] assms(5) by simp
  have c: "?c < 2 ^ 31" using assms(4) op_cost_pos [of "BAdd t k v"] by simp
  have s: "sim limit ?c (h, sb) ?s" using sim_run [OF new assms(1) c, of host iter] assms(6) by simp
  then have rep: "sb_rep h sb (spec_income ?s) (spec_flush ?s)" by (simp add: sim_def)
  obtain h2 where g: "Buffer_Get h sb q = Some (lookup (spec_income ?s) (spec_flush ?s) q, h2)"
    using Buffer_Get_rep [OF rep assms(3)] by blast
  let ?s' = "snd (spec_step host iter limit (BAdd t k v) ?s)"
  obtain h1 sb1 where add: "Add h sb t (string_array k) (string_array v) = Some (h1, sb1)"
    "sim limit (?c + op_cost (BAdd t k v)) (h1, sb1) ?s'"
    using sim_add [OF s assms(2,4)] by blast
  then have "sb_rep h1 sb1 (spec_income ?s') (spec_flush ?s')" by (simp add: sim_def)
  from Buffer_Get_rep [OF this assms(3)] obtain h3
    where g': "Buffer_Get h1 sb1 q = Some (lookup (spec_income ?s') (spec_flush ?s') q, h3)" by blast
  have sorted: "sorted_wrt (<) (map fst (spec_income ?s))" using rep part_rep_sorted by (auto simp: sb_rep_def)
  have "spec_idle ?s \<longrightarrow> spec_flush ?s = None" using s by (auto simp: sim_def sb_rep_def)
  then have "lookup (spec_income ?s') (spec_flush ?s') q = (if q = k then Some v else lookup (spec_income ?s) (spec_flush ?s) q)"
    by (auto simp: lookup_def Let_def map_of_put_key [OF sorted] split: option.splits)
  with add(1) g g' show ?thesis by auto
qed

theorem buffer_add_then_get_witness:
  "\<exists>hs0 outs h sb h1 sb1 r h2 h3. StorageBuffer_new empty_heap 100 Null = Some hs0 \<and>
    buffer_run LittleHost sorted_iter [BAdd Put (str ''k1'') [1]] hs0 = Some (outs, h, sb) \<and>
    Add h sb Put (string_array (str ''k1'')) (string_array [2]) = Some (h1, sb1) \<and>
    Buffer_Get h sb (str ''k1'') = Some (r, h2) \<and> Buffer_Get h1 sb1 (str ''k1'') = Some (Some [2], h3)"
proof -
  let ?ops = "[BAdd Put (str ''k1'') [1]]"
  have ok: "\<forall>op \<in> set ?ops. op_ok op" "str ''00000'' \<le> str ''k1''" "length (wrap_key (str ''k1'')) < 2 ^ 31"
    by (simp_all add: str_def wrap_key_def EncodeVarint32_def)
  have cost: "kBlockSize + sum_list (map op_cost ?ops) < 2 ^ 31"
    "kBlockSize + sum_list (map op_cost ?ops) + op_cost (BAdd Put (str ''k1'') [2]) < 2 ^ 31"
    by (simp_all add: kBlockSize_def str_def entry_bytes_def wrap_key_def EncodeVarint32_def)
  obtain hs0 where new: "StorageBuffer_new empty_heap 100 Null = Some hs0" "sim 100 kBlockSize hs0 spec_new"
    using new_sim by blast
  then obtain outs h sb where run: "buffer_run LittleHost sorted_iter ?ops hs0 = Some (outs, h, sb)"
    using sim_run [OF new(2) ok(1) cost(1)] by (metis prod.exhaust)
  from buffer_add_then_get [OF ok(1,2,3) cost(2) new(1) run] show ?thesis using new(1) run by auto
qed


text \<open>A state of the code with one entry, for the witnesses.\<close>

lemma one_entry_list:
  "\<exists>h m sl x p. sl_rep (entry_at h) (key_at h) sl [x] \<and> arena_ok h m \<and> nodes_in h m sl \<and> entry_at h p \<and>
    blocks_memory m + kBlockSize < 2 ^ 31 \<and> keys_of sl [x] = [p]"
proof -
  let ?ops = "[BAdd Put (str ''k1'') [1]]"
  have ok: "\<forall>op \<in> set ?ops. op_ok op" by (simp add: str_def)
  have n: "length (entry_bytes (str ''k1'') [1]) = 5" by (simp add: str_def entry_bytes_def wrap_key_def EncodeVarint32_def)
  have cost: "kBlockSize + sum_list (map op_cost ?ops) < 2 ^ 31" by (simp add: kBlockSize_def n)
  obtain hs0 where "sim 100 kBlockSize hs0 spec_new" using new_sim by blast
  from sim_run [OF this ok cost, of LittleHost sorted_iter] obtain h sb
    where "sim 100 (kBlockSize + sum_list (map op_cost ?ops)) (h, sb) (snd (spec_run LittleHost sorted_iter 100 ?ops spec_new))"
    by fastforce
  then have "sb_rep h sb [(str ''k1'', [1])] None" "income_used sb + kBlockSize < 2 ^ 31"
    by (simp_all add: sim_def spec_new_def Let_def kBlockSize_def n)
  then obtain m sl ns where m: "sl_rep (entry_at h) (key_at h) sl ns" "arena_ok h m" "nodes_in h m sl"
    "list_all2 (entry_in h m) (keys_of sl ns) [(str ''k1'', [1])]" "blocks_memory m + kBlockSize < 2 ^ 31"
    by (auto simp: sb_rep_def part_rep_def income_used_def)
  then obtain p where p: "keys_of sl ns = [p]" "entry_in h m p (str ''k1'', [1])" by (auto simp: list_all2_Cons2)
  then obtain x where "ns = [x]" by (auto simp: keys_of_def map_eq_Cons_conv)
  with m p show ?thesis using entry_inD(1) by blast
qed


text \<open>
  C23: The backward moves of the iterator: \<^verbatim>\<open>SeekToLast\<close> stands on the greatest entry and \<^verbatim>\<open>Prev\<close>, which
  searches again from the head, on the entry just before, in every skip list over heap entries.
\<close>

theorem skip_list_backwards:
  assumes "sl_rep (entry_at h) (key_at h) sl (pre @ x # post)"
  shows "Iter_SeekToLast sl = Some (last (x # post)) \<and> Iter_Prev (entry_cmp h) sl x = Some (last_ptr pre) \<and>
    Iter_Next sl x = Some (first_ptr post)"
  using Iter_SeekToLast_correct [OF assms] entry_order.Iter_Prev_correct [OF assms] Iter_Next_correct [OF assms]
  by (simp add: last_ptr_def)

theorem skip_list_backwards_witness:
  "\<exists>h sl x. Iter_SeekToLast sl = Some x \<and> Iter_Prev (entry_cmp h) sl x = Some Null \<and> Iter_Next sl x = Some Null"
proof -
  obtain h sl x where "sl_rep (entry_at h) (key_at h) sl ([] @ x # [])" using one_entry_list by fastforce
  from skip_list_backwards [OF this] show ?thesis by (auto simp: first_ptr_def last_ptr_def)
qed

end
