(* ===== verification/Storage_Engine.thy ===== *)
theory Storage_Engine
  imports File_Format
begin

text \<open>
  \<^verbatim>\<open>db/storage_engine.cpp\<close>, without compaction: the data files of the store, by level and by id.

  \<^verbatim>\<open>std::map\<close> is a list of pairs in key order; \<^verbatim>\<open>operator[]\<close> inserts an empty vector where there is none.  The data
  folder is part of the state.  \<open>None\<close> is undefined behaviour, an uncaught exception of \<^verbatim>\<open>stoi\<close> or a
  signed overflow.  \<^verbatim>\<open>Notify\<close> on the compaction event is a counter of its calls.
\<close>

section \<open>State\<close>

type_synonym level_map = "(int \<times> File list) list"

record StorageEngine =
  last_file_id :: int
  level0_files_number_limit :: int
  level_files :: level_map
  files_map :: "int \<Rightarrow> File option"
  data_folder :: disk
  compact_notified :: nat

definition lm_at :: "level_map \<Rightarrow> int \<Rightarrow> File list" where
  "lm_at m l = (case map_of m l of None \<Rightarrow> [] | Some fs \<Rightarrow> fs)"

definition lm_set :: "level_map \<Rightarrow> int \<Rightarrow> File list \<Rightarrow> level_map" where
  "lm_set m l fs = put_key fst (l, fs) m"

definition lm_touch :: "level_map \<Rightarrow> int \<Rightarrow> level_map" where
  "lm_touch m l = (if map_of m l = None then lm_set m l [] else m)"

text \<open>A vector size compared with an \<^verbatim>\<open>int\<close>: a negative \<^verbatim>\<open>int\<close> becomes a huge unsigned number.\<close>

definition size_gt :: "nat \<Rightarrow> int \<Rightarrow> bool" where
  "size_gt n i \<longleftrightarrow> 0 \<le> i \<and> i < int n"


section \<open>Opening the data folder\<close>

text \<open>
  \<open>names\<close> is what \<^verbatim>\<open>readdir\<close> yields, in its order.  A name that is empty or starts with a dot is skipped.
\<close>

definition is_dot :: "bytes \<Rightarrow> bool" where
  "is_dot name \<longleftrightarrow> name = [] \<or> hd name = 46"

fun read_folder :: "bytes list \<Rightarrow> StorageEngine \<Rightarrow> StorageEngine option" where
  "read_folder [] eng = Some eng"
| "read_folder (name # names) eng =
    (if is_dot name then read_folder names eng
     else
       do { file \<leftarrow> File_new (data_folder eng) name;
            let l = level_id file;
            read_folder names
              (eng\<lparr>level_files := lm_set (level_files eng) l (lm_at (level_files eng) l @ [file]),
                   files_map := (files_map eng)(file_id file \<mapsto> file),
                   last_file_id := max (last_file_id eng) (file_id file)\<rparr>) })"

definition StorageEngine_new :: "disk \<Rightarrow> bytes list \<Rightarrow> int \<Rightarrow> StorageEngine option" where
  "StorageEngine_new d names limit =
    do { eng \<leftarrow> read_folder names \<lparr>last_file_id = -1, level0_files_number_limit = limit, level_files = [],
                                   files_map = Map.empty, data_folder = d, compact_notified = 0\<rparr>;
         Some (eng\<lparr>level_files := map (\<lambda>(l, fs). (l, sort_key lower_bound fs)) (level_files eng)\<rparr>) }"


section \<open>Operations\<close>

text \<open>\<^verbatim>\<open>fopen\<close> with mode \<^verbatim>\<open>"w"\<close> leaves an empty file until the stream is closed.\<close>

definition NewWritableFile :: "StorageEngine \<Rightarrow> int \<Rightarrow> (int \<times> bytes \<times> StorageEngine) option" where
  "NewWritableFile eng level =
    do { let fid = last_file_id eng + 1;
         if \<not> fid < 2 ^ 31 then None
         else do { name \<leftarrow> FileName level fid;
                   Some (fid, name, eng\<lparr>last_file_id := fid, data_folder := (data_folder eng)(FilePath name \<mapsto> [])\<rparr>) } }"

definition write_file :: "StorageEngine \<Rightarrow> bytes \<Rightarrow> bytes \<Rightarrow> StorageEngine" where
  "write_file eng name img = eng\<lparr>data_folder := (data_folder eng)(FilePath name \<mapsto> img)\<rparr>"

text \<open>Files of a level are kept by lower bound; the new one goes before the first that is not below it.\<close>

definition insert_file :: "File \<Rightarrow> File list \<Rightarrow> File list" where
  "insert_file file fs =
    takeWhile (\<lambda>g. lower_bound g < lower_bound file) fs @ file # dropWhile (\<lambda>g. lower_bound g < lower_bound file) fs"

definition add_to_maps :: "File \<Rightarrow> StorageEngine \<Rightarrow> StorageEngine" where
  "add_to_maps file eng =
    eng\<lparr>level_files := lm_set (level_files eng) (level_id file) (insert_file file (lm_at (level_files eng) (level_id file))),
        files_map := (files_map eng)(file_id file \<mapsto> file)\<rparr>"

definition AddFile :: "StorageEngine \<Rightarrow> bytes \<Rightarrow> StorageEngine option" where
  "AddFile eng name =
    do { file \<leftarrow> File_new (data_folder eng) name;
         let eng1 = add_to_maps file eng;
         let eng2 = eng1\<lparr>level_files := lm_touch (level_files eng1) 0\<rparr>;
         Some (if size_gt (length (lm_at (level_files eng2) 0)) (level0_files_number_limit eng2)
               then eng2\<lparr>compact_notified := compact_notified eng2 + 1\<rparr> else eng2) }"

definition contains_in :: "bytes \<Rightarrow> File list \<Rightarrow> File list" where
  "contains_in key fs =
    sort_key (\<lambda>f. - file_id f) (filter (\<lambda>f. key \<le> upper_bound f) (takeWhile (\<lambda>f. lower_bound f \<le> key) fs))"

definition GetContainsFiles :: "StorageEngine \<Rightarrow> bytes \<Rightarrow> File list list" where
  "GetContainsFiles eng key = map (\<lambda>item. contains_in key (snd item)) (level_files eng)"

definition LoadKeyOffset :: "host \<Rightarrow> StorageEngine \<Rightarrow> int \<Rightarrow> key_table \<Rightarrow> key_table option" where
  "LoadKeyOffset host eng fid key_offset = do { f \<leftarrow> files_map eng fid; LoadKeyOffset_file host f key_offset }"

definition GetValueByOffset :: "StorageEngine \<Rightarrow> int \<Rightarrow> u32 \<Rightarrow> bytes option" where
  "GetValueByOffset eng fid offset = do { f \<leftarrow> files_map eng fid; GetValueByOffset_file f offset }"

end
