(* ===== verification/Engine_Correct.thy ===== *)
theory Engine_Correct
  imports Storage_Engine "HOL-Library.Multiset"
begin

text \<open>
  Correctness of the lookups of the storage engine.  \<open>eng_ok\<close> is the invariant of the two file maps, with
  the contents of every file as a ghost function of its id; \<open>eng_lookup\<close> is what the store means: the levels
  in order, and within a level the newest file first.
\<close>

section \<open>Invariant and meaning\<close>

definition newest_first :: "File list \<Rightarrow> File list" where
  "newest_first fs = sort_key (\<lambda>f. - file_id f) fs"

definition file_ok :: "host \<Rightarrow> iteration \<Rightarrow> StorageEngine \<Rightarrow> (int \<Rightarrow> kv list) \<Rightarrow> File \<Rightarrow> bool" where
  "file_ok host iter eng cont f \<longleftrightarrow> files_map eng (file_id f) = Some f \<and> 0 \<le> file_id f \<and> file_id f \<le> last_file_id eng \<and>
    holds_image host iter f (cont (file_id f))"

definition level_ok :: "int \<times> File list \<Rightarrow> bool" where
  "level_ok item \<longleftrightarrow> 0 \<le> fst item \<and> sorted (map lower_bound (snd item)) \<and> (\<forall>f \<in> set (snd item). level_id f = fst item) \<and>
    (1 \<le> fst item \<longrightarrow> sorted_wrt (\<lambda>f g. upper_bound f < lower_bound g) (snd item))"

definition all_files :: "StorageEngine \<Rightarrow> File list" where
  "all_files eng = concat (map snd (level_files eng))"

definition eng_ok :: "host \<Rightarrow> iteration \<Rightarrow> StorageEngine \<Rightarrow> (int \<Rightarrow> kv list) \<Rightarrow> bool" where
  "eng_ok host iter eng cont \<longleftrightarrow> sorted_wrt (<) (map fst (level_files eng)) \<and> (\<forall>item \<in> set (level_files eng). level_ok item) \<and>
    distinct (map file_id (all_files eng)) \<and> (\<forall>f \<in> set (all_files eng). file_ok host iter eng cont f) \<and> -1 \<le> last_file_id eng"

definition eng_lookup :: "StorageEngine \<Rightarrow> (int \<Rightarrow> kv list) \<Rightarrow> bytes \<Rightarrow> bytes option" where
  "eng_lookup eng cont k =
    map_of (concat (map (\<lambda>f. cont (file_id f)) (concat (map (\<lambda>item. newest_first (snd item)) (level_files eng))))) k"


section \<open>The files that may contain a key\<close>

lemma map_of_concat_filter:
  assumes "\<forall>f \<in> set fs. \<not> R f \<longrightarrow> map_of (c f) k = None"
  shows "map_of (concat (map c (filter R fs))) k = map_of (concat (map c fs)) k"
  using assms by (induction fs) (auto simp: map_add_def split: option.splits)

lemma sorted_takeWhile_le: "sorted (map g xs) \<Longrightarrow> takeWhile (\<lambda>x. g x \<le> k) xs = filter (\<lambda>x. g x \<le> (k :: 'o::linorder)) xs"
proof (induction xs)
  case (Cons x xs)
  show ?case
  proof (cases "g x \<le> k")
    case False
    then have "\<forall>y \<in> set (x # xs). \<not> g y \<le> k" using Cons.prems by auto
    then have "filter (\<lambda>x. g x \<le> k) (x # xs) = []" unfolding filter_empty_conv .
    with False show ?thesis by simp
  qed (use Cons in simp)
qed simp

lemma image_key_range:
  assumes "holds_image host iter f es" "k \<in> fst ` set es"
  shows "lower_bound f \<le> k \<and> k \<le> upper_bound f"
proof -
  have s: "sorted_wrt (<) (map fst es)" and ne: "es \<noteq> []" and b: "lower_bound f = fst (hd es)" "upper_bound f = fst (last es)"
    using assms(1) by (simp_all add: holds_image_def content_ok_def)
  obtain pre v post where es: "es = pre @ (k, v) # post" using assms(2) by (metis imageE prod.collapse split_list)
  have "fst (hd es) \<le> k" using s es by (cases pre) auto
  moreover have "k < fst (last post)" if "post \<noteq> []" using s es last_in_set [OF that] by (auto simp: sorted_wrt_append)
  then have "k \<le> fst (last es)" using es by (cases "post = []") auto
  ultimately show ?thesis by (simp add: b)
qed

lemma contains_in_lookup:
  assumes "sorted (map lower_bound fs)" "\<forall>f \<in> set fs. holds_image host iter f (cont (file_id f))"
  shows "contains_in k fs = filter (\<lambda>f. lower_bound f \<le> k \<and> k \<le> upper_bound f) (newest_first fs)"
    "map_of (concat (map (\<lambda>f. cont (file_id f)) (contains_in k fs))) k =
      map_of (concat (map (\<lambda>f. cont (file_id f)) (newest_first fs))) k"
proof -
  show eq: "contains_in k fs = filter (\<lambda>f. lower_bound f \<le> k \<and> k \<le> upper_bound f) (newest_first fs)"
    by (simp add: contains_in_def newest_first_def sorted_takeWhile_le [OF assms(1)] filter_sort conj_commute)
  have "map_of (cont (file_id f)) k = None" if "f \<in> set (newest_first fs)" "\<not> (lower_bound f \<le> k \<and> k \<le> upper_bound f)" for f
  proof -
    have "holds_image host iter f (cont (file_id f))" using that(1) assms(2) by (simp add: newest_first_def)
    from image_key_range [OF this, of k] that(2) show ?thesis by (auto simp: map_of_eq_None_iff)
  qed
  then show "map_of (concat (map (\<lambda>f. cont (file_id f)) (contains_in k fs))) k =
      map_of (concat (map (\<lambda>f. cont (file_id f)) (newest_first fs))) k"
    unfolding eq by (intro map_of_concat_filter) blast
qed

lemma eng_okD:
  assumes "eng_ok host iter eng cont" "item \<in> set (level_files eng)"
  shows "level_ok item" "\<forall>f \<in> set (snd item). file_ok host iter eng cont f"
  using assms by (auto simp: eng_ok_def all_files_def)

lemma GetContainsFiles_lookup:
  assumes "eng_ok host iter eng cont"
  shows "map_of (concat (map (\<lambda>f. cont (file_id f)) (concat (GetContainsFiles eng k)))) k = eng_lookup eng cont k"
proof -
  have "map_of (concat (map (\<lambda>f. cont (file_id f)) (concat (map (\<lambda>item. contains_in k (snd item)) m)))) k =
      map_of (concat (map (\<lambda>f. cont (file_id f)) (concat (map (\<lambda>item. newest_first (snd item)) m)))) k"
    if "set m \<subseteq> set (level_files eng)" for m
    using that
  proof (induction m)
    case (Cons item m)
    have "sorted (map lower_bound (snd item))" "\<forall>f \<in> set (snd item). holds_image host iter f (cont (file_id f))"
      using eng_okD [OF assms, of item] Cons.prems by (auto simp: level_ok_def file_ok_def)
    note item = contains_in_lookup(2) [OF this, of k]
    have "set m \<subseteq> set (level_files eng)" using Cons.prems by simp
    from Cons.IH [OF this] item show ?case
      by (simp only: list.map concat.simps map_append concat_append map_of_append map_add_def)
  qed simp
  from this [of "level_files eng"] show ?thesis by (simp add: GetContainsFiles_def eng_lookup_def)
qed

lemma GetContainsFiles_ok:
  assumes "eng_ok host iter eng cont" "f \<in> set (concat (GetContainsFiles eng k))"
  shows "file_ok host iter eng cont f"
proof -
  obtain item where "item \<in> set (level_files eng)" "f \<in> set (contains_in k (snd item))"
    using assms(2) by (auto simp: GetContainsFiles_def)
  then have "f \<in> set (snd item)" by (auto simp: contains_in_def dest: set_takeWhileD)
  with \<open>item \<in> set (level_files eng)\<close> show ?thesis using eng_okD(2) [OF assms(1)] by blast
qed


section \<open>Adding a file\<close>

lemma mset_insert_file: "mset (insert_file f fs) = add_mset f (mset fs)"
proof -
  let ?P = "\<lambda>g. lower_bound g < lower_bound f"
  have "mset (takeWhile ?P fs) + mset (dropWhile ?P fs) = mset fs" by (metis mset_append takeWhile_dropWhile_id)
  then show ?thesis by (simp add: insert_file_def)
qed

lemma set_insert_file: "set (insert_file f fs) = insert f (set fs)"
  using mset_insert_file [of f fs] by (metis set_mset_add_mset_insert set_mset_mset)

lemma sorted_insert_file:
  assumes "sorted (map lower_bound fs)"
  shows "sorted (map lower_bound (insert_file f fs))"
proof -
  let ?P = "\<lambda>g. lower_bound g < lower_bound f"
  have s: "sorted (map lower_bound (takeWhile ?P fs) @ map lower_bound (dropWhile ?P fs))"
    using assms by (metis map_append takeWhile_dropWhile_id)
  have "lower_bound f \<le> lower_bound g" if g: "g \<in> set (dropWhile ?P fs)" for g
  proof (cases "dropWhile ?P fs")
    case (Cons x xs)
    then have "\<not> ?P x" by (metis hd_dropWhile list.distinct(1) list.sel(1))
    then show ?thesis using s g Cons by (auto simp: sorted_append)
  next
    case Nil
    with g show ?thesis by (metis empty_iff list.set(1))
  qed
  with s show ?thesis by (auto simp: insert_file_def sorted_append dest: set_takeWhileD)
qed

lemma newest_first_insert:
  assumes "\<forall>g \<in> set fs. file_id g < file_id f" "distinct (map file_id fs)"
  shows "newest_first (insert_file f fs) = f # newest_first fs"
  unfolding newest_first_def
proof (rule sort_key_inj_key_eq)
  show "mset (insert_file f fs) = mset (f # sort_key (\<lambda>f. - file_id f) fs)" by (simp add: mset_insert_file)
  show "inj_on (\<lambda>f. - file_id f) (set (insert_file f fs))"
    using assms by (auto simp: set_insert_file inj_on_def distinct_map)
  show "sorted (map (\<lambda>f. - file_id f) (f # sort_key (\<lambda>f. - file_id f) fs))"
    using assms(1) by (auto simp: order.strict_implies_order)
qed

text \<open>Level 0 comes first.\<close>

lemma lm_set_0:
  assumes "\<forall>item \<in> set m. 0 \<le> fst item"
  shows "lm_set m 0 fs = (0, fs) # dropWhile (\<lambda>item. fst item \<le> 0) m"
  using assms by (cases m) (auto simp: lm_set_def put_key_def)

lemma sorted_dropWhile_fst:
  assumes "sorted_wrt (<) (map fst m)" "item \<in> set (dropWhile (\<lambda>item. fst item \<le> (0::int)) m)"
  shows "0 < fst item"
  using assms
proof (induction m)
  case (Cons x m)
  then show ?case by (cases "fst x \<le> 0") auto
qed simp

lemma lm_split_0:
  assumes "\<forall>item \<in> set m. 0 \<le> fst item" "sorted_wrt (<) (map fst m)"
  shows "map_of m 0 = None \<and> dropWhile (\<lambda>item. fst item \<le> 0) m = m \<and> lm_at m 0 = [] \<or>
    m = (0, lm_at m 0) # dropWhile (\<lambda>item. fst item \<le> 0) m"
proof (cases m)
  case (Cons item m')
  obtain l fs where item: "item = (l, fs)" by (cases item)
  show ?thesis
  proof (cases "l = 0")
    case True
    have "\<forall>x \<in> set m'. \<not> fst x \<le> 0" using assms(2) by (auto simp: Cons item True)
    then have "dropWhile (\<lambda>item. fst item \<le> 0) m' = m'" by (cases m') auto
    then show ?thesis by (simp add: Cons item True lm_at_def)
  next
    case False
    with assms have "0 < l" "\<forall>x \<in> set m'. 0 < fst x" by (auto simp: Cons item)
    then have "map_of m 0 = None" by (auto simp: Cons item map_of_eq_None_iff)
    with \<open>0 < l\<close> show ?thesis by (simp add: Cons item lm_at_def)
  qed
qed (simp add: lm_at_def)

text \<open>A file that is written but not yet in the maps: its id is new, and above those of level 0.\<close>

definition pending :: "host \<Rightarrow> iteration \<Rightarrow> StorageEngine \<Rightarrow> int \<Rightarrow> bytes \<Rightarrow> kv list \<Rightarrow> bool" where
  "pending host iter eng fid name es \<longleftrightarrow> data_folder eng (FilePath name) = Some (file_image host iter es) \<and>
    FileName 0 fid = Some name \<and> 0 \<le> fid \<and> fid \<le> last_file_id eng \<and> content_ok es \<and> length (file_image host iter es) < 2 ^ 32 \<and>
    (\<forall>f \<in> set (all_files eng). file_id f \<noteq> fid \<and> (level_id f = 0 \<longrightarrow> file_id f < fid))"

lemma NewWritableFile_ok:
  assumes "eng_ok host iter eng cont" "NewWritableFile eng 0 = Some (fid, name, eng1)"
    and "content_ok es" "length (file_image host iter es) < 2 ^ 32"
  defines "eng2 \<equiv> write_file eng1 name (file_image host iter es)"
  shows "eng_ok host iter eng2 cont" "pending host iter eng2 fid name es" "eng_lookup eng2 cont = eng_lookup eng cont"
proof -
  have fid: "fid = last_file_id eng + 1" "FileName 0 fid = Some name" "level_files eng2 = level_files eng" "files_map eng2 = files_map eng"
    "last_file_id eng2 = fid" "data_folder eng2 (FilePath name) = Some (file_image host iter es)"
    using assms(2) by (auto simp: NewWritableFile_def Let_def eng2_def write_file_def split: if_splits bind_splits)
  have all: "all_files eng2 = all_files eng" by (simp add: all_files_def fid(3))
  show "eng_ok host iter eng2 cont" using assms(1) fid by (auto simp: eng_ok_def all file_ok_def)
  show "pending host iter eng2 fid name es" using assms(1,3,4) fid by (auto simp: pending_def eng_ok_def all file_ok_def)
  show "eng_lookup eng2 cont = eng_lookup eng cont" by (simp add: eng_lookup_def fid(3) fun_eq_iff)
qed

lemma newest_first_Nil [simp]: "newest_first [] = []"
  by (simp add: newest_first_def)

lemma newest_first_cong: "set (newest_first fs) = set fs"
  by (simp add: newest_first_def)

lemma concat_map_cong: "(\<And>f. f \<in> set fs \<Longrightarrow> c f = d f) \<Longrightarrow> concat (map c fs) = concat (map d fs)"
  by (metis map_eq_conv)

lemma level_files_0:
  assumes "eng_ok host iter eng cont"
  obtains f0 rest where "lm_at (level_files eng) 0 = f0" "level_files eng = rest \<and> f0 = [] \<or> level_files eng = (0, f0) # rest"
    "\<And>fs. lm_set (level_files eng) 0 fs = (0, fs) # rest" "\<forall>item \<in> set rest. 0 < fst item"
proof -
  let ?m = "level_files eng" and ?rest = "dropWhile (\<lambda>item. fst item \<le> 0) (level_files eng)"
  have m: "\<forall>item \<in> set ?m. 0 \<le> fst item" "sorted_wrt (<) (map fst ?m)"
    using assms by (auto simp: eng_ok_def level_ok_def)
  have "\<forall>item \<in> set ?rest. 0 < fst item"
    using lm_split_0 [OF m] m(2) sorted_dropWhile_fst [of ?m] by auto
  then show thesis using that [of "lm_at ?m 0" ?rest] lm_split_0 [OF m] lm_set_0 [OF m(1)] by auto
qed

lemma AddFile_pending:
  assumes ok: "eng_ok host iter eng cont" and p: "pending host iter eng fid name es"
  shows "\<exists>eng'. AddFile eng name = Some eng' \<and> eng_ok host iter eng' (cont(fid := es)) \<and>
    (\<forall>k. eng_lookup eng' (cont(fid := es)) k = (case map_of es k of Some v \<Rightarrow> Some v | None \<Rightarrow> eng_lookup eng cont k)) \<and>
    last_file_id eng' = last_file_id eng \<and> data_folder eng' = data_folder eng \<and>
    level0_files_number_limit eng' = level0_files_number_limit eng \<and>
    (\<exists>f. files_map eng' = (files_map eng)(fid \<mapsto> f) \<and> set (all_files eng') = insert f (set (all_files eng)) \<and>
      level_id f = 0 \<and> file_id f = fid \<and> file_name f = name)"
proof -
  obtain f where f: "File_new (data_folder eng) name = Some f" "holds_image host iter f es" "level_id f = 0" "file_id f = fid" "file_name f = name"
    using File_new_image [of 0 fid name "data_folder eng" host iter es] p by (auto simp: pending_def)
  obtain f0 rest where at: "lm_at (level_files eng) 0 = f0" and m: "level_files eng = rest \<and> f0 = [] \<or> level_files eng = (0, f0) # rest"
    and set0: "\<And>fs. lm_set (level_files eng) 0 fs = (0, fs) # rest" and pos: "\<forall>item \<in> set rest. 0 < fst item"
    using level_files_0 [OF ok] by blast
  define eng' where "eng' = (if size_gt (length (insert_file f f0)) (level0_files_number_limit eng)
    then (add_to_maps f eng)\<lparr>compact_notified := compact_notified eng + 1\<rparr> else add_to_maps f eng)"
  have lf: "level_files eng' = (0, insert_file f f0) # rest" "files_map eng' = (files_map eng)(fid \<mapsto> f)" "last_file_id eng' = last_file_id eng"
    using f(3,4) by (auto simp: eng'_def add_to_maps_def set0 at)
  have run: "AddFile eng name = Some eng'"
    using f by (auto simp: AddFile_def add_to_maps_def set0 at eng'_def lm_touch_def lm_at_def [of "_ # _"] Let_def)
  have all: "mset (all_files eng') = add_mset f (mset (all_files eng))" using m by (auto simp: all_files_def lf mset_insert_file)
  have set_all: "set (all_files eng') = insert f (set (all_files eng))" using all by (metis set_mset_add_mset_insert set_mset_mset)
  have old: "\<forall>g \<in> set (all_files eng). file_id g \<noteq> fid" using p by (simp add: pending_def)
  have "mset (map file_id (all_files eng')) = mset (fid # map file_id (all_files eng))" using all f(4) by simp
  then have dist: "distinct (map file_id (all_files eng'))"
    using ok old mset_eq_imp_distinct_iff [of "map file_id (all_files eng')" "fid # map file_id (all_files eng)"] by (auto simp: eng_ok_def)
  have l0: "level_ok (0, f0)" "\<forall>g \<in> set f0. g \<in> set (all_files eng)"
    using m ok by (auto simp: eng_ok_def level_ok_def all_files_def)
  have "level_ok (0, insert_file f f0)" using l0(1) f(3) sorted_insert_file by (auto simp: level_ok_def set_insert_file)
  moreover have "\<forall>item \<in> set rest. level_ok item" "sorted_wrt (<) (map fst rest)" using m ok by (auto simp: eng_ok_def)
  moreover have "\<forall>g \<in> set (all_files eng'). file_ok host iter eng' (cont(fid := es)) g"
    using ok p f old by (auto simp: set_all eng_ok_def file_ok_def lf pending_def)
  ultimately have "eng_ok host iter eng' (cont(fid := es))" using ok dist pos by (simp add: eng_ok_def lf)
  moreover have "eng_lookup eng' (cont(fid := es)) k = (case map_of es k of Some v \<Rightarrow> Some v | None \<Rightarrow> eng_lookup eng cont k)" for k
  proof -
    have "\<forall>g \<in> set f0. file_id g < file_id f" "distinct (map file_id f0)"
      using l0 p f(4) m ok by (auto simp: level_ok_def pending_def eng_ok_def all_files_def)
    note nf = newest_first_insert [OF this]
    let ?files = "concat (map (\<lambda>item. newest_first (snd item)) (level_files eng))"
    have "concat (map (\<lambda>item. newest_first (snd item)) (level_files eng')) = f # ?files"
      using m nf by (auto simp: lf)
    moreover have "concat (map (\<lambda>g. (cont(fid := es)) (file_id g)) ?files) = concat (map (\<lambda>g. cont (file_id g)) ?files)"
      using old by (intro concat_map_cong) (auto simp: newest_first_cong all_files_def)
    ultimately show ?thesis
      using f(4) by (simp only: eng_lookup_def list.map concat.simps map_of_append map_add_def fun_upd_same)
  qed
  moreover have "data_folder eng' = data_folder eng" "level0_files_number_limit eng' = level0_files_number_limit eng"
    by (simp_all add: eng'_def add_to_maps_def)
  ultimately show ?thesis using run lf(2,3) set_all f(3-5) by blast
qed


section \<open>The size of an image\<close>

lemma entries_of_Cons: "entries_of (e # es) = entry_of e @ entries_of es"
  by (simp add: entries_of_def)

lemma entries_of_append: "entries_of (xs @ ys) = entries_of xs @ entries_of ys"
  by (simp add: entries_of_def)

lemma length_entry_of: "length (wrap_key (fst e)) + 1 \<le> length (entry_of e)" "2 \<le> length (entry_of e)"
proof -
  have "1 \<le> length (wrap_key k)" for k by (simp add: wrap_key_length EncodeVarint32_eq Suc_le_eq)
  from this [of "fst e"] this [of "snd e"]
  show "length (wrap_key (fst e)) + 1 \<le> length (entry_of e)" "2 \<le> length (entry_of e)"
    by (simp_all add: entry_of_def entry_bytes_def)
qed

lemma entries_of_bounds:
  "2 * length es \<le> length (entries_of es)"
  "sum_list (map (\<lambda>e. length (wrap_key (fst e))) es) + length es \<le> length (entries_of es)"
proof (induction es)
  case (Cons e es)
  case 1
  with Cons length_entry_of(2) [of e] show ?case by (simp add: entries_of_Cons)
next
  case (Cons e es)
  case 2
  with Cons length_entry_of(1) [of e] show ?case by (simp add: entries_of_Cons)
qed (simp_all add: entries_of_def)

lemma member_entries: "e \<in> set es \<Longrightarrow> length (wrap_key (fst e)) \<le> length (entries_of es)"
  using length_entry_of(1) [of e] by (auto simp: entries_of_append entries_of_Cons dest!: split_list)

lemma index_length:
  assumes "iterates iter" "content_ok es"
  shows "length (concat (map index_item (iter (file_table es)))) \<le> length (entries_of es) + 5 * length es"
proof -
  note it = iter_file_table [OF assms]
  have keys: "set (map fst (iter (file_table es))) = fst ` set es"
    using arg_cong [OF it(1), of dom] by (simp add: dom_map_of_conv_image_fst file_table_def dom_table_from)
  have item: "length (index_item i) \<le> length (wrap_key (fst i)) + 5" for i
    using length_EncodeVarint32 [of "snd i"] by (simp add: index_item_def wrap_key_def)
  have d: "distinct (map fst es)" using assms(2) by (auto simp: content_ok_def strict_sorted_iff)
  have perm: "mset (map fst (iter (file_table es))) = mset (map fst es)"
    using keys it(2) d set_eq_iff_mset_eq_distinct [of "map fst (iter (file_table es))" "map fst es"] by simp
  let ?w = "\<lambda>k :: bytes. length (wrap_key k) + 5"
  have "length (concat (map index_item (iter (file_table es)))) \<le> sum_list (map (\<lambda>i. ?w (fst i)) (iter (file_table es)))"
    using item by (simp add: length_concat o_def sum_list_mono)
  also have "\<dots> = sum_list (map ?w (map fst (iter (file_table es))))" by (simp add: o_def)
  also have "\<dots> = sum_list (map ?w (map fst es))" using arg_cong [OF perm, of "\<lambda>M. sum_mset (image_mset ?w M)"]
    by (simp only: sum_mset_sum_list [symmetric] mset_map)
  also have "\<dots> = sum_list (map (\<lambda>e. length (wrap_key (fst e))) es) + 5 * length es"
    by (induction es) (simp_all add: o_def)
  finally show ?thesis using entries_of_bounds(2) [of es] by simp
qed

lemma image_length:
  assumes "iterates iter" "content_ok es"
  shows "length (file_image host iter es) \<le> 7 * length (entries_of es) + 4"
proof -
  have "es \<noteq> []" using assms(2) by (simp add: content_ok_def)
  then have "length (header_of es) \<le> 2 * length (entries_of es)"
    using member_entries [of "hd es" es] member_entries [of "last es" es] by (simp add: header_of_def)
  then show ?thesis using index_length [OF assms] entries_of_bounds(1) [of es] by (simp add: file_image_def)
qed

lemma image_bound:
  assumes "iterates iter" "content_ok es" "int (length (entries_of es)) < 2 ^ 28"
  shows "length (file_image host iter es) < 2 ^ 32"
  using image_length [OF assms(1,2), of host] assms(3) by simp

end
