(* ===== verification/LRU_Cache.thy ===== *)
theory LRU_Cache
  imports File_Format "HOL-Library.Multiset"
begin

text \<open>
  \<^verbatim>\<open>structure/cache.cpp\<close>: the cache of the key-offset tables of data files.

  A doubly linked list between two sentinels, most recent first, with a hash table from file ids to nodes.
  Nodes live in an explicit store; a pointer is \<open>None\<close> for \<^verbatim>\<open>NULL\<close>.  An operation that dereferences a null or
  dangling pointer is \<open>None\<close>.  The mutex makes every operation atomic.
\<close>

section \<open>State and operations\<close>

record LRUCacheNode =
  lru_key :: int
  lru_value :: key_table
  lru_prev :: "nat option"
  lru_next :: "nat option"

record LRUCache =
  store :: "nat \<Rightarrow> LRUCacheNode option"
  next_addr :: nat
  cache_map :: "int \<Rightarrow> nat option"
  cache_head :: nat
  cache_tail :: nat
  capacity :: int
  count :: int

definition fresh_node :: LRUCacheNode where
  "fresh_node = \<lparr>lru_key = 0, lru_value = Map.empty, lru_prev = None, lru_next = None\<rparr>"

definition LRUCache_new :: "int \<Rightarrow> LRUCache" where
  "LRUCache_new n =
    \<lparr>store = [0 \<mapsto> fresh_node\<lparr>lru_next := Some 1\<rparr>, 1 \<mapsto> fresh_node\<lparr>lru_prev := Some 0\<rparr>],
     next_addr = 2, cache_map = Map.empty, cache_head = 0, cache_tail = 1, capacity = n, count = 0\<rparr>"

definition set_next :: "nat option \<Rightarrow> nat option \<Rightarrow> LRUCache \<Rightarrow> LRUCache option" where
  "set_next p v c =
    do { a \<leftarrow> p; nd \<leftarrow> store c a; Some (c\<lparr>store := (store c)(a \<mapsto> nd\<lparr>lru_next := v\<rparr>)\<rparr>) }"

definition set_prev :: "nat option \<Rightarrow> nat option \<Rightarrow> LRUCache \<Rightarrow> LRUCache option" where
  "set_prev p v c =
    do { a \<leftarrow> p; nd \<leftarrow> store c a; Some (c\<lparr>store := (store c)(a \<mapsto> nd\<lparr>lru_prev := v\<rparr>)\<rparr>) }"

definition DetachNode :: "nat \<Rightarrow> LRUCache \<Rightarrow> LRUCache option" where
  "DetachNode node c =
    do { nd \<leftarrow> store c node;
         c1 \<leftarrow> set_next (lru_prev nd) (lru_next nd) c;
         nd1 \<leftarrow> store c1 node;
         set_prev (lru_next nd1) (lru_prev nd1) c1 }"

definition InsertToFront :: "nat \<Rightarrow> LRUCache \<Rightarrow> LRUCache option" where
  "InsertToFront node c =
    do { hd \<leftarrow> store c (cache_head c);
         c1 \<leftarrow> set_next (Some node) (lru_next hd) c;
         c2 \<leftarrow> set_prev (Some node) (Some (cache_head c)) c1;
         c3 \<leftarrow> set_next (Some (cache_head c)) (Some node) c2;
         nd \<leftarrow> store c3 node;
         set_prev (lru_next nd) (Some node) c3 }"

definition RemoveLRUNode :: "LRUCache \<Rightarrow> LRUCache option" where
  "RemoveLRUNode c =
    do { tl \<leftarrow> store c (cache_tail c);
         node \<leftarrow> lru_prev tl;
         c1 \<leftarrow> DetachNode node c;
         nd \<leftarrow> store c1 node;
         Some (c1\<lparr>cache_map := (cache_map c1)(lru_key nd := None), store := (store c1)(node := None), count := count c1 - 1\<rparr>) }"

definition Cache_Get :: "LRUCache \<Rightarrow> int \<Rightarrow> bytes \<Rightarrow> (u32 \<times> bool \<times> LRUCache) option" where
  "Cache_Get c key key_str =
    (case cache_map c key of
       None \<Rightarrow> Some (0, False, c)
     | Some node \<Rightarrow>
        do { nd \<leftarrow> store c node;
             case lru_value nd key_str of
               None \<Rightarrow> Some (0, True, c)
             | Some offset \<Rightarrow>
                do { c1 \<leftarrow> DetachNode node c; c2 \<leftarrow> InsertToFront node c1; Some (offset, True, c2) } })"

definition set_value :: "nat \<Rightarrow> key_table \<Rightarrow> LRUCache \<Rightarrow> LRUCache option" where
  "set_value a v c = do { nd \<leftarrow> store c a; Some (c\<lparr>store := (store c)(a \<mapsto> nd\<lparr>lru_value := v\<rparr>)\<rparr>) }"

definition Cache_Set :: "LRUCache \<Rightarrow> int \<Rightarrow> key_table \<Rightarrow> LRUCache option" where
  "Cache_Set c key value =
    (case cache_map c key of
       None \<Rightarrow>
         do { let node = next_addr c;
              let c1 = c\<lparr>store := (store c)(node \<mapsto> fresh_node), next_addr := Suc node\<rparr>;
              c2 \<leftarrow> (if count c1 = capacity c1 then RemoveLRUNode c1 else Some c1);
              nd \<leftarrow> store c2 node;
              let c3 = c2\<lparr>store := (store c2)(node \<mapsto> nd\<lparr>lru_key := key, lru_value := value\<rparr>),
                          cache_map := (cache_map c2)(key \<mapsto> node)\<rparr>;
              c4 \<leftarrow> InsertToFront node c3;
              Some (c4\<lparr>count := count c4 + 1\<rparr>) }
     | Some node \<Rightarrow>
         do { c1 \<leftarrow> DetachNode node c;
              c2 \<leftarrow> set_value node value c1;
              InsertToFront node c2 })"

definition Cache_Clear :: "LRUCache \<Rightarrow> LRUCache option" where
  "Cache_Clear c =
    do { let c1 = c\<lparr>store := (\<lambda>a. if a \<in> ran (cache_map c) then None else store c a), cache_map := Map.empty, count := 0\<rparr>;
         c2 \<leftarrow> set_next (Some (cache_head c1)) (Some (cache_tail c1)) c1;
         set_prev (Some (cache_tail c1)) (Some (cache_head c1)) c2 }"


section \<open>The linked list\<close>

definition nxt :: "LRUCache \<Rightarrow> nat \<Rightarrow> nat option" where
  "nxt c a = Option.bind (store c a) lru_next"

definition prv :: "LRUCache \<Rightarrow> nat \<Rightarrow> nat option" where
  "prv c a = Option.bind (store c a) lru_prev"

definition item :: "LRUCache \<Rightarrow> nat \<Rightarrow> (int \<times> key_table) option" where
  "item c a = map_option (\<lambda>nd. (lru_key nd, lru_value nd)) (store c a)"

text \<open>Two states that differ in links only.\<close>

definition links_only :: "LRUCache \<Rightarrow> LRUCache \<Rightarrow> bool" where
  "links_only c c' \<longleftrightarrow> item c' = item c \<and> next_addr c' = next_addr c \<and> cache_map c' = cache_map c \<and>
    cache_head c' = cache_head c \<and> cache_tail c' = cache_tail c \<and> capacity c' = capacity c \<and> count c' = count c"

lemma links_only_refl [simp]: "links_only c c"
  by (simp add: links_only_def)

lemma links_only_trans: "links_only a b \<Longrightarrow> links_only b c \<Longrightarrow> links_only a c"
  by (simp add: links_only_def)

lemma item_dom: "item c a = None \<longleftrightarrow> store c a = None"
  by (simp add: item_def)

lemma set_next_ok:
  assumes "item c a \<noteq> None"
  shows "\<exists>c'. set_next (Some a) v c = Some c' \<and> links_only c c' \<and> nxt c' = (nxt c)(a := v) \<and> prv c' = prv c"
  using assms by (auto simp: set_next_def links_only_def item_def nxt_def prv_def fun_eq_iff split: option.splits)

lemma set_prev_ok:
  assumes "item c a \<noteq> None"
  shows "\<exists>c'. set_prev (Some a) v c = Some c' \<and> links_only c c' \<and> nxt c' = nxt c \<and> prv c' = (prv c)(a := v)"
  using assms by (auto simp: set_prev_def links_only_def item_def nxt_def prv_def fun_eq_iff split: option.splits)

lemma DetachNode_ok:
  assumes "item c a \<noteq> None" "prv c a = Some p" "nxt c a = Some n" "item c p \<noteq> None" "item c n \<noteq> None" "p \<noteq> a"
  shows "\<exists>c'. DetachNode a c = Some c' \<and> links_only c c' \<and> nxt c' = (nxt c)(p := Some n) \<and> prv c' = (prv c)(n := Some p)"
proof -
  obtain nd where nd: "store c a = Some nd" "lru_prev nd = Some p" "lru_next nd = Some n"
    using assms(1-3) by (auto simp: item_def prv_def nxt_def)
  obtain c1 where c1: "set_next (Some p) (Some n) c = Some c1" "links_only c c1" "nxt c1 = (nxt c)(p := Some n)" "prv c1 = prv c"
    using set_next_ok [OF assms(4)] by blast
  have "item c1 a \<noteq> None" "item c1 n \<noteq> None" using assms(1,5) c1(2) by (simp_all add: links_only_def)
  then obtain nd1 where nd1: "store c1 a = Some nd1" by (auto simp: item_def)
  have "lru_next nd1 = Some n" "lru_prev nd1 = Some p"
    using fun_cong [OF c1(3), of a] fun_cong [OF c1(4), of a] assms(2,3,6) nd1 by (simp_all add: nxt_def prv_def)
  moreover obtain c2 where "set_prev (Some n) (Some p) c1 = Some c2" "links_only c1 c2" "nxt c2 = nxt c1" "prv c2 = (prv c1)(n := Some p)"
    using set_prev_ok [OF \<open>item c1 n \<noteq> None\<close>] by blast
  ultimately show ?thesis using c1 nd nd1 links_only_trans by (auto simp: DetachNode_def)
qed

lemma InsertToFront_ok:
  assumes "item c a \<noteq> None" "item c (cache_head c) \<noteq> None" "nxt c (cache_head c) = Some n" "item c n \<noteq> None" "a \<noteq> cache_head c"
  shows "\<exists>c'. InsertToFront a c = Some c' \<and> links_only c c' \<and> nxt c' = (nxt c)(a := Some n, cache_head c := Some a) \<and>
    prv c' = (prv c)(a := Some (cache_head c), n := Some a)"
proof -
  obtain hd where hd: "store c (cache_head c) = Some hd" "lru_next hd = Some n"
    using assms(2,3) by (auto simp: item_def nxt_def)
  obtain c1 where 1: "set_next (Some a) (Some n) c = Some c1" "links_only c c1" "nxt c1 = (nxt c)(a := Some n)" "prv c1 = prv c"
    using set_next_ok [OF assms(1)] by blast
  then have "item c1 a \<noteq> None" using assms(1) by (simp add: links_only_def)
  from set_prev_ok [OF this] obtain c2 where 2: "set_prev (Some a) (Some (cache_head c)) c1 = Some c2" "links_only c1 c2" "nxt c2 = nxt c1"
      "prv c2 = (prv c1)(a := Some (cache_head c))" by blast
  then have "item c2 (cache_head c) \<noteq> None" using assms(2) 1(2) by (simp add: links_only_def)
  from set_next_ok [OF this] obtain c3 where 3: "set_next (Some (cache_head c)) (Some a) c2 = Some c3" "links_only c2 c3"
      "nxt c3 = (nxt c2)(cache_head c := Some a)" "prv c3 = prv c2" by blast
  have l: "links_only c c3" using 1(2) 2(2) 3(2) links_only_trans by blast
  then have "item c3 a \<noteq> None" "item c3 n \<noteq> None" using assms(1,4) by (simp_all add: links_only_def)
  then obtain nd where nd: "store c3 a = Some nd" by (auto simp: item_def)
  have "lru_next nd = Some n"
    using fun_cong [OF 3(3), of a] assms(5) nd by (simp add: 2(3) 1(3) nxt_def)
  moreover obtain c4 where 4: "set_prev (Some n) (Some a) c3 = Some c4" "links_only c3 c4" "nxt c4 = nxt c3" "prv c4 = (prv c3)(n := Some a)"
    using set_prev_ok [OF \<open>item c3 n \<noteq> None\<close>] by blast
  ultimately have "InsertToFront a c = Some c4"
    using hd nd 1(1) 2(1) 3(1) by (simp add: InsertToFront_def)
  moreover have "nxt c4 = (nxt c)(a := Some n, cache_head c := Some a)" "prv c4 = (prv c)(a := Some (cache_head c), n := Some a)"
    by (simp_all only: 4 3 2 1)
  ultimately show ?thesis using links_only_trans [OF l 4(2)] by blast
qed

section \<open>Representation\<close>

fun chain :: "(nat \<Rightarrow> nat option) \<Rightarrow> (nat \<Rightarrow> nat option) \<Rightarrow> nat list \<Rightarrow> bool" where
  "chain nx pv [] \<longleftrightarrow> True"
| "chain nx pv [a] \<longleftrightarrow> True"
| "chain nx pv (a # b # xs) \<longleftrightarrow> nx a = Some b \<and> pv b = Some a \<and> chain nx pv (b # xs)"

lemma chain_append: "chain nx pv (xs @ a # ys) \<longleftrightarrow> chain nx pv (xs @ [a]) \<and> chain nx pv (a # ys)"
  by (induction nx pv xs rule: chain.induct) auto

lemma chain_cong:
  assumes "\<forall>x \<in> set (butlast xs). nx' x = nx x" "\<forall>x \<in> set (tl xs). pv' x = pv x"
  shows "chain nx' pv' xs = chain nx pv xs"
  using assms by (induction nx pv xs rule: chain.induct) auto

lemma chain_detach:
  assumes "chain nx pv (pre @ p # a # n # post)" "distinct (pre @ p # a # n # post)"
  shows "chain (nx(p := Some n)) (pv(n := Some p)) (pre @ p # n # post)"
proof -
  have c: "chain nx pv (pre @ [p])" "chain nx pv (n # post)" using assms(1) chain_append [of nx pv pre p "a # n # post"] by simp_all
  have sub: "set (tl (pre @ [p])) \<subseteq> set pre \<union> {p}" by (cases pre) auto
  have "chain (nx(p := Some n)) (pv(n := Some p)) (pre @ [p]) = chain nx pv (pre @ [p])"
    using assms(2) sub by (intro chain_cong) auto
  moreover have "chain (nx(p := Some n)) (pv(n := Some p)) (n # post) = chain nx pv (n # post)"
    using assms(2) by (intro chain_cong) (auto dest: in_set_butlastD split: if_splits)
  ultimately show ?thesis using c by (subst chain_append) simp
qed

lemma chain_front:
  assumes "chain nx pv (h # n # rest)" "distinct (h # a # n # rest)"
  shows "chain (nx(a := Some n, h := Some a)) (pv(a := Some h, n := Some a)) (h # a # n # rest)"
proof -
  have "chain (nx(a := Some n, h := Some a)) (pv(a := Some h, n := Some a)) (n # rest)"
    using assms by (subst chain_cong [where nx = nx and pv = pv]) (auto dest: in_set_butlastD split: if_splits)
  then show ?thesis using assms by simp
qed


definition list_ok :: "LRUCache \<Rightarrow> nat list \<Rightarrow> bool" where
  "list_ok c ns \<longleftrightarrow> distinct (cache_head c # ns @ [cache_tail c]) \<and> chain (nxt c) (prv c) (cache_head c # ns @ [cache_tail c]) \<and>
    (\<forall>a \<in> set (cache_head c # ns @ [cache_tail c]). item c a \<noteq> None)"

lemma links_onlyD:
  "links_only c c' \<Longrightarrow> cache_head c' = cache_head c \<and> cache_tail c' = cache_tail c \<and> item c' = item c"
  by (simp add: links_only_def)

lemma detach_list:
  assumes "list_ok c (pre @ a # post)"
  shows "\<exists>c'. DetachNode a c = Some c' \<and> links_only c c' \<and> list_ok c' (pre @ post)"
proof -
  obtain P p where P: "cache_head c # pre = P @ [p]" by (metis list.distinct(1) rev_exhaust)
  obtain n Q where Q: "post @ [cache_tail c] = n # Q" by (metis Nil_is_append_conv list.exhaust not_Cons_self2)
  have all: "cache_head c # (pre @ a # post) @ [cache_tail c] = P @ p # a # n # Q"
    using P Q by (metis append.assoc append_Cons append_Nil)
  have ok: "distinct (P @ p # a # n # Q)" "chain (nxt c) (prv c) (P @ p # a # n # Q)" "\<forall>x \<in> set (P @ p # a # n # Q). item c x \<noteq> None"
    using assms unfolding list_ok_def all by blast+
  have "nxt c a = Some n" "prv c a = Some p" using chain_append [of "nxt c" "prv c" P p "a # n # Q"] ok(2) by simp_all
  then obtain c' where c': "DetachNode a c = Some c'" "links_only c c'" "nxt c' = (nxt c)(p := Some n)" "prv c' = (prv c)(n := Some p)"
    using DetachNode_ok [of c a p n] ok by auto
  have rest: "cache_head c # (pre @ post) @ [cache_tail c] = P @ p # n # Q"
    using P Q by (metis append.assoc append_Cons append_Nil)
  have "list_ok c' (pre @ post)"
    unfolding list_ok_def using chain_detach [OF ok(2,1)] ok(1,3) links_onlyD [OF c'(2)] rest c'(3,4) by auto
  with c' show ?thesis by blast
qed

lemma front_list:
  assumes "list_ok c ns" "a \<notin> set (cache_head c # ns @ [cache_tail c])" "item c a \<noteq> None"
  shows "\<exists>c'. InsertToFront a c = Some c' \<and> links_only c c' \<and> list_ok c' (a # ns)"
proof -
  obtain n Q where Q: "ns @ [cache_tail c] = n # Q" by (metis Nil_is_append_conv list.exhaust not_Cons_self2)
  have ok: "distinct (cache_head c # n # Q)" "chain (nxt c) (prv c) (cache_head c # n # Q)" "\<forall>x \<in> set (cache_head c # n # Q). item c x \<noteq> None"
    "a \<notin> set (cache_head c # n # Q)"
    using assms unfolding list_ok_def Q by blast+
  then obtain c' where c': "InsertToFront a c = Some c'" "links_only c c'"
    "nxt c' = (nxt c)(a := Some n, cache_head c := Some a)" "prv c' = (prv c)(a := Some (cache_head c), n := Some a)"
    using InsertToFront_ok [OF assms(3), of n] by auto
  have "distinct (cache_head c # a # n # Q)" using ok(1,4) by auto
  then have "list_ok c' (a # ns)"
    unfolding list_ok_def using chain_front [OF ok(2)] ok(3) assms(3) links_onlyD [OF c'(2)] Q c'(3,4) by auto
  with c' show ?thesis by blast
qed

text \<open>The representation of a list of tables, most recent first.\<close>

definition entries :: "LRUCache \<Rightarrow> nat list \<Rightarrow> (int \<times> key_table) list" where
  "entries c ns = map (\<lambda>a. the (item c a)) ns"

definition cache_rep :: "LRUCache \<Rightarrow> nat list \<Rightarrow> bool" where
  "cache_rep c ns \<longleftrightarrow> list_ok c ns \<and> (\<forall>a. item c a \<noteq> None \<longrightarrow> a < next_addr c) \<and>
    distinct (map fst (entries c ns)) \<and> cache_map c = map_of (map (\<lambda>a. (fst (the (item c a)), a)) ns) \<and>
    count c = int (length ns) \<and> count c \<le> capacity c \<and> 1 \<le> capacity c"

definition cached :: "LRUCache \<Rightarrow> (int \<times> key_table) list \<Rightarrow> bool" where
  "cached c xs \<longleftrightarrow> (\<exists>ns. cache_rep c ns \<and> entries c ns = xs)"

text \<open>The specification of the operations on such lists.\<close>

definition lru_touch :: "int \<Rightarrow> key_table \<Rightarrow> (int \<times> key_table) list \<Rightarrow> (int \<times> key_table) list" where
  "lru_touch k t xs = (k, t) # filter (\<lambda>x. fst x \<noteq> k) xs"

definition lru_get :: "int \<Rightarrow> bytes \<Rightarrow> (int \<times> key_table) list \<Rightarrow> u32 \<times> bool \<times> (int \<times> key_table) list" where
  "lru_get k s xs =
    (case map_of xs k of None \<Rightarrow> (0, False, xs)
     | Some t \<Rightarrow> (case t s of None \<Rightarrow> (0, True, xs) | Some off \<Rightarrow> (off, True, lru_touch k t xs)))"

definition lru_set :: "nat \<Rightarrow> int \<Rightarrow> key_table \<Rightarrow> (int \<times> key_table) list \<Rightarrow> (int \<times> key_table) list" where
  "lru_set cap k t xs =
    (if k \<in> fst ` set xs then lru_touch k t xs
     else (k, t) # (if length xs = cap then butlast xs else xs))"

definition same_keys :: "LRUCache \<Rightarrow> LRUCache \<Rightarrow> bool" where
  "same_keys c c' \<longleftrightarrow> (\<forall>a. map_option fst (item c' a) = map_option fst (item c a)) \<and> next_addr c' = next_addr c \<and>
    cache_map c' = cache_map c \<and> capacity c' = capacity c \<and> count c' = count c"

lemma links_only_same_keys: "links_only c c' \<Longrightarrow> same_keys c c'"
  by (simp add: links_only_def same_keys_def)

lemma cache_rep_keys:
  assumes "cache_rep c ns" "same_keys c c'" "list_ok c' ns'" "mset ns' = mset ns"
  shows "cache_rep c' ns'"
proof -
  have set: "set ns' = set ns" "length ns' = length ns" using assms(4) by (metis mset_eq_setD, metis mset_eq_length)
  have key: "fst (the (item c' a)) = fst (the (item c a))" if "a \<in> set ns" for a
  proof -
    have "item c a \<noteq> None" using assms(1) that by (simp add: cache_rep_def list_ok_def)
    then show ?thesis using assms(2) by (cases "item c' a") (auto simp: same_keys_def dest: spec [of _ a])
  qed
  let ?f = "\<lambda>a. (fst (the (item c a)), a)"
  have f: "map (\<lambda>a. (fst (the (item c' a)), a)) ns' = map ?f ns'" using key set(1) by simp
  have "mset (map fst (map ?f ns')) = mset (map fst (map ?f ns))" using assms(4) by simp
  moreover have d: "distinct (map fst (map ?f ns))" using assms(1) by (simp add: cache_rep_def entries_def o_def)
  ultimately have d': "distinct (map fst (map ?f ns'))" using mset_eq_imp_distinct_iff by blast
  have "map_of (map ?f ns') = map_of (map ?f ns)" using map_of_inject_set [OF d' d] set(1) by simp
  moreover have "map fst (entries c' ns') = map fst (map ?f ns')" unfolding f [symmetric] by (simp add: entries_def)
  moreover have "item c' a \<noteq> None \<Longrightarrow> item c a \<noteq> None" for a using assms(2) unfolding same_keys_def by (metis option.map_disc_iff)
  ultimately show ?thesis
    using assms(1-3) d' set(2) unfolding cache_rep_def same_keys_def f by auto
qed

lemmas cache_rep_links = cache_rep_keys [OF _ links_only_same_keys]

lemma cached_member:
  assumes "cache_rep c ns"
  shows "cache_map c k = None \<longleftrightarrow> k \<notin> fst ` set (entries c ns)"
    "cache_map c k = Some a \<Longrightarrow> a \<in> set ns \<and> fst (the (item c a)) = k \<and> map_of (entries c ns) k = Some (snd (the (item c a)))"
proof -
  have m: "cache_map c = map_of (map (\<lambda>a. (fst (the (item c a)), a)) ns)" using assms by (simp add: cache_rep_def)
  show "cache_map c k = None \<longleftrightarrow> k \<notin> fst ` set (entries c ns)"
    unfolding m by (auto simp: map_of_eq_None_iff entries_def image_image)
  show "a \<in> set ns \<and> fst (the (item c a)) = k \<and> map_of (entries c ns) k = Some (snd (the (item c a)))" if "cache_map c k = Some a"
  proof -
    have a: "a \<in> set ns" "fst (the (item c a)) = k" using map_of_SomeD [OF that [unfolded m]] by auto
    then have "(k, snd (the (item c a))) \<in> set (entries c ns)" by (force simp: entries_def)
    with a assms show ?thesis by (simp add: cache_rep_def)
  qed
qed

lemma touch_entries:
  assumes "distinct (map fst (entries c (pre @ a # post)))" "item c a = Some (k, t)"
  shows "entries c (a # pre @ post) = lru_touch k t (entries c (pre @ a # post))"
proof -
  have "\<forall>x \<in> set (entries c (pre @ post)). fst x \<noteq> k" using assms by (auto simp: entries_def)
  then have "filter (\<lambda>x. fst x \<noteq> k) (entries c (pre @ post)) = entries c (pre @ post)" by simp
  then show ?thesis using assms(2) by (auto simp: lru_touch_def entries_def)
qed

lemma rep_item:
  assumes "cache_rep c ns" "a \<in> set ns"
  obtains k t where "item c a = Some (k, t)"
  using assms by (fastforce simp: cache_rep_def list_ok_def)

lemma Cache_Get_correct:
  assumes "cached c xs"
  shows "\<exists>c'. Cache_Get c k s = Some (fst (lru_get k s xs), fst (snd (lru_get k s xs)), c') \<and>
    cached c' (snd (snd (lru_get k s xs))) \<and> capacity c' = capacity c"
proof -
  obtain ns where ns: "cache_rep c ns" "entries c ns = xs" using assms by (auto simp: cached_def)
  show ?thesis
  proof (cases "cache_map c k")
    case None
    then have "map_of xs k = None" using cached_member(1) [OF ns(1)] ns(2) by (simp add: map_of_eq_None_iff)
    with None assms show ?thesis by (simp add: Cache_Get_def lru_get_def)
  next
    case (Some a)
    note a = cached_member(2) [OF ns(1) Some]
    from a rep_item [OF ns(1)] obtain t where it: "item c a = Some (k, t)" by (metis fst_conv option.sel)
    then obtain nd where nd: "store c a = Some nd" "lru_value nd = t" by (auto simp: item_def)
    have t: "map_of xs k = Some t" using a it ns(2) by simp
    show ?thesis
    proof (cases "t s")
      case None
      with Some nd t assms show ?thesis by (simp add: Cache_Get_def lru_get_def)
    next
      case off: (Some off)
      obtain pre post where sp: "ns = pre @ a # post" using a by (metis split_list)
      have ok: "list_ok c (pre @ a # post)" using ns(1) sp by (simp add: cache_rep_def)
      then have out: "a \<notin> set (cache_head c # (pre @ post) @ [cache_tail c])" by (auto simp: list_ok_def)
      obtain c1 where 1: "DetachNode a c = Some c1" "links_only c c1" "list_ok c1 (pre @ post)" using detach_list [OF ok] by blast
      have "a \<notin> set (cache_head c1 # (pre @ post) @ [cache_tail c1])" "item c1 a \<noteq> None"
        using out links_onlyD [OF 1(2)] it by simp_all
      from front_list [OF 1(3) this] obtain c2 where 2: "InsertToFront a c1 = Some c2" "links_only c1 c2" "list_ok c2 (a # pre @ post)" by blast
      have l: "links_only c c2" using 1(2) 2(2) by (rule links_only_trans)
      have rep: "cache_rep c2 (a # pre @ post)" by (rule cache_rep_links [OF ns(1) l 2(3)]) (simp add: sp)
      have "entries c2 (a # pre @ post) = entries c (a # pre @ post)" using l by (simp add: entries_def links_only_def)
      also have "\<dots> = lru_touch k t xs"
        using touch_entries [of c pre a post k t] it ns sp by (simp add: cache_rep_def)
      finally have "cached c2 (lru_touch k t xs)" using rep by (auto simp: cached_def)
      moreover have "Cache_Get c k s = Some (off, True, c2)" using Some nd off 1(1) 2(1) by (simp add: Cache_Get_def)
      ultimately show ?thesis using t off l by (simp add: lru_get_def links_only_def)
    qed
  qed
qed

lemma list_ok_frame:
  assumes "list_ok c ns" "cache_head c' = cache_head c" "cache_tail c' = cache_tail c"
    and "\<forall>a \<in> set (cache_head c # ns @ [cache_tail c]). nxt c' a = nxt c a \<and> prv c' a = prv c a \<and> item c' a \<noteq> None"
  shows "list_ok c' ns"
proof -
  let ?l = "cache_head c # ns @ [cache_tail c]"
  have "chain (nxt c') (prv c') ?l = chain (nxt c) (prv c) ?l"
    using assms(4) by (intro chain_cong) (auto dest: in_set_butlastD split: if_splits)
  then show ?thesis using assms unfolding list_ok_def by simp
qed

lemma set_value_ok:
  assumes "item c a = Some (k, t)"
  shows "\<exists>c'. set_value a v c = Some c' \<and> item c' = (item c)(a \<mapsto> (k, v)) \<and> nxt c' = nxt c \<and> prv c' = prv c \<and> same_keys c c' \<and>
    cache_head c' = cache_head c \<and> cache_tail c' = cache_tail c"
  using assms by (auto simp: set_value_def item_def nxt_def prv_def same_keys_def fun_eq_iff split: option.splits)

lemma RemoveLRUNode_ok:
  assumes "list_ok c (ns @ [b])"
  shows "\<exists>c'. RemoveLRUNode c = Some c' \<and> list_ok c' ns \<and> item c' = (item c)(b := None) \<and>
    cache_map c' = (cache_map c)(fst (the (item c b)) := None) \<and> count c' = count c - 1 \<and> next_addr c' = next_addr c \<and>
    capacity c' = capacity c \<and> cache_head c' = cache_head c \<and> cache_tail c' = cache_tail c"
proof -
  have "chain (nxt c) (prv c) ((cache_head c # ns) @ b # [cache_tail c])" using assms by (simp add: list_ok_def)
  then have prv: "prv c (cache_tail c) = Some b" using chain_append [of "nxt c" "prv c" "cache_head c # ns" b "[cache_tail c]"] by simp
  obtain t where t: "store c (cache_tail c) = Some t" "lru_prev t = Some b"
    using assms prv by (auto simp: list_ok_def item_def prv_def)
  obtain c1 where c1: "DetachNode b c = Some c1" "links_only c c1" "list_ok c1 ns" using detach_list [of c ns b "[]"] assms by auto
  have b: "item c1 b = item c b" "item c b \<noteq> None" "b \<notin> set (cache_head c # ns @ [cache_tail c])"
    using assms links_onlyD [OF c1(2)] by (auto simp: list_ok_def)
  then obtain nd where nd: "store c1 b = Some nd" "item c b = Some (lru_key nd, lru_value nd)" by (auto simp: item_def)
  define c2 where "c2 = c1\<lparr>cache_map := (cache_map c1)(lru_key nd := None), store := (store c1)(b := None), count := count c1 - 1\<rparr>"
  have "RemoveLRUNode c = Some c2" using t c1(1) nd(1) by (simp add: RemoveLRUNode_def c2_def)
  moreover have it: "item c2 = (item c)(b := None)" using links_onlyD [OF c1(2)] by (auto simp: c2_def item_def fun_eq_iff)
  moreover have "list_ok c2 ns"
    using c1(3) b(3) it links_onlyD [OF c1(2)]
    by (intro list_ok_frame [OF c1(3)]) (auto simp: c2_def nxt_def prv_def item_def list_ok_def)
  moreover have "cache_map c2 = (cache_map c)(fst (the (item c b)) := None)" "count c2 = count c - 1" "next_addr c2 = next_addr c"
    "capacity c2 = capacity c" "cache_head c2 = cache_head c" "cache_tail c2 = cache_tail c"
    using c1(2) nd(2) by (simp_all add: c2_def links_only_def)
  ultimately show ?thesis by blast
qed

lemma Cache_Set_existing:
  assumes ns: "cache_rep c ns" and a: "cache_map c k = Some a"
  shows "\<exists>c' ns'. Cache_Set c k t = Some c' \<and> cache_rep c' ns' \<and> entries c' ns' = lru_touch k t (entries c ns) \<and> capacity c' = capacity c"
proof -
  note mem = cached_member(2) [OF ns a]
  from mem rep_item [OF ns] obtain t0 where it: "item c a = Some (k, t0)" by (metis fst_conv option.sel)
  obtain pre post where sp: "ns = pre @ a # post" using mem by (metis split_list)
  have ok: "list_ok c (pre @ a # post)" using ns sp by (simp add: cache_rep_def)
  then have out: "a \<notin> set (cache_head c # (pre @ post) @ [cache_tail c])" by (auto simp: list_ok_def)
  obtain c1 where 1: "DetachNode a c = Some c1" "links_only c c1" "list_ok c1 (pre @ post)" using detach_list [OF ok] by blast
  have it1: "item c1 a = Some (k, t0)" using links_onlyD [OF 1(2)] it by simp
  obtain c2 where 2: "set_value a t c1 = Some c2" "item c2 = (item c1)(a \<mapsto> (k, t))" "nxt c2 = nxt c1" "prv c2 = prv c1"
    "same_keys c1 c2" "cache_head c2 = cache_head c1" "cache_tail c2 = cache_tail c1"
    using set_value_ok [OF it1] by blast
  have ok2: "list_ok c2 (pre @ post)"
    by (rule list_ok_frame [OF 1(3)]) (use 1(3) 2 in \<open>auto simp: list_ok_def\<close>)
  have "a \<notin> set (cache_head c2 # (pre @ post) @ [cache_tail c2])" "item c2 a \<noteq> None"
    using out links_onlyD [OF 1(2)] 2 by simp_all
  from front_list [OF ok2 this] obtain c3 where 3: "InsertToFront a c2 = Some c3" "links_only c2 c3" "list_ok c3 (a # pre @ post)" by blast
  have same: "same_keys c c3"
    using links_only_same_keys [OF 1(2)] 2(5) links_only_same_keys [OF 3(2)] by (simp add: same_keys_def)
  have rep: "cache_rep c3 (a # pre @ post)" by (rule cache_rep_keys [OF ns same 3(3)]) (simp add: sp)
  have "item c3 = (item c)(a \<mapsto> (k, t))" using links_onlyD [OF 1(2)] 2(2) links_onlyD [OF 3(2)] by simp
  then have "entries c3 (a # pre @ post) = (k, t) # entries c (pre @ post)" using out by (auto simp: entries_def)
  also have "\<dots> = lru_touch k t (entries c ns)"
    using touch_entries [of c pre a post k t0] it ns sp by (simp add: cache_rep_def lru_touch_def entries_def)
  finally have "entries c3 (a # pre @ post) = lru_touch k t (entries c ns)" .
  moreover have "Cache_Set c k t = Some c3" using a 1(1) 2(1) 3(1) by (simp add: Cache_Set_def)
  ultimately show ?thesis using rep same by (auto simp: same_keys_def)
qed

text \<open>The room a new node needs: the list without its last node, when the cache is full.\<close>

definition kept :: "LRUCache \<Rightarrow> nat list \<Rightarrow> nat list" where
  "kept c ns = (if int (length ns) = capacity c then butlast ns else ns)"

lemma entries_kept: "entries c (kept c ns) = (if int (length ns) = capacity c then butlast (entries c ns) else entries c ns)"
  by (simp add: kept_def entries_def map_butlast)

lemma map_of_drop_last:
  assumes "k \<notin> fst ` set xs"
  shows "(map_of (xs @ [(k, v)]))(k := None) = map_of xs"
proof
  fix x
  have "map_of xs k = None" using assms by (simp add: map_of_eq_None_iff)
  then show "((map_of (xs @ [(k, v)]))(k := None)) x = map_of xs x"
    by (cases "map_of xs x") (auto simp: map_add_def)
qed

lemma make_room:
  assumes ns: "cache_rep c ns"
  defines "c1 \<equiv> c\<lparr>store := (store c)(next_addr c \<mapsto> fresh_node), next_addr := Suc (next_addr c)\<rparr>"
  shows "\<exists>c2. (if count c1 = capacity c1 then RemoveLRUNode c1 else Some c1) = Some c2 \<and> list_ok c2 (kept c ns) \<and>
    item c2 (next_addr c) \<noteq> None \<and> (\<forall>a \<in> set (kept c ns). item c2 a = item c a) \<and> (\<forall>a. item c2 a \<noteq> None \<longrightarrow> a < Suc (next_addr c)) \<and>
    cache_map c2 = map_of (map (\<lambda>a. (fst (the (item c a)), a)) (kept c ns)) \<and> count c2 = int (length (kept c ns)) \<and>
    next_addr c2 = Suc (next_addr c) \<and> capacity c2 = capacity c \<and> cache_head c2 = cache_head c \<and> cache_tail c2 = cache_tail c"
proof -
  have low: "item c a \<noteq> None \<longrightarrow> a < next_addr c" for a using ns by (simp add: cache_rep_def)
  have it: "item c1 = (item c)(next_addr c \<mapsto> (0, Map.empty))" by (auto simp: c1_def item_def fresh_node_def fun_eq_iff)
  have ok: "list_ok c ns" and fields: "count c1 = int (length ns)" "capacity c1 = capacity c" "1 \<le> capacity c" "cache_map c1 = cache_map c"
    "next_addr c1 = Suc (next_addr c)" "cache_head c1 = cache_head c" "cache_tail c1 = cache_tail c"
    using ns by (simp_all add: cache_rep_def c1_def)
  have old: "a \<noteq> next_addr c" if "a \<in> set (cache_head c # ns @ [cache_tail c])" for a
    using ok low [of a] that by (auto simp: list_ok_def)
  have ok1: "list_ok c1 ns"
    by (rule list_ok_frame [OF ok]) (use ok old fields it in \<open>auto simp: c1_def nxt_def prv_def list_ok_def\<close>)
  show ?thesis
  proof (cases "int (length ns) = capacity c")
    case False
    have "\<forall>a \<in> set ns. item c1 a = item c a" using old it by auto
    moreover have "\<forall>a. item c1 a \<noteq> None \<longrightarrow> a < Suc (next_addr c)" using low it by (auto simp: less_Suc_eq)
    ultimately show ?thesis using False ns fields ok1 it by (simp add: kept_def cache_rep_def)
  next
    case True
    then have "ns \<noteq> []" using fields(3) by auto
    then obtain ms b where sp: "ns = ms @ [b]" by (metis rev_exhaust)
    obtain c2 where c2: "RemoveLRUNode c1 = Some c2" "list_ok c2 ms" "item c2 = (item c1)(b := None)"
      "cache_map c2 = (cache_map c1)(fst (the (item c1 b)) := None)" "count c2 = count c1 - 1" "next_addr c2 = next_addr c1"
      "capacity c2 = capacity c1" "cache_head c2 = cache_head c1" "cache_tail c2 = cache_tail c1"
      using RemoveLRUNode_ok [of c1 ms b] ok1 sp by auto
    have b: "b \<noteq> next_addr c" "b \<notin> set ms" using old ok by (auto simp: sp list_ok_def)
    have "\<forall>a \<in> set ms. item c2 a = item c a" using old b by (auto simp: c2(3) it sp)
    moreover have "\<forall>a. item c2 a \<noteq> None \<longrightarrow> a < Suc (next_addr c)" using low by (auto simp: c2(3) it less_Suc_eq)
    moreover have "cache_map c2 = map_of (map (\<lambda>a. (fst (the (item c a)), a)) ms)"
    proof -
      let ?f = "\<lambda>a. (fst (the (item c a)), a)"
      have "distinct (map fst (map ?f ms @ [?f b]))" using ns by (simp add: cache_rep_def sp entries_def o_def)
      then have "fst (?f b) \<notin> fst ` set (map ?f ms)" by (simp add: image_image)
      moreover have "cache_map c = map_of (map ?f ms @ [?f b])" using ns by (simp add: cache_rep_def sp)
      ultimately show ?thesis
        using b(1) map_of_drop_last [of "fst (?f b)" "map ?f ms" b] by (simp add: c2(4) fields(4) it)
    qed
    ultimately show ?thesis using True c2 fields b it by (simp add: kept_def sp)
  qed
qed

lemma Cache_Set_new_entry:
  assumes ns: "cache_rep c ns" and k: "cache_map c k = None"
  shows "\<exists>c' ns'. Cache_Set c k t = Some c' \<and> cache_rep c' ns' \<and> entries c' ns' = (k, t) # entries c (kept c ns) \<and> capacity c' = capacity c"
proof -
  let ?n = "next_addr c"
  let ?c1 = "c\<lparr>store := (store c)(?n \<mapsto> fresh_node), next_addr := Suc ?n\<rparr>"
  obtain c2 where room: "(if count ?c1 = capacity ?c1 then RemoveLRUNode ?c1 else Some ?c1) = Some c2" "list_ok c2 (kept c ns)"
    "item c2 ?n \<noteq> None" "\<forall>a \<in> set (kept c ns). item c2 a = item c a" "\<forall>a. item c2 a \<noteq> None \<longrightarrow> a < Suc ?n"
    "cache_map c2 = map_of (map (\<lambda>a. (fst (the (item c a)), a)) (kept c ns))" "count c2 = int (length (kept c ns))"
    "next_addr c2 = Suc ?n" "capacity c2 = capacity c" "cache_head c2 = cache_head c" "cache_tail c2 = cache_tail c"
    using make_room [OF ns] by blast
  obtain nd where nd: "store c2 ?n = Some nd" using room(3) by (auto simp: item_def)
  define c3 where "c3 = c2\<lparr>store := (store c2)(?n \<mapsto> nd\<lparr>lru_key := k, lru_value := t\<rparr>), cache_map := (cache_map c2)(k \<mapsto> ?n)\<rparr>"
  have it3: "item c3 = (item c2)(?n \<mapsto> (k, t))" by (auto simp: c3_def item_def fun_eq_iff)
  have sub: "set (kept c ns) \<subseteq> set ns" by (auto simp: kept_def dest: in_set_butlastD)
  have old: "?n \<notin> set (cache_head c # kept c ns @ [cache_tail c])"
    using ns sub by (fastforce simp: cache_rep_def list_ok_def)
  have ok3: "list_ok c3 (kept c ns)"
    by (rule list_ok_frame [OF room(2)]) (use room(2) nd in \<open>auto simp: c3_def nxt_def prv_def item_def list_ok_def\<close>)
  have "?n \<notin> set (cache_head c3 # kept c ns @ [cache_tail c3])" "item c3 ?n \<noteq> None"
    using old room(10,11) it3 by (simp_all add: c3_def)
  from front_list [OF ok3 this] obtain c4 where 4: "InsertToFront ?n c3 = Some c4" "links_only c3 c4" "list_ok c4 (?n # kept c ns)" by blast
  define c5 where "c5 = c4\<lparr>count := count c4 + 1\<rparr>"
  have it5: "item c5 = (item c2)(?n \<mapsto> (k, t))" using links_onlyD [OF 4(2)] it3 by (auto simp: c5_def item_def fun_eq_iff)
  have ents: "entries c5 (?n # kept c ns) = (k, t) # entries c (kept c ns)"
    using old room(4) by (auto simp: entries_def it5)
  have "k \<notin> fst ` set (entries c ns)" "distinct (map fst (entries c ns))"
    using cached_member(1) [OF ns] k ns by (simp_all add: cache_rep_def)
  then have d: "distinct (map fst (entries c5 (?n # kept c ns)))"
    unfolding ents entries_kept by (auto simp: map_butlast distinct_butlast dest: in_set_butlastD)
  have "cache_map c5 = map_of (map (\<lambda>a. (fst (the (item c5 a)), a)) (?n # kept c ns))"
  proof -
    have "map (\<lambda>a. (fst (the (item c5 a)), a)) (kept c ns) = map (\<lambda>a. (fst (the (item c a)), a)) (kept c ns)"
      using old room(4) by (auto simp: it5)
    moreover have "cache_map c5 = (cache_map c2)(k \<mapsto> ?n)" using 4(2) by (simp add: c5_def c3_def links_only_def)
    moreover have "fst (the (item c5 ?n)) = k" by (simp add: it5)
    ultimately show ?thesis by (simp only: list.map map_of.simps fst_conv snd_conv room(6))
  qed
  moreover have "length (kept c ns) + 1 \<le> nat (capacity c)" using ns by (auto simp: kept_def cache_rep_def)
  moreover have "nxt c5 = nxt c4" "prv c5 = prv c4" "item c5 = item c4" "cache_head c5 = cache_head c4" "cache_tail c5 = cache_tail c4"
    by (simp_all add: c5_def nxt_def prv_def item_def fun_eq_iff)
  then have "list_ok c5 (?n # kept c ns)" using 4(3) unfolding list_ok_def by simp
  moreover have "count c5 = count c2 + 1" "capacity c5 = capacity c" "next_addr c5 = Suc ?n"
    using 4(2) room(8,9) by (simp_all add: c5_def c3_def links_only_def)
  moreover have "1 \<le> capacity c" using ns by (simp add: cache_rep_def)
  ultimately have "cache_rep c5 (?n # kept c ns)"
    using d room(5,7) by (auto simp: cache_rep_def it5)
  moreover have "Cache_Set c k t = Some c5"
    using k room(1) nd 4(1) by (simp add: Cache_Set_def c3_def c5_def Let_def)
  ultimately show ?thesis using ents \<open>capacity c5 = capacity c\<close> by blast
qed

lemma Cache_Set_correct:
  assumes "cached c xs"
  shows "\<exists>c'. Cache_Set c k t = Some c' \<and> cached c' (lru_set (nat (capacity c)) k t xs) \<and> capacity c' = capacity c"
proof -
  obtain ns where ns: "cache_rep c ns" "entries c ns = xs" using assms by (auto simp: cached_def)
  have len: "length ns = length xs" using ns(2) by (auto simp: entries_def)
  show ?thesis
  proof (cases "cache_map c k")
    case None
    then have "k \<notin> fst ` set xs" using cached_member(1) [OF ns(1)] ns(2) by simp
    moreover have "int (length xs) = capacity c \<longleftrightarrow> length xs = nat (capacity c)"
      using ns(1) by (auto simp: cache_rep_def)
    ultimately show ?thesis
      using Cache_Set_new_entry [OF ns(1) None, of t] ns(2) len by (auto simp: cached_def lru_set_def entries_kept)
  next
    case (Some a)
    then have "k \<in> fst ` set xs" using cached_member(1) [OF ns(1), of k] ns(2) by auto
    then show ?thesis using Cache_Set_existing [OF ns(1) Some, of t] ns(2) by (auto simp: cached_def lru_set_def)
  qed
qed

lemma LRUCache_new_correct: "1 \<le> n \<Longrightarrow> cached (LRUCache_new n) []"
  unfolding cached_def
  by (rule exI [of _ "[]"])
    (auto simp: cache_rep_def list_ok_def LRUCache_new_def entries_def item_def nxt_def prv_def fresh_node_def split: if_splits)

lemma Cache_Clear_correct:
  assumes "cached c xs"
  shows "\<exists>c'. Cache_Clear c = Some c' \<and> cached c' [] \<and> capacity c' = capacity c"
proof -
  obtain ns where ns: "cache_rep c ns" using assms by (auto simp: cached_def)
  let ?c1 = "c\<lparr>store := (\<lambda>a. if a \<in> ran (cache_map c) then None else store c a), cache_map := Map.empty, count := 0\<rparr>"
  have "ran (cache_map c) \<subseteq> set ns" using cached_member(2) [OF ns] by (auto simp: ran_def)
  then have out: "cache_head c \<notin> ran (cache_map c)" "cache_tail c \<notin> ran (cache_map c)" "cache_head c \<noteq> cache_tail c"
    using ns by (auto simp: cache_rep_def list_ok_def)
  then have "item ?c1 (cache_head c) \<noteq> None" "item ?c1 (cache_tail c) \<noteq> None"
    using ns by (auto simp: cache_rep_def list_ok_def item_def)
  then obtain c2 where 2: "set_next (Some (cache_head c)) (Some (cache_tail c)) ?c1 = Some c2" "links_only ?c1 c2"
      "nxt c2 = (nxt ?c1)(cache_head c := Some (cache_tail c))" "prv c2 = prv ?c1"
    using set_next_ok by blast
  then have "item c2 (cache_tail c) \<noteq> None" using \<open>item ?c1 (cache_tail c) \<noteq> None\<close> by (simp add: links_only_def)
  then obtain c3 where 3: "set_prev (Some (cache_tail c)) (Some (cache_head c)) c2 = Some c3" "links_only c2 c3"
      "nxt c3 = nxt c2" "prv c3 = (prv c2)(cache_tail c := Some (cache_head c))"
    using set_prev_ok by blast
  have l: "links_only ?c1 c3" using 2(2) 3(2) by (rule links_only_trans)
  have "list_ok c3 []"
    unfolding list_ok_def using l out(3) 2(3) 3(3,4) \<open>item ?c1 (cache_head c) \<noteq> None\<close> \<open>item ?c1 (cache_tail c) \<noteq> None\<close>
    by (simp add: links_only_def)
  moreover have "\<forall>a. item c3 a \<noteq> None \<longrightarrow> a < next_addr c3"
  proof (intro allI impI)
    fix a assume "item c3 a \<noteq> None"
    moreover have "item c3 = item ?c1" using l by (simp add: links_only_def)
    ultimately have "item c a \<noteq> None" by (auto simp: item_def split: if_splits)
    then show "a < next_addr c3" using ns l by (simp add: cache_rep_def links_only_def)
  qed
  ultimately have "cache_rep c3 []" using ns l by (auto simp: cache_rep_def links_only_def entries_def)
  moreover have "Cache_Clear c = Some c3" using 2(1) 3(1) by (simp add: Cache_Clear_def Let_def)
  ultimately show ?thesis using l by (auto simp: cached_def entries_def links_only_def)
qed


section \<open>The interface of a table cache\<close>

text \<open>
  What the database relies on: the cache may forget tables, but what it remembers of a file is the table
  that was last set for it, and a lookup changes no table.
\<close>

locale table_cache =
  fixes inv :: "'c \<Rightarrow> bool" and tables :: "'c \<Rightarrow> int \<Rightarrow> key_table option"
    and get :: "'c \<Rightarrow> int \<Rightarrow> bytes \<Rightarrow> (u32 \<times> bool \<times> 'c) option" and put :: "'c \<Rightarrow> int \<Rightarrow> key_table \<Rightarrow> 'c option"
  assumes get_law: "inv c \<Longrightarrow> \<exists>c'. inv c' \<and> tables c' = tables c \<and> get c k s =
      Some (case tables c k of None \<Rightarrow> (0, False, c') | Some t \<Rightarrow> (case t s of None \<Rightarrow> 0 | Some off \<Rightarrow> off, True, c'))"
    and put_law: "inv c \<Longrightarrow> \<exists>c'. inv c' \<and> put c k t = Some c' \<and> tables c' k = Some t \<and>
      (\<forall>k'. k' \<noteq> k \<longrightarrow> tables c' k' = None \<or> tables c' k' = tables c k')"
begin

text \<open>A cache that agrees with the tables of the files, wherever it remembers one.\<close>

definition coherent :: "(int \<Rightarrow> key_table option) \<Rightarrow> 'c \<Rightarrow> bool" where
  "coherent files c \<longleftrightarrow> inv c \<and> (\<forall>k t. files k \<noteq> None \<longrightarrow> tables c k = Some t \<longrightarrow> files k = Some t)"

lemma coherent_get:
  assumes "coherent files c" "files k = Some t"
  shows "\<exists>off found c'. get c k s = Some (off, found, c') \<and> coherent files c' \<and>
    (found \<longrightarrow> off = (case t s of None \<Rightarrow> 0 | Some off \<Rightarrow> off)) \<and> (\<not> found \<longrightarrow> off = 0)"
proof -
  have "inv c" using assms(1) by (simp add: coherent_def)
  from get_law [OF this, of k s] obtain c' where c': "inv c'" "tables c' = tables c" "get c k s =
      Some (case tables c k of None \<Rightarrow> (0, False, c') | Some t \<Rightarrow> (case t s of None \<Rightarrow> 0 | Some off \<Rightarrow> off, True, c'))"
    by blast
  then have "coherent files c'" using assms(1) by (simp add: coherent_def)
  moreover have "tables c k = None \<or> tables c k = Some t" using assms by (cases "tables c k") (auto simp: coherent_def)
  ultimately show ?thesis using c'(3) by auto
qed

lemma coherent_put:
  assumes "coherent files c" "files k = Some t"
  shows "\<exists>c'. put c k t = Some c' \<and> coherent files c'"
proof -
  have "inv c" using assms(1) by (simp add: coherent_def)
  from put_law [OF this, of k t] obtain c' where "inv c'" "put c k t = Some c'" "tables c' k = Some t"
    "\<forall>k'. k' \<noteq> k \<longrightarrow> tables c' k' = None \<or> tables c' k' = tables c k'"
    by blast
  then have "coherent files c'" using assms unfolding coherent_def by (metis option.distinct(1))
  with \<open>put c k t = Some c'\<close> show ?thesis by blast
qed

text \<open>A file whose table is not cached yet may appear.\<close>

lemma coherent_put_new:
  assumes "coherent files c"
  shows "\<exists>c'. put c k t = Some c' \<and> coherent (files(k \<mapsto> t)) c'"
proof -
  have "inv c" using assms(1) by (simp add: coherent_def)
  from put_law [OF this, of k t] obtain c' where "inv c'" "put c k t = Some c'" "tables c' k = Some t"
    "\<forall>k'. k' \<noteq> k \<longrightarrow> tables c' k' = None \<or> tables c' k' = tables c k'"
    by blast
  then have "coherent (files(k \<mapsto> t)) c'" using assms unfolding coherent_def by (metis fun_upd_apply option.distinct(1))
  with \<open>put c k t = Some c'\<close> show ?thesis by blast
qed

end

definition lru_inv :: "LRUCache \<Rightarrow> bool" where
  "lru_inv c \<longleftrightarrow> (\<exists>xs. cached c xs)"

definition lru_tables :: "LRUCache \<Rightarrow> int \<Rightarrow> key_table option" where
  "lru_tables c k = map_option (\<lambda>a. snd (the (item c a))) (cache_map c k)"

lemma cached_tables:
  assumes "cached c xs"
  shows "lru_tables c = map_of xs" "distinct (map fst xs)"
proof -
  obtain ns where ns: "cache_rep c ns" "entries c ns = xs" using assms by (auto simp: cached_def)
  then show "distinct (map fst xs)" by (auto simp: cache_rep_def)
  show "lru_tables c = map_of xs"
  proof
    fix k
    show "lru_tables c k = map_of xs k"
    proof (cases "cache_map c k")
      case None
      then have "map_of xs k = None" using cached_member(1) [OF ns(1), of k] ns(2) by (simp add: map_of_eq_None_iff)
      with None show ?thesis by (simp add: lru_tables_def)
    next
      case (Some a)
      with cached_member(2) [OF ns(1) Some] ns(2) show ?thesis by (simp add: lru_tables_def)
    qed
  qed
qed

lemma map_of_touch:
  assumes "map_of xs k = Some t'"
  shows "map_of (lru_touch k t xs) = (map_of xs)(k \<mapsto> t)"
proof -
  have "map_of (filter (\<lambda>x. fst x \<noteq> k) xs) q = map_of xs q" if "q \<noteq> k" for q
    using that by (induction xs) auto
  then show ?thesis by (auto simp: lru_touch_def fun_eq_iff)
qed

lemma map_of_butlast: "distinct (map fst xs) \<Longrightarrow> map_of (butlast xs) k = None \<or> map_of (butlast xs) k = map_of xs k"
proof (cases xs rule: rev_cases)
  case (snoc ys y)
  then show ?thesis by (cases "map_of ys k") (auto simp: map_add_def)
qed simp

interpretation lru: table_cache lru_inv lru_tables Cache_Get Cache_Set
proof unfold_locales
  fix c k s assume "lru_inv c"
  then obtain xs where xs: "cached c xs" by (auto simp: lru_inv_def)
  obtain c' where c': "Cache_Get c k s = Some (fst (lru_get k s xs), fst (snd (lru_get k s xs)), c')"
    "cached c' (snd (snd (lru_get k s xs)))"
    using Cache_Get_correct [OF xs] by blast
  have "map_of (snd (snd (lru_get k s xs))) = map_of xs"
    by (auto simp: lru_get_def map_of_touch split: option.splits)
  then show "\<exists>c'. lru_inv c' \<and> lru_tables c' = lru_tables c \<and> Cache_Get c k s =
      Some (case lru_tables c k of None \<Rightarrow> (0, False, c') | Some t \<Rightarrow> (case t s of None \<Rightarrow> 0 | Some off \<Rightarrow> off, True, c'))"
    using c' cached_tables(1) [OF xs] cached_tables(1) [OF c'(2)]
    by (auto simp: lru_inv_def lru_get_def split: option.splits intro!: exI [of _ c'])
next
  fix c k t assume "lru_inv c"
  then obtain xs where xs: "cached c xs" by (auto simp: lru_inv_def)
  let ?ys = "lru_set (nat (capacity c)) k t xs"
  obtain c' where c': "Cache_Set c k t = Some c'" "cached c' ?ys" using Cache_Set_correct [OF xs] by blast
  have "map_of ?ys k = Some t" by (simp add: lru_set_def lru_touch_def)
  moreover have "map_of ?ys k' = None \<or> map_of ?ys k' = map_of xs k'" if "k' \<noteq> k" for k'
  proof (cases "k \<in> fst ` set xs")
    case True
    then obtain t' where "map_of xs k = Some t'" by (metis map_of_eq_None_iff not_None_eq)
    with True that show ?thesis by (simp add: lru_set_def map_of_touch)
  next
    case False
    with that show ?thesis using map_of_butlast [OF cached_tables(2) [OF xs]] by (auto simp: lru_set_def)
  qed
  ultimately show "\<exists>c'. lru_inv c' \<and> Cache_Set c k t = Some c' \<and> lru_tables c' k = Some t \<and>
      (\<forall>k'. k' \<noteq> k \<longrightarrow> lru_tables c' k' = None \<or> lru_tables c' k' = lru_tables c k')"
    using c' cached_tables(1) [OF xs] cached_tables(1) [OF c'(2)] by (auto simp: lru_inv_def)
qed


section \<open>Properties\<close>

datatype cache_op = CGet int bytes | CSet int key_table | CClear

fun cache_run :: "cache_op list \<Rightarrow> LRUCache \<Rightarrow> ((u32 \<times> bool) list \<times> LRUCache) option" where
  "cache_run [] c = Some ([], c)"
| "cache_run (CGet k s # ops) c =
    do { (off, found, c1) \<leftarrow> Cache_Get c k s; (outs, c2) \<leftarrow> cache_run ops c1; Some ((off, found) # outs, c2) }"
| "cache_run (CSet k t # ops) c = do { c1 \<leftarrow> Cache_Set c k t; cache_run ops c1 }"
| "cache_run (CClear # ops) c = do { c1 \<leftarrow> Cache_Clear c; cache_run ops c1 }"

fun lru_run :: "nat \<Rightarrow> cache_op list \<Rightarrow> (int \<times> key_table) list \<Rightarrow> (u32 \<times> bool) list \<times> (int \<times> key_table) list" where
  "lru_run cap [] xs = ([], xs)"
| "lru_run cap (CGet k s # ops) xs =
    (let (off, found, xs1) = lru_get k s xs; (outs, xs2) = lru_run cap ops xs1 in ((off, found) # outs, xs2))"
| "lru_run cap (CSet k t # ops) xs = lru_run cap ops (lru_set cap k t xs)"
| "lru_run cap (CClear # ops) xs = lru_run cap ops []"

lemma cached_capacity: "cached c xs \<Longrightarrow> int (length xs) \<le> capacity c"
  by (auto simp: cached_def cache_rep_def entries_def)

lemma cache_run_correct:
  assumes "cached c xs"
  shows "\<exists>c'. cache_run ops c = Some (fst (lru_run (nat (capacity c)) ops xs), c') \<and>
    cached c' (snd (lru_run (nat (capacity c)) ops xs)) \<and> capacity c' = capacity c"
  using assms
proof (induction ops arbitrary: c xs)
  case (Cons op ops)
  show ?case
  proof (cases op)
    case (CGet k s)
    obtain c1 where "Cache_Get c k s = Some (fst (lru_get k s xs), fst (snd (lru_get k s xs)), c1)"
      "cached c1 (snd (snd (lru_get k s xs)))" "capacity c1 = capacity c"
      using Cache_Get_correct [OF Cons.prems] by blast
    with CGet Cons.IH [of c1] show ?thesis by (fastforce simp: split_def Let_def)
  next
    case (CSet k t)
    with Cache_Set_correct [OF Cons.prems, of k t] Cons.IH show ?thesis by fastforce
  next
    case CClear
    with Cache_Clear_correct [OF Cons.prems] Cons.IH show ?thesis by fastforce
  qed
qed (simp add: Let_def)

text \<open>
  C21: The cache is a least-recently-used list.  From a new cache of positive capacity every sequence of
  lookups, insertions and clearings runs without touching a null or freed node, answers as the list
  specification does (a hit moves a table to the front, a full cache drops the last), and
  never holds more tables than its capacity.
\<close>

theorem lru_cache_refines:
  assumes "1 \<le> n"
  shows "\<exists>c. cache_run ops (LRUCache_new n) = Some (fst (lru_run (nat n) ops []), c) \<and>
    cached c (snd (lru_run (nat n) ops [])) \<and> int (length (snd (lru_run (nat n) ops []))) \<le> n"
proof -
  have "capacity (LRUCache_new n) = n" by (simp add: LRUCache_new_def)
  with cache_run_correct [OF LRUCache_new_correct [OF assms], of ops] show ?thesis
    using cached_capacity by metis
qed

theorem lru_cache_refines_witness:
  "\<exists>c. cache_run [CSet 1 [[7] \<mapsto> 40], CSet 2 [[7] \<mapsto> 50], CGet 1 [7], CSet 3 Map.empty, CGet 2 [7], CGet 1 [7], CGet 3 [7]] (LRUCache_new 2) =
    Some ([(40, True), (0, False), (40, True), (0, True)], c)"
  using lru_cache_refines [of 2 "[CSet 1 [[7] \<mapsto> 40], CSet 2 [[7] \<mapsto> 50], CGet 1 [7], CSet 3 Map.empty, CGet 2 [7], CGet 1 [7], CGet 3 [7]]"]
  by (auto simp: lru_get_def lru_set_def lru_touch_def Let_def)

text \<open>
  A cache of capacity 0 crashes on its first insertion: it evicts from an empty list, and detaching the
  head sentinel dereferences its null predecessor.
\<close>

theorem lru_cache_capacity_0:
  "Cache_Set (LRUCache_new 0) k t = None"
  by (simp add: Cache_Set_def LRUCache_new_def RemoveLRUNode_def DetachNode_def set_next_def fresh_node_def)

end
