(* ===== verification/Database.thy ===== *)
theory Database
  imports Buffer_Runs Engine_Correct LRU_Cache
begin

text \<open>
  \<^verbatim>\<open>db/data_base.cpp\<close>: the database over the buffer, the engine and the cache, and its flush thread.

  The flush thread is a program counter and a step function: each step is one operation that the code
  runs under a lock (or alone on data no one else writes), so that a run of the database is a sequence of
  client operations and steps of the thread in any order.  A step in the waiting state is a turn of the loop after its wait
  returned; whether it returns is the subject of \<open>Event_Wait\<close>.  \<open>None\<close> is undefined behaviour, a failed
  \<^verbatim>\<open>assert\<close> or an uncaught exception.
\<close>

section \<open>State and operations\<close>

datatype flush_pc =
    FTop | FWait
  | FOpened int bytes
  | FWritten int bytes key_table
  | FCleared int bytes key_table
  | FCached int bytes
  | FDone

record DataBase =
  is_stop :: bool
  db_heap :: heap
  db_buffer :: StorageBuffer
  db_engine :: StorageEngine
  db_cache :: LRUCache
  flush_thread :: flush_pc
  shutdown_notified :: nat

definition DataBase_new :: "heap \<Rightarrow> StorageBuffer \<Rightarrow> StorageEngine \<Rightarrow> LRUCache \<Rightarrow> DataBase" where
  "DataBase_new h sb eng c =
    \<lparr>is_stop = False, db_heap = h, db_buffer = sb, db_engine = eng, db_cache = c, flush_thread = FTop, shutdown_notified = 0\<rparr>"

text \<open>A deletion stores the tombstone; the caller's \<^verbatim>\<open>value\<close> is overwritten, so it is returned.\<close>

definition stored_value :: "OrderType \<Rightarrow> bytes \<Rightarrow> bytes" where
  "stored_value order_type v = (if order_type = Delete then TombValue else v)"

definition DB_Add :: "DataBase \<Rightarrow> OrderType \<Rightarrow> bytes \<Rightarrow> bytes \<Rightarrow> DataBase option" where
  "DB_Add db order_type key v =
    do { let order_type' = (if order_type = Delete then Put else order_type);
         (h, sb) \<leftarrow> Add (db_heap db) (db_buffer db) order_type' (string_array key) (string_array (stored_value order_type v));
         Some (db\<lparr>db_heap := h, db_buffer := sb\<rparr>) }"

text \<open>The two nested loops over \<^verbatim>\<open>contains_files\<close> visit its files in order; offset 0 means the key is not there.\<close>

fun search_files :: "host \<Rightarrow> StorageEngine \<Rightarrow> bytes \<Rightarrow> File list \<Rightarrow> LRUCache \<Rightarrow> (bytes option \<times> LRUCache) option" where
  "search_files host eng key [] c = Some (None, c)"
| "search_files host eng key (file # files) c =
    do { (offset0, if_exists, c1) \<leftarrow> Cache_Get c (file_id file) key;
         (offset, c2) \<leftarrow>
           (if if_exists then Some (offset0, c1)
            else do { key_offset \<leftarrow> LoadKeyOffset host eng (file_id file) Map.empty;
                      c2 \<leftarrow> Cache_Set c1 (file_id file) key_offset;
                      Some (case key_offset key of None \<Rightarrow> offset0 | Some off \<Rightarrow> off, c2) });
         if offset \<noteq> 0
         then do { v \<leftarrow> GetValueByOffset eng (file_id file) offset; Some (Some v, c2) }
         else search_files host eng key files c2 }"

text \<open>
  \<^verbatim>\<open>Get\<close> looks into the buffers under their lock, lets go of it, and looks into the files under the read lock of the
  engine.  Status \<open>-1\<close> is \<open>None\<close> in the first component.
\<close>

definition DB_GetBuffers :: "DataBase \<Rightarrow> bytes \<Rightarrow> (bytes option \<times> DataBase) option" where
  "DB_GetBuffers db key = do { (r, h) \<leftarrow> Buffer_Get (db_heap db) (db_buffer db) key; Some (r, db\<lparr>db_heap := h\<rparr>) }"

definition DB_GetFiles :: "host \<Rightarrow> DataBase \<Rightarrow> bytes \<Rightarrow> (bytes option \<times> DataBase) option" where
  "DB_GetFiles host db key =
    do { (r, c) \<leftarrow> search_files host (db_engine db) key (concat (GetContainsFiles (db_engine db) key)) (db_cache db);
         Some (r, db\<lparr>db_cache := c\<rparr>) }"

definition DB_Get :: "host \<Rightarrow> DataBase \<Rightarrow> bytes \<Rightarrow> (bytes option \<times> DataBase) option" where
  "DB_Get host db key =
    (if is_stop db then Some (None, db)
     else
       do { (r, db1) \<leftarrow> DB_GetBuffers db key;
            case r of
              Some v \<Rightarrow> Some (Some v, db1)
            | None \<Rightarrow> DB_GetFiles host db1 key })"

text \<open>
  One step of \<^verbatim>\<open>ProcessingLoopFlushBuffer\<close>: become idle; wait for a flush buffer; open a file; write the buffer
  into it; clear the buffer; put the key table into the cache; add the file to the engine.
\<close>

definition flush_thread_step :: "host \<Rightarrow> iteration \<Rightarrow> DataBase \<Rightarrow> DataBase option" where
  "flush_thread_step host iter db =
    (case flush_thread db of
       FTop \<Rightarrow>
         Some (if is_stop db then db\<lparr>flush_thread := FDone\<rparr>
               else db\<lparr>db_buffer := SetFlushThreadIdle (db_buffer db), flush_thread := FWait\<rparr>)
     | FWait \<Rightarrow>
         if is_stop db then Some (db\<lparr>flush_thread := FDone\<rparr>)
         else if \<not> FlushBufferReady (db_buffer db) then Some db
         else do { (fid, name, eng) \<leftarrow> NewWritableFile (db_engine db) 0;
                   Some (db\<lparr>db_engine := eng, flush_thread := FOpened fid name\<rparr>) }
     | FOpened fid name \<Rightarrow>
         do { (img, key_offset) \<leftarrow> FlushBuffer host iter (db_heap db) (db_buffer db) Map.empty;
              Some (db\<lparr>db_engine := write_file (db_engine db) name img, flush_thread := FWritten fid name key_offset\<rparr>) }
     | FWritten fid name key_offset \<Rightarrow>
         (case ClearFlushBuffer (db_heap db) (db_buffer db) of (h, sb) \<Rightarrow>
           Some (db\<lparr>db_heap := h, db_buffer := sb, flush_thread := FCleared fid name key_offset\<rparr>))
     | FCleared fid name key_offset \<Rightarrow>
         do { c \<leftarrow> Cache_Set (db_cache db) fid key_offset;
              Some (db\<lparr>db_cache := c, flush_thread := FCached fid name\<rparr>) }
     | FCached fid name \<Rightarrow>
         do { eng \<leftarrow> AddFile (db_engine db) name;
              Some (db\<lparr>db_engine := eng, flush_thread := FTop\<rparr>) }
     | FDone \<Rightarrow> Some db)"

definition DB_ShutDown :: "DataBase \<Rightarrow> DataBase" where
  "DB_ShutDown db = db\<lparr>is_stop := True, shutdown_notified := shutdown_notified db + 1\<rparr>"

definition DB_ClearCache :: "DataBase \<Rightarrow> DataBase option" where
  "DB_ClearCache db = do { c \<leftarrow> Cache_Clear (db_cache db); Some (db\<lparr>db_cache := c\<rparr>) }"


section \<open>Runs\<close>

text \<open>A lookup is one operation, \<open>DGet\<close>, or its two parts, between which other operations may come.\<close>

datatype db_op = DAdd OrderType bytes bytes | DGet bytes | DGetBuffers bytes | DGetFiles bytes | DClearCache | DFlushStep

datatype db_output = Got "bytes option" | Done

fun db_step :: "host \<Rightarrow> iteration \<Rightarrow> db_op \<Rightarrow> DataBase \<Rightarrow> (db_output \<times> DataBase) option" where
  "db_step host iter (DAdd t k v) db = do { db' \<leftarrow> DB_Add db t k v; Some (Done, db') }"
| "db_step host iter (DGet k) db = do { (r, db') \<leftarrow> DB_Get host db k; Some (Got r, db') }"
| "db_step host iter (DGetBuffers k) db = do { (r, db') \<leftarrow> DB_GetBuffers db k; Some (Got r, db') }"
| "db_step host iter (DGetFiles k) db = do { (r, db') \<leftarrow> DB_GetFiles host db k; Some (Got r, db') }"
| "db_step host iter DClearCache db = do { db' \<leftarrow> DB_ClearCache db; Some (Done, db') }"
| "db_step host iter DFlushStep db = do { db' \<leftarrow> flush_thread_step host iter db; Some (Done, db') }"

fun db_run :: "host \<Rightarrow> iteration \<Rightarrow> db_op list \<Rightarrow> DataBase \<Rightarrow> (db_output list \<times> DataBase) option" where
  "db_run host iter [] db = Some ([], db)"
| "db_run host iter (op # ops) db =
    do { (out, db1) \<leftarrow> db_step host iter op db; (outs, db2) \<leftarrow> db_run host iter ops db1; Some (out # outs, db2) }"

text \<open>A database on an empty data folder.\<close>

definition db_start :: "u32 \<Rightarrow> int \<Rightarrow> int \<Rightarrow> ptr \<Rightarrow> DataBase option" where
  "db_start size_limit files_limit cache_size lit =
    do { (h, sb) \<leftarrow> StorageBuffer_new empty_heap size_limit lit;
         eng \<leftarrow> StorageEngine_new Map.empty [] files_limit;
         Some (DataBase_new h sb eng (LRUCache_new cache_size)) }"


section \<open>The specification\<close>

text \<open>
  The same machine without memory, files or cache: the two buffers, the entries in limbo (which the flush
  thread has cleared from the buffer and not yet added to the engine), the contents of the files with
  the newest first, and the phase of the flush thread.
\<close>

datatype flush_phase = PTop | PWait | POpened | PWritten | PCleared | PCached

record db_spec =
  ds_buffer :: buffer_spec
  ds_limbo :: "kv list option"
  ds_files :: "kv list list"
  ds_phase :: flush_phase

definition ds_new :: db_spec where
  "ds_new = \<lparr>ds_buffer = spec_new, ds_limbo = None, ds_files = [], ds_phase = PTop\<rparr>"

definition ds_add :: "u32 \<Rightarrow> bytes \<Rightarrow> bytes \<Rightarrow> buffer_spec \<Rightarrow> buffer_spec" where
  "ds_add limit k v s =
    (let income = put_key fst (k, v) (spec_income s); n = spec_size s + of_nat (length (entry_bytes k v))
     in if n > limit \<and> spec_idle s
        then \<lparr>spec_income = [], spec_flush = Some income, spec_size = 0, spec_idle = False\<rparr>
        else s\<lparr>spec_income := income, spec_size := n\<rparr>)"

text \<open>A lookup sees the buffers and the files, not the entries in limbo.\<close>

definition ds_get_buffers :: "db_spec \<Rightarrow> bytes \<Rightarrow> bytes option" where
  "ds_get_buffers a k = lookup (spec_income (ds_buffer a)) (spec_flush (ds_buffer a)) k"

definition ds_get_files :: "db_spec \<Rightarrow> bytes \<Rightarrow> bytes option" where
  "ds_get_files a k = map_of (concat (ds_files a)) k"

definition ds_get :: "db_spec \<Rightarrow> bytes \<Rightarrow> bytes option" where
  "ds_get a k =
    (case lookup (spec_income (ds_buffer a)) (spec_flush (ds_buffer a)) k of
       Some v \<Rightarrow> Some v | None \<Rightarrow> map_of (concat (ds_files a)) k)"

definition ds_flush_step :: "db_spec \<Rightarrow> db_spec" where
  "ds_flush_step a =
    (let s = ds_buffer a in
     case ds_phase a of
       PTop \<Rightarrow> a\<lparr>ds_buffer := s\<lparr>spec_idle := True\<rparr>, ds_phase := PWait\<rparr>
     | PWait \<Rightarrow> if spec_flush s = None then a else a\<lparr>ds_phase := POpened\<rparr>
     | POpened \<Rightarrow> a\<lparr>ds_phase := PWritten\<rparr>
     | PWritten \<Rightarrow> a\<lparr>ds_buffer := s\<lparr>spec_flush := None\<rparr>, ds_limbo := spec_flush s, ds_phase := PCleared\<rparr>
     | PCleared \<Rightarrow> a\<lparr>ds_phase := PCached\<rparr>
     | PCached \<Rightarrow> a\<lparr>ds_limbo := None, ds_files := (case ds_limbo a of None \<Rightarrow> [] | Some es \<Rightarrow> [es]) @ ds_files a, ds_phase := PTop\<rparr>)"

fun ds_step :: "u32 \<Rightarrow> db_op \<Rightarrow> db_spec \<Rightarrow> db_output \<times> db_spec" where
  "ds_step limit (DAdd t k v) a = (Done, a\<lparr>ds_buffer := ds_add limit k (stored_value t v) (ds_buffer a)\<rparr>)"
| "ds_step limit (DGet k) a = (Got (ds_get a k), a)"
| "ds_step limit (DGetBuffers k) a = (Got (ds_get_buffers a k), a)"
| "ds_step limit (DGetFiles k) a = (Got (ds_get_files a k), a)"
| "ds_step limit DClearCache a = (Done, a)"
| "ds_step limit DFlushStep a = (Done, ds_flush_step a)"

fun ds_run :: "u32 \<Rightarrow> db_op list \<Rightarrow> db_spec \<Rightarrow> db_output list \<times> db_spec" where
  "ds_run limit [] a = ([], a)"
| "ds_run limit (op # ops) a =
    (let (out, a1) = ds_step limit op a; (outs, a2) = ds_run limit ops a1 in (out # outs, a2))"

text \<open>What a client expects: the value of the last \<^verbatim>\<open>Add\<close> of the key.\<close>

fun latest :: "db_op list \<Rightarrow> bytes \<Rightarrow> bytes option" where
  "latest [] k = None"
| "latest (DAdd t k' v # ops) k =
    (case latest ops k of Some w \<Rightarrow> Some w | None \<Rightarrow> if k = k' then Some (stored_value t v) else None)"
| "latest (DGet k' # ops) k = latest ops k"
| "latest (DGetBuffers k' # ops) k = latest ops k"
| "latest (DGetFiles k' # ops) k = latest ops k"
| "latest (DClearCache # ops) k = latest ops k"
| "latest (DFlushStep # ops) k = latest ops k"

end
