(* ===== verification/Database_Correct.thy ===== *)
theory Database_Correct
  imports Database
begin

text \<open>
  Correctness of the database.  \<open>db_inv\<close> relates a database to the state of its buffer specification, the
  contents of its files and the entries in limbo: those the flush thread has cleared from the buffer but not
  yet added to the engine.  Every step keeps it, and a lookup returns the latest value unless the flush
  thread is between the two.
\<close>

section \<open>Searching the files\<close>

definition tables_of :: "StorageEngine \<Rightarrow> (int \<Rightarrow> kv list) \<Rightarrow> int \<Rightarrow> key_table option" where
  "tables_of eng cont fid = map_option (\<lambda>f. file_table (cont fid)) (files_map eng fid)"

lemma offset_of_key:
  assumes "holds_image host iter f es"
  shows "(case file_table es k of None \<Rightarrow> map_of es k = None
      | Some off \<Rightarrow> off \<noteq> 0 \<and> map_of es k \<noteq> None \<and> GetValueByOffset_file f off = map_of es k)"
proof (cases "k \<in> fst ` set es")
  case True
  then obtain v where v: "map_of es k = Some v" by (metis map_of_eq_None_iff not_None_eq)
  then have "(k, v) \<in> set es" by (rule map_of_SomeD)
  from GetValueByOffset_image [OF assms this] v show ?thesis by auto
next
  case False
  then show ?thesis by (simp add: file_table_None map_of_eq_None_iff)
qed

lemma search_files_correct:
  assumes "iterates iter" "\<forall>f \<in> set files. file_ok host iter eng cont f \<and> T (file_id f) = Some (file_table (cont (file_id f)))"
    and "lru.coherent T c"
  shows "\<exists>c'. search_files host eng k files c = Some (map_of (concat (map (\<lambda>f. cont (file_id f)) files)) k, c') \<and> lru.coherent T c'"
  using assms(2,3)
proof (induction files arbitrary: c)
  case (Cons f files)
  let ?es = "cont (file_id f)"
  have f: "files_map eng (file_id f) = Some f" "holds_image host iter f ?es" "T (file_id f) = Some (file_table ?es)"
    using Cons.prems(1) by (simp_all add: file_ok_def)
  obtain off found c1 where get: "Cache_Get c (file_id f) k = Some (off, found, c1)" "lru.coherent T c1"
    "found \<longrightarrow> off = (case file_table ?es k of None \<Rightarrow> 0 | Some off \<Rightarrow> off)" "\<not> found \<longrightarrow> off = 0"
    using lru.coherent_get [OF Cons.prems(2) f(3)] by blast
  obtain c2 where put: "Cache_Set c1 (file_id f) (file_table ?es) = Some c2" "lru.coherent T c2"
    using lru.coherent_put [OF get(2) f(3)] by blast
  have load: "LoadKeyOffset host eng (file_id f) Map.empty = Some (file_table ?es)"
    using f(1) LoadKeyOffset_image [OF f(2) assms(1)] by (simp add: LoadKeyOffset_def)
  define c3 where "c3 = (if found then c1 else c2)"
  have c3: "lru.coherent T c3" using get(2) put(2) by (simp add: c3_def)
  have step: "search_files host eng k (f # files) c =
      (let off = (case file_table ?es k of None \<Rightarrow> 0 | Some off \<Rightarrow> off) in
       if off \<noteq> 0 then do { v \<leftarrow> GetValueByOffset eng (file_id f) off; Some (Some v, c3) } else search_files host eng k files c3)"
    using get put(1) load by (cases found) (auto simp: c3_def Let_def split: option.splits)
  obtain c4 where IH: "search_files host eng k files c3 = Some (map_of (concat (map (\<lambda>f. cont (file_id f)) files)) k, c4)" "lru.coherent T c4"
    using Cons.IH [OF _ c3] Cons.prems(1) by auto
  show ?case
  proof (cases "file_table ?es k")
    case None
    with offset_of_key [OF f(2), of k] IH show ?thesis by (simp add: step Let_def map_add_def del: search_files.simps)
  next
    case (Some off)
    with offset_of_key [OF f(2), of k] f(1) c3 show ?thesis
      by (auto simp: step Let_def map_add_def GetValueByOffset_def simp del: search_files.simps)
  qed
qed simp


section \<open>The size of the contents\<close>

lemma put_key_entries:
  assumes "sorted_wrt (<) (map fst es)"
  shows "length (entries_of (put_key fst e es)) \<le> length (entry_of e) + length (entries_of es)"
  using assms
proof (induction es)
  case (Cons x es)
  then show ?case by (auto simp: put_key_Cons entries_of_Cons)
qed (simp add: entries_of_def)


section \<open>The invariant of the database\<close>

text \<open>An opened file: its id is the last one given and no file of the engine has it.\<close>

definition opened :: "StorageEngine \<Rightarrow> int \<Rightarrow> bytes \<Rightarrow> bool" where
  "opened eng fid name \<longleftrightarrow> FileName 0 fid = Some name \<and> 0 \<le> fid \<and> fid \<le> last_file_id eng \<and>
    (\<forall>f \<in> set (all_files eng). file_id f \<noteq> fid \<and> (level_id f = 0 \<longrightarrow> file_id f < fid))"

definition phase_of :: "flush_pc \<Rightarrow> flush_phase option" where
  "phase_of pc =
    (case pc of FTop \<Rightarrow> Some PTop | FWait \<Rightarrow> Some PWait | FOpened fid name \<Rightarrow> Some POpened | FWritten fid name ko \<Rightarrow> Some PWritten
     | FCleared fid name ko \<Rightarrow> Some PCleared | FCached fid name \<Rightarrow> Some PCached | FDone \<Rightarrow> None)"

text \<open>What the flush thread relies on at each point, of the engine and of the specification's state.\<close>

definition thread_inv :: "host \<Rightarrow> iteration \<Rightarrow> StorageEngine \<Rightarrow> flush_pc \<Rightarrow> db_spec \<Rightarrow> bool" where
  "thread_inv host iter eng pc a \<longleftrightarrow>
    (case pc of
       FTop \<Rightarrow> ds_limbo a = None \<and> spec_flush (ds_buffer a) = None \<and> \<not> spec_idle (ds_buffer a)
     | FWait \<Rightarrow> ds_limbo a = None
     | FOpened fid name \<Rightarrow> ds_limbo a = None \<and> spec_flush (ds_buffer a) \<noteq> None \<and> opened eng fid name
     | FWritten fid name key_offset \<Rightarrow> ds_limbo a = None \<and>
         (\<exists>es. spec_flush (ds_buffer a) = Some es \<and> pending host iter eng fid name es \<and> key_offset = file_table es)
     | FCleared fid name key_offset \<Rightarrow> spec_flush (ds_buffer a) = None \<and> \<not> spec_idle (ds_buffer a) \<and>
         (\<exists>es. ds_limbo a = Some es \<and> pending host iter eng fid name es \<and> key_offset = file_table es)
     | FCached fid name \<Rightarrow> spec_flush (ds_buffer a) = None \<and> \<not> spec_idle (ds_buffer a) \<and>
         (\<exists>es. ds_limbo a = Some es \<and> pending host iter eng fid name es)
     | FDone \<Rightarrow> False)"

text \<open>The tables the cache must agree with: those of the files, and of the one about to be added.\<close>

definition expected_tables :: "StorageEngine \<Rightarrow> flush_pc \<Rightarrow> kv list option \<Rightarrow> (int \<Rightarrow> kv list) \<Rightarrow> int \<Rightarrow> key_table option" where
  "expected_tables eng pc limbo cont =
    (case (pc, limbo) of
       (FCached fid name, Some es) \<Rightarrow> (tables_of eng cont)(fid \<mapsto> file_table es)
     | _ \<Rightarrow> tables_of eng cont)"

definition sizes_ok :: "int \<Rightarrow> buffer_spec \<Rightarrow> bool" where
  "sizes_ok c s \<longleftrightarrow> int (length (entries_of (spec_income s))) \<le> c \<and>
    (\<forall>es. spec_flush s = Some es \<longrightarrow> int (length (entries_of es)) \<le> c)"

definition files_hold :: "StorageEngine \<Rightarrow> (int \<Rightarrow> kv list) \<Rightarrow> kv list list \<Rightarrow> bool" where
  "files_hold eng cont files \<longleftrightarrow> (\<forall>k. eng_lookup eng cont k = map_of (concat files) k)"

definition db_inv :: "host \<Rightarrow> iteration \<Rightarrow> u32 \<Rightarrow> int \<Rightarrow> int \<Rightarrow> DataBase \<Rightarrow> db_spec \<Rightarrow> (int \<Rightarrow> kv list) \<Rightarrow> bool" where
  "db_inv host iter limit c n db a cont \<longleftrightarrow>
    \<not> is_stop db \<and> sim limit c (db_heap db, db_buffer db) (ds_buffer a) \<and> sizes_ok c (ds_buffer a) \<and>
    eng_ok host iter (db_engine db) cont \<and> last_file_id (db_engine db) < n \<and> files_hold (db_engine db) cont (ds_files a) \<and>
    phase_of (flush_thread db) = Some (ds_phase a) \<and> thread_inv host iter (db_engine db) (flush_thread db) a \<and>
    lru.coherent (expected_tables (db_engine db) (flush_thread db) (ds_limbo a) cont) (db_cache db)"

text \<open>The relation between a database and its specification, with the contents of the files hidden.\<close>

definition db_sim :: "host \<Rightarrow> iteration \<Rightarrow> u32 \<Rightarrow> int \<Rightarrow> int \<Rightarrow> DataBase \<Rightarrow> db_spec \<Rightarrow> bool" where
  "db_sim host iter limit c n db a \<longleftrightarrow> (\<exists>cont. db_inv host iter limit c n db a cont)"

lemma db_inv_mono: "db_inv host iter limit c n db a cont \<Longrightarrow> n \<le> n' \<Longrightarrow> db_inv host iter limit c n' db a cont"
  by (simp add: db_inv_def)

lemma sim_sorted: "sim limit c hs s \<Longrightarrow> sorted_wrt (<) (map fst (spec_income s))"
  using part_rep_sorted by (auto simp: sim_def sb_rep_def split: prod.splits)

lemma sim_idle: "sim limit c hs s \<Longrightarrow> spec_idle s \<Longrightarrow> spec_flush s = None"
  by (auto simp: sim_def sb_rep_def split: prod.splits)

lemma ds_add_step: "snd (spec_step host iter limit (BAdd t k v) s) = ds_add limit k v s"
  by (simp add: ds_add_def Let_def)

lemma add_sizes:
  assumes "sizes_ok c s" "sorted_wrt (<) (map fst (spec_income s))" "0 \<le> c"
  shows "sizes_ok (c + op_cost (BAdd t k v)) (ds_add limit k v s)"
proof -
  have "0 \<le> kBlockSize" by (simp add: kBlockSize_def)
  then show ?thesis
    using assms put_key_entries [OF assms(2), of "(k, v)"]
    by (fastforce simp: sizes_ok_def ds_add_def Let_def entry_of_def entries_of_def [of "[]"])
qed

lemma thread_inv_add:
  assumes "sim limit c hs (ds_buffer a)" "thread_inv host iter eng pc a"
  shows "thread_inv host iter eng pc (a\<lparr>ds_buffer := ds_add limit k v (ds_buffer a)\<rparr>)"
  using assms(2) sim_idle [OF assms(1)] by (cases pc) (auto simp: thread_inv_def ds_add_def Let_def)


section \<open>Client operations\<close>

lemma db_inv_add:
  assumes inv: "db_inv host iter limit c n db a cont" and k: "str ''00000'' \<le> k"
    and room: "c + op_cost (BAdd Put k (stored_value t v)) < 2 ^ 31"
  shows "\<exists>db'. DB_Add db t k v = Some db' \<and>
    db_inv host iter limit (c + op_cost (BAdd Put k (stored_value t v))) n db' (a\<lparr>ds_buffer := ds_add limit k (stored_value t v) (ds_buffer a)\<rparr>) cont"
proof -
  let ?t = "if t = Delete then Put else t" and ?v = "stored_value t v"
  let ?a = "a\<lparr>ds_buffer := ds_add limit k ?v (ds_buffer a)\<rparr>"
  have sim: "sim limit c (db_heap db, db_buffer db) (ds_buffer a)" using inv by (simp add: db_inv_def)
  have cost: "op_cost (BAdd ?t k ?v) = op_cost (BAdd Put k ?v)" by simp
  obtain h sb where add: "Add (db_heap db) (db_buffer db) ?t (string_array k) (string_array ?v) = Some (h, sb)"
    "sim limit (c + op_cost (BAdd Put k ?v)) (h, sb) (ds_add limit k ?v (ds_buffer a))"
    using sim_add [OF sim k, of ?t ?v host iter] room unfolding cost ds_add_step by blast
  have "0 \<le> c" using sim by (simp add: sim_def kBlockSize_def)
  then have "sizes_ok (c + op_cost (BAdd Put k ?v)) (ds_add limit k ?v (ds_buffer a))"
    using add_sizes [OF _ sim_sorted [OF sim], of c Put] inv by (simp add: db_inv_def)
  then have "db_inv host iter limit (c + op_cost (BAdd Put k ?v)) n (db\<lparr>db_heap := h, db_buffer := sb\<rparr>) ?a cont"
    using inv add(2) thread_inv_add [OF sim] by (simp add: db_inv_def)
  moreover have "DB_Add db t k v = Some (db\<lparr>db_heap := h, db_buffer := sb\<rparr>)" using add(1) by (simp add: DB_Add_def Let_def)
  ultimately show ?thesis by blast
qed

lemma expected_tables_file:
  assumes "db_inv host iter limit c n db a cont" "f \<in> set (all_files (db_engine db))"
  shows "expected_tables (db_engine db) (flush_thread db) (ds_limbo a) cont (file_id f) = Some (file_table (cont (file_id f)))"
proof -
  have "file_ok host iter (db_engine db) cont f" using assms by (simp add: db_inv_def eng_ok_def)
  then have "tables_of (db_engine db) cont (file_id f) = Some (file_table (cont (file_id f)))" by (simp add: file_ok_def tables_of_def)
  moreover have "thread_inv host iter (db_engine db) (flush_thread db) a" using assms(1) by (simp add: db_inv_def)
  ultimately show ?thesis
    using assms(2) by (auto simp: expected_tables_def thread_inv_def pending_def split: flush_pc.splits option.splits)
qed

text \<open>A lookup finds what the buffers or the files hold; entries in limbo are in neither.\<close>

lemma db_inv_get_buffers:
  assumes inv: "db_inv host iter limit c n db a cont" and k: "length (wrap_key k) < 2 ^ 31"
  shows "\<exists>h. DB_GetBuffers db k = Some (ds_get_buffers a k, db\<lparr>db_heap := h\<rparr>) \<and> db_inv host iter limit c n (db\<lparr>db_heap := h\<rparr>) a cont"
proof -
  let ?s = "ds_buffer a"
  have sim: "sim limit c (db_heap db, db_buffer db) ?s" using inv by (simp add: db_inv_def)
  obtain h where get: "Buffer_Get (db_heap db) (db_buffer db) k = Some (lookup (spec_income ?s) (spec_flush ?s) k, h)"
    "sb_rep h (db_buffer db) (spec_income ?s) (spec_flush ?s)"
    using Buffer_Get_rep [OF _ k] sim unfolding sim_def by blast
  moreover have "db_inv host iter limit c n (db\<lparr>db_heap := h\<rparr>) a cont" using inv get(2) by (simp add: db_inv_def sim_def)
  ultimately show ?thesis by (auto simp: DB_GetBuffers_def ds_get_buffers_def)
qed

lemma visited_files: "f \<in> set (concat (GetContainsFiles eng k)) \<Longrightarrow> f \<in> set (all_files eng)"
  by (auto simp: GetContainsFiles_def contains_in_def all_files_def dest: set_takeWhileD)

lemma visited_tables:
  assumes "db_inv host iter limit c n db a cont"
  shows "\<forall>f \<in> set (concat (GetContainsFiles (db_engine db) k)). file_ok host iter (db_engine db) cont f \<and>
    expected_tables (db_engine db) (flush_thread db) (ds_limbo a) cont (file_id f) = Some (file_table (cont (file_id f)))"
proof -
  have "eng_ok host iter (db_engine db) cont" using assms by (simp add: db_inv_def)
  then show ?thesis using GetContainsFiles_ok expected_tables_file [OF assms] visited_files by blast
qed

lemma db_inv_get_files:
  assumes inv: "db_inv host iter limit c n db a cont" and it: "iterates iter"
  shows "\<exists>c'. DB_GetFiles host db k = Some (ds_get_files a k, db\<lparr>db_cache := c'\<rparr>) \<and> db_inv host iter limit c n (db\<lparr>db_cache := c'\<rparr>) a cont"
proof -
  let ?T = "expected_tables (db_engine db) (flush_thread db) (ds_limbo a) cont"
  have ok: "eng_ok host iter (db_engine db) cont" and coh: "lru.coherent ?T (db_cache db)"
    and hold: "eng_lookup (db_engine db) cont k = map_of (concat (ds_files a)) k"
    using inv by (simp_all add: db_inv_def files_hold_def)
  obtain c' where "search_files host (db_engine db) k (concat (GetContainsFiles (db_engine db) k)) (db_cache db) = Some (map_of (concat (ds_files a)) k, c')"
    "lru.coherent ?T c'"
    using search_files_correct [OF it visited_tables [OF inv, of k] coh, of k] unfolding GetContainsFiles_lookup [OF ok] hold by blast
  moreover from this(2) have "db_inv host iter limit c n (db\<lparr>db_cache := c'\<rparr>) a cont" using inv by (simp add: db_inv_def)
  ultimately show ?thesis by (auto simp: DB_GetFiles_def ds_get_files_def)
qed

lemma ds_get_parts: "ds_get a k = (case ds_get_buffers a k of Some v \<Rightarrow> Some v | None \<Rightarrow> ds_get_files a k)"
  by (simp add: ds_get_def ds_get_buffers_def ds_get_files_def split: option.split)

lemma db_inv_get:
  assumes inv: "db_inv host iter limit c n db a cont" and it: "iterates iter" and k: "length (wrap_key k) < 2 ^ 31"
  shows "\<exists>db'. DB_Get host db k = Some (ds_get a k, db') \<and> db_inv host iter limit c n db' a cont"
proof -
  have stop: "\<not> is_stop db" using inv by (simp add: db_inv_def)
  obtain h where h: "DB_GetBuffers db k = Some (ds_get_buffers a k, db\<lparr>db_heap := h\<rparr>)" "db_inv host iter limit c n (db\<lparr>db_heap := h\<rparr>) a cont"
    using db_inv_get_buffers [OF inv k] by blast
  obtain db' where db': "DB_GetFiles host (db\<lparr>db_heap := h\<rparr>) k = Some (ds_get_files a k, db')" "db_inv host iter limit c n db' a cont"
    using db_inv_get_files [OF h(2) it] by blast
  show ?thesis
    by (cases "ds_get_buffers a k") (use stop h db' in \<open>simp_all add: DB_Get_def ds_get_parts\<close>)
qed

lemma db_inv_clear_cache:
  assumes inv: "db_inv host iter limit c n db a cont"
  shows "\<exists>db'. DB_ClearCache db = Some db' \<and> db_inv host iter limit c n db' a cont"
proof -
  have "lru_inv (db_cache db)" using inv by (simp add: db_inv_def lru.coherent_def)
  then obtain c' where c': "Cache_Clear (db_cache db) = Some c'" "cached c' []" using Cache_Clear_correct by (auto simp: lru_inv_def)
  have "lru.coherent T c'" for T using c'(2) cached_tables(1) [OF c'(2)] by (auto simp: lru.coherent_def lru_inv_def)
  then have "db_inv host iter limit c n (db\<lparr>db_cache := c'\<rparr>) a cont" using inv by (simp add: db_inv_def)
  then show ?thesis using c'(1) by (simp add: DB_ClearCache_def)
qed


section \<open>Steps of the flush thread\<close>

text \<open>A step of the thread is a step of the specification; it may take a file id, and it may add a file with the entries in limbo.\<close>

definition step_ok :: "host \<Rightarrow> iteration \<Rightarrow> u32 \<Rightarrow> int \<Rightarrow> int \<Rightarrow> db_spec \<Rightarrow> (int \<Rightarrow> kv list) \<Rightarrow> DataBase option \<Rightarrow> bool" where
  "step_ok host iter limit c n a cont r \<longleftrightarrow> (\<exists>db. r = Some db \<and> db_inv host iter limit c (n + 1) db (ds_flush_step a) cont)"

definition next_cont :: "flush_pc \<Rightarrow> db_spec \<Rightarrow> (int \<Rightarrow> kv list) \<Rightarrow> int \<Rightarrow> kv list" where
  "next_cont pc a cont = (case (pc, ds_limbo a) of (FCached fid name, Some es) \<Rightarrow> cont(fid := es) | _ \<Rightarrow> cont)"

lemma step_okI: "r = Some db \<Longrightarrow> db_inv host iter limit c (n + 1) db (ds_flush_step a) cont \<Longrightarrow> step_ok host iter limit c n a cont r"
  by (auto simp: step_ok_def)

lemma phase_D:
  assumes "db_inv host iter limit c n db a cont"
  shows "phase_of (flush_thread db) = Some (ds_phase a)" "thread_inv host iter (db_engine db) (flush_thread db) a"
    "sim limit c (db_heap db, db_buffer db) (ds_buffer a)" "\<not> is_stop db" "eng_ok host iter (db_engine db) cont"
    "files_hold (db_engine db) cont (ds_files a)" "sizes_ok c (ds_buffer a)" "last_file_id (db_engine db) < n"
    "lru.coherent (expected_tables (db_engine db) (flush_thread db) (ds_limbo a) cont) (db_cache db)"
  using assms by (simp_all add: db_inv_def)

lemma FTop_step:
  assumes inv: "db_inv host iter limit c n db a cont" and pc: "flush_thread db = FTop"
  shows "step_ok host iter limit c n a cont (flush_thread_step host iter db)"
proof (rule step_okI)
  let ?db = "db\<lparr>db_buffer := SetFlushThreadIdle (db_buffer db), flush_thread := FWait\<rparr>" and ?s = "(ds_buffer a)\<lparr>spec_idle := True\<rparr>"
  note d = phase_D [OF inv, unfolded pc]
  have t: "ds_phase a = PTop" "ds_limbo a = None" "spec_flush (ds_buffer a) = None" using d(1,2) by (simp_all add: phase_of_def thread_inv_def)
  have "sim limit c (db_heap ?db, db_buffer ?db) ?s"
    using d(3) t(3) by (auto simp: sim_def sb_rep_def SetFlushThreadIdle_def income_used_def)
  then show "db_inv host iter limit c (n + 1) ?db (ds_flush_step a) cont"
    using d(4-9) t by (simp add: db_inv_def thread_inv_def expected_tables_def sizes_ok_def ds_flush_step_def Let_def phase_of_def)
  show "flush_thread_step host iter db = Some ?db" using d(4) pc by (simp add: flush_thread_step_def)
qed

text \<open>An engine with the same file maps answers alike.\<close>

lemma same_maps:
  assumes "level_files eng' = level_files eng" "files_map eng' = files_map eng"
  shows "all_files eng' = all_files eng" "files_hold eng' = files_hold eng" "tables_of eng' = tables_of eng"
    and "eng_ok host iter eng cont \<Longrightarrow> last_file_id eng \<le> last_file_id eng' \<Longrightarrow> eng_ok host iter eng' cont"
proof -
  show all: "all_files eng' = all_files eng" by (simp add: all_files_def assms(1))
  have "eng_lookup eng' = eng_lookup eng" by (simp add: eng_lookup_def assms(1) fun_eq_iff)
  then show "files_hold eng' = files_hold eng" by (simp add: files_hold_def fun_eq_iff)
  show "tables_of eng' = tables_of eng" by (simp add: tables_of_def assms(2) fun_eq_iff)
  show "eng_ok host iter eng' cont" if "eng_ok host iter eng cont" "last_file_id eng \<le> last_file_id eng'"
    using that by (force simp: eng_ok_def all file_ok_def assms)
qed

lemma FWait_step:
  assumes inv: "db_inv host iter limit c n db a cont" and pc: "flush_thread db = FWait" and n: "n < 10 ^ 8"
  shows "step_ok host iter limit c n a cont (flush_thread_step host iter db)"
proof -
  let ?eng = "db_engine db" and ?fid = "last_file_id (db_engine db) + 1"
  note d = phase_D [OF inv, unfolded pc]
  have t: "ds_phase a = PWait" "ds_limbo a = None" using d(1,2) by (simp_all add: phase_of_def thread_inv_def)
  have ready: "FlushBufferReady (db_buffer db) \<longleftrightarrow> spec_flush (ds_buffer a) \<noteq> None"
    using d(3) by (auto simp: sim_def sb_rep_def FlushBufferReady_def)
  show ?thesis
  proof (cases "FlushBufferReady (db_buffer db)")
    case False
    then have "flush_thread_step host iter db = Some db" "ds_flush_step a = a"
      using d(4) pc t ready by (simp_all add: flush_thread_step_def ds_flush_step_def Let_def)
    then show ?thesis using step_okI [OF _ db_inv_mono [of _ _ _ _ n _ "ds_flush_step a"]] inv by simp
  next
    case True
    have fid: "0 \<le> ?fid" "?fid < 10 ^ 8" using d(5,8) n by (simp_all add: eng_ok_def)
    then obtain name where name: "FileName 0 ?fid = Some name" using FileName_fits(1) [of ?fid 0] by auto
    define eng where "eng = ?eng\<lparr>last_file_id := ?fid, data_folder := (data_folder ?eng)(FilePath name \<mapsto> [])\<rparr>"
    have run: "NewWritableFile ?eng 0 = Some (?fid, name, eng)" using name fid(2) by (simp add: NewWritableFile_def eng_def Let_def)
    have maps: "level_files eng = level_files ?eng" "files_map eng = files_map ?eng" "last_file_id eng = ?fid" by (simp_all add: eng_def)
    note same = same_maps [OF maps(1,2)]
    have "opened eng ?fid name" using d(5) name fid(1) by (auto simp: opened_def same(1) maps(3) eng_ok_def file_ok_def)
    moreover have "eng_ok host iter eng cont" using same(4) d(5) maps(3) by simp
    ultimately have "db_inv host iter limit c (n + 1) (db\<lparr>db_engine := eng, flush_thread := FOpened ?fid name\<rparr>) (ds_flush_step a) cont"
      using d(3-9) t True ready
      by (simp add: db_inv_def thread_inv_def expected_tables_def ds_flush_step_def Let_def phase_of_def same maps(3))
    then show ?thesis using True d(4) pc run by (intro step_okI) (simp_all add: flush_thread_step_def)
  qed
qed

lemma FOpened_step:
  assumes inv: "db_inv host iter limit c n db a cont" and pc: "flush_thread db = FOpened fid name"
    and it: "iterates iter" and c: "c < 2 ^ 28"
  shows "step_ok host iter limit c n a cont (flush_thread_step host iter db)"
proof -
  let ?eng = "db_engine db"
  note d = phase_D [OF inv, unfolded pc]
  obtain es where t: "ds_phase a = POpened" "ds_limbo a = None" "spec_flush (ds_buffer a) = Some es" and op: "opened ?eng fid name"
    using d(1,2) by (auto simp: phase_of_def thread_inv_def)
  have rep: "sb_rep (db_heap db) (db_buffer db) (spec_income (ds_buffer a)) (Some es)" using d(3) t(3) by (simp add: sim_def)
  have content: "content_ok es" using flush_content_ok [OF rep] d(3) t(3) by (simp add: sim_def)
  have "int (length (entries_of es)) < 2 ^ 28" using d(7) t(3) c by (auto simp: sizes_ok_def)
  note len = image_bound [OF it content this, of host]
  define eng where "eng = write_file ?eng name (file_image host iter es)"
  have maps: "level_files eng = level_files ?eng" "files_map eng = files_map ?eng" "last_file_id eng = last_file_id ?eng"
    by (simp_all add: eng_def write_file_def)
  note same = same_maps [OF maps(1,2)]
  have "pending host iter eng fid name es"
    using op len content by (simp add: opened_def pending_def same(1) maps(3)) (simp add: eng_def write_file_def)
  moreover have "eng_ok host iter eng cont" using same(4) d(5) maps(3) by simp
  ultimately have inv': "db_inv host iter limit c (n + 1) (db\<lparr>db_engine := eng, flush_thread := FWritten fid name (file_table es)\<rparr>) (ds_flush_step a) cont"
    using d(3-9) t by (simp add: db_inv_def thread_inv_def expected_tables_def ds_flush_step_def Let_def phase_of_def same maps(3))
  have "flush_thread_step host iter db = Some (db\<lparr>db_engine := eng, flush_thread := FWritten fid name (file_table es)\<rparr>)"
    using pc FlushBuffer_rep [OF rep content, of host iter] by (simp add: flush_thread_step_def eng_def)
  then show ?thesis using inv' by (rule step_okI)
qed

lemma FWritten_step:
  assumes inv: "db_inv host iter limit c n db a cont" and pc: "flush_thread db = FWritten fid name ko"
  shows "step_ok host iter limit c n a cont (flush_thread_step host iter db)"
proof -
  obtain h sb where clr: "ClearFlushBuffer (db_heap db) (db_buffer db) = (h, sb)" by fastforce
  note d = phase_D [OF inv, unfolded pc]
  obtain es where t: "ds_phase a = PWritten" "ds_limbo a = None" "spec_flush (ds_buffer a) = Some es"
      "pending host iter (db_engine db) fid name es" "ko = file_table es"
    using d(1,2) by (auto simp: phase_of_def thread_inv_def)
  have "sb_rep h sb (spec_income (ds_buffer a)) None" using ClearFlushBuffer_rep [OF _ clr] d(3) by (auto simp: sim_def)
  moreover have "income_size sb = income_size (db_buffer db)" "buffer_size sb = buffer_size (db_buffer db)"
    "income_used sb = income_used (db_buffer db)" "flush_thread_ready sb = flush_thread_ready (db_buffer db)"
    using clr by (auto simp: ClearFlushBuffer_def income_used_def)
  ultimately have "sim limit c (h, sb) ((ds_buffer a)\<lparr>spec_flush := None\<rparr>)" using d(3) by (simp add: sim_def)
  moreover have "\<not> spec_idle (ds_buffer a)" using sim_idle [OF d(3)] t(3) by auto
  ultimately have inv': "db_inv host iter limit c (n + 1) (db\<lparr>db_heap := h, db_buffer := sb, flush_thread := FCleared fid name ko\<rparr>) (ds_flush_step a) cont"
    using d(4-9) t by (simp add: db_inv_def thread_inv_def expected_tables_def sizes_ok_def ds_flush_step_def Let_def phase_of_def)
  have "flush_thread_step host iter db = Some (db\<lparr>db_heap := h, db_buffer := sb, flush_thread := FCleared fid name ko\<rparr>)"
    using pc clr by (simp add: flush_thread_step_def)
  then show ?thesis using inv' by (rule step_okI)
qed

lemma FCleared_step:
  assumes inv: "db_inv host iter limit c n db a cont" and pc: "flush_thread db = FCleared fid name ko"
  shows "step_ok host iter limit c n a cont (flush_thread_step host iter db)"
proof -
  note d = phase_D [OF inv, unfolded pc]
  obtain es where t: "ds_phase a = PCleared" "ds_limbo a = Some es" "ko = file_table es" "spec_flush (ds_buffer a) = None" "\<not> spec_idle (ds_buffer a)"
      "pending host iter (db_engine db) fid name es"
    using d(1,2) by (auto simp: phase_of_def thread_inv_def)
  have "lru.coherent (tables_of (db_engine db) cont) (db_cache db)" using d(9) by (simp add: expected_tables_def)
  then obtain c' where c': "Cache_Set (db_cache db) fid ko = Some c'" "lru.coherent ((tables_of (db_engine db) cont)(fid \<mapsto> ko)) c'"
    using lru.coherent_put_new by blast
  have "db_inv host iter limit c (n + 1) (db\<lparr>db_cache := c', flush_thread := FCached fid name\<rparr>) (ds_flush_step a) cont"
    using d(3-8) t c'(2) by (simp add: db_inv_def thread_inv_def expected_tables_def ds_flush_step_def Let_def phase_of_def)
  then show ?thesis using pc c'(1) by (intro step_okI) (simp_all add: flush_thread_step_def)
qed

lemma FCached_step:
  assumes inv: "db_inv host iter limit c n db a cont" and pc: "flush_thread db = FCached fid name"
  shows "step_ok host iter limit c n a (next_cont (flush_thread db) a cont) (flush_thread_step host iter db)"
proof -
  note d = phase_D [OF inv, unfolded pc]
  obtain es where t: "ds_phase a = PCached" "ds_limbo a = Some es" "spec_flush (ds_buffer a) = None" "\<not> spec_idle (ds_buffer a)"
      and p: "pending host iter (db_engine db) fid name es"
    using d(1,2) by (auto simp: phase_of_def thread_inv_def)
  from AddFile_pending [OF d(5) p] obtain eng f where eng: "AddFile (db_engine db) name = Some eng" "eng_ok host iter eng (cont(fid := es))"
    "\<forall>k. eng_lookup eng (cont(fid := es)) k = (case map_of es k of Some v \<Rightarrow> Some v | None \<Rightarrow> eng_lookup (db_engine db) cont k)"
    "last_file_id eng = last_file_id (db_engine db)" "files_map eng = (files_map (db_engine db))(fid \<mapsto> f)" by blast
  have "tables_of eng (cont(fid := es)) = (tables_of (db_engine db) cont)(fid \<mapsto> file_table es)"
    by (rule ext) (simp add: tables_of_def eng(5))
  moreover have "files_hold eng (cont(fid := es)) (es # ds_files a)"
    using d(6) eng(3) by (simp add: files_hold_def map_add_def split: option.split)
  ultimately have "db_inv host iter limit c (n + 1) (db\<lparr>db_engine := eng, flush_thread := FTop\<rparr>) (ds_flush_step a) (cont(fid := es))"
    using d(3,4,7-9) t eng by (simp add: db_inv_def thread_inv_def expected_tables_def ds_flush_step_def Let_def phase_of_def)
  then show ?thesis using pc eng(1) t(2) by (intro step_okI) (simp_all add: flush_thread_step_def next_cont_def)
qed

lemma flush_step_ok:
  assumes "db_inv host iter limit c n db a cont" "iterates iter" "c < 2 ^ 28" "flush_thread db = FWait \<longrightarrow> n < 10 ^ 8"
  shows "step_ok host iter limit c n a (next_cont (flush_thread db) a cont) (flush_thread_step host iter db)"
proof (cases "flush_thread db")
  case FTop
  then show ?thesis using FTop_step [OF assms(1)] by (simp add: next_cont_def)
next
  case FWait
  with assms(4) show ?thesis using FWait_step [OF assms(1)] by (simp add: next_cont_def)
next
  case FOpened
  then show ?thesis using FOpened_step [OF assms(1) _ assms(2,3)] by (simp add: next_cont_def)
next
  case FWritten
  then show ?thesis using FWritten_step [OF assms(1)] by (simp add: next_cont_def)
next
  case FCleared
  then show ?thesis using FCleared_step [OF assms(1)] by (simp add: next_cont_def)
next
  case FCached
  then show ?thesis by (rule FCached_step [OF assms(1)])
next
  case FDone
  with assms(1) show ?thesis by (simp add: db_inv_def thread_inv_def)
qed

end
