(* ===== verification/Database_Runs.thy ===== *)
theory Database_Runs
  imports Database_Correct
begin

text \<open>
  Runs of the database: every sequence of client operations and flush-thread steps refines the
  specification, and what the specification says of lookups, of the limbo and of deleted keys.
\<close>

section \<open>Simulation of runs\<close>

fun db_op_ok :: "db_op \<Rightarrow> bool" where
  "db_op_ok (DAdd t k v) \<longleftrightarrow> str ''00000'' \<le> k"
| "db_op_ok (DGet k) \<longleftrightarrow> length (wrap_key k) < 2 ^ 31"
| "db_op_ok (DGetBuffers k) \<longleftrightarrow> length (wrap_key k) < 2 ^ 31"
| "db_op_ok (DGetFiles k) \<longleftrightarrow> True"
| "db_op_ok DClearCache \<longleftrightarrow> True"
| "db_op_ok DFlushStep \<longleftrightarrow> True"

fun db_op_cost :: "db_op \<Rightarrow> int" where
  "db_op_cost (DAdd t k v) = op_cost (BAdd Put k (stored_value t v))"
| "db_op_cost (DGet k) = 0"
| "db_op_cost (DGetBuffers k) = 0"
| "db_op_cost (DGetFiles k) = 0"
| "db_op_cost DClearCache = 0"
| "db_op_cost DFlushStep = 0"

text \<open>The runs the theorems speak of: keys that \<^verbatim>\<open>Flush\<close> accepts, images below 4 GB, ids of eight digits.\<close>

definition runs_ok :: "db_op list \<Rightarrow> bool" where
  "runs_ok ops \<longleftrightarrow> (\<forall>op \<in> set ops. db_op_ok op) \<and> kBlockSize + sum_list (map db_op_cost ops) < 2 ^ 28 \<and> length ops < 10 ^ 8"

lemma runs_okI: "list_all db_op_ok ops \<Longrightarrow> kBlockSize + sum_list (map db_op_cost ops) < 2 ^ 28 \<Longrightarrow> length ops < 100 \<Longrightarrow> runs_ok ops"
  by (simp add: runs_ok_def list_all_iff)

lemma db_op_cost_pos: "0 \<le> db_op_cost op"
  by (cases op) (simp_all add: kBlockSize_def)

lemma db_sim_step:
  assumes sim: "db_sim host iter limit c n db a" and it: "iterates iter" and op: "db_op_ok op"
    and room: "c + db_op_cost op < 2 ^ 28" "n < 10 ^ 8"
  shows "\<exists>db'. db_step host iter op db = Some (fst (ds_step limit op a), db') \<and>
    db_sim host iter limit (c + db_op_cost op) (n + 1) db' (snd (ds_step limit op a))"
proof -
  obtain cont where inv: "db_inv host iter limit c n db a cont" using sim by (auto simp: db_sim_def)
  note up = db_inv_mono [of host iter limit _ n _ _ cont "n + 1"]
  show ?thesis
  proof (cases op)
    case (DAdd t k v)
    then obtain db' where "DB_Add db t k v = Some db'"
      "db_inv host iter limit (c + db_op_cost op) n db' (a\<lparr>ds_buffer := ds_add limit k (stored_value t v) (ds_buffer a)\<rparr>) cont"
      using db_inv_add [OF inv, of k t v] op room(1) by auto
    with DAdd up show ?thesis by (auto simp: db_sim_def)
  next
    case (DGet k)
    then obtain db' where "DB_Get host db k = Some (ds_get a k, db')" "db_inv host iter limit c n db' a cont"
      using db_inv_get [OF inv it, of k] op by auto
    with DGet up show ?thesis by (auto simp: db_sim_def)
  next
    case (DGetBuffers k)
    then obtain h where "DB_GetBuffers db k = Some (ds_get_buffers a k, db\<lparr>db_heap := h\<rparr>)" "db_inv host iter limit c n (db\<lparr>db_heap := h\<rparr>) a cont"
      using db_inv_get_buffers [OF inv, of k] op by auto
    with DGetBuffers up [OF this(2)] show ?thesis by (auto simp: db_sim_def)
  next
    case (DGetFiles k)
    obtain c' where "DB_GetFiles host db k = Some (ds_get_files a k, db\<lparr>db_cache := c'\<rparr>)" "db_inv host iter limit c n (db\<lparr>db_cache := c'\<rparr>) a cont"
      using db_inv_get_files [OF inv it] by blast
    with DGetFiles up [OF this(2)] show ?thesis by (auto simp: db_sim_def)
  next
    case DClearCache
    obtain db' where "DB_ClearCache db = Some db'" "db_inv host iter limit c n db' a cont" using db_inv_clear_cache [OF inv] by blast
    with DClearCache up [of c db' a] show ?thesis by (auto simp: db_sim_def)
  next
    case DFlushStep
    then show ?thesis using flush_step_ok [OF inv it] room by (auto simp: step_ok_def db_sim_def)
  qed
qed

lemma db_sim_run:
  assumes "db_sim host iter limit c n db a" "iterates iter" "\<forall>op \<in> set ops. db_op_ok op"
    and "c + sum_list (map db_op_cost ops) < 2 ^ 28" "n + int (length ops) < 10 ^ 8"
  shows "\<exists>db'. db_run host iter ops db = Some (fst (ds_run limit ops a), db') \<and>
    db_sim host iter limit (c + sum_list (map db_op_cost ops)) (n + int (length ops)) db' (snd (ds_run limit ops a))"
  using assms
proof (induction ops arbitrary: c n db a)
  case (Cons op ops)
  have "0 \<le> sum_list (map db_op_cost ops)" by (rule sum_list_nonneg) (auto simp: db_op_cost_pos)
  then have room: "c + db_op_cost op < 2 ^ 28" "n < 10 ^ 8" using Cons.prems(4,5) by simp_all
  obtain db1 where 1: "db_step host iter op db = Some (fst (ds_step limit op a), db1)"
    "db_sim host iter limit (c + db_op_cost op) (n + 1) db1 (snd (ds_step limit op a))"
    using db_sim_step [OF Cons.prems(1,2) _ room] Cons.prems(3) by auto
  from Cons.IH [OF 1(2) Cons.prems(2)] Cons.prems(3-5)
  obtain db2 where "db_run host iter ops db1 = Some (fst (ds_run limit ops (snd (ds_step limit op a))), db2)"
    "db_sim host iter limit (c + db_op_cost op + sum_list (map db_op_cost ops)) (n + 1 + int (length ops)) db2
      (snd (ds_run limit ops (snd (ds_step limit op a))))" by auto
  with 1 show ?case by (auto simp: Let_def split_def add.assoc)
qed simp

lemma db_start_sim:
  assumes "1 \<le> cache_size"
  shows "\<exists>db. db_start limit files_limit cache_size lit = Some db \<and> db_sim host iter limit kBlockSize 0 db ds_new"
proof -
  obtain h sb where new: "StorageBuffer_new empty_heap limit lit = Some (h, sb)" "sim limit kBlockSize (h, sb) spec_new"
    using new_sim [of empty_heap limit lit] by auto
  define eng where "eng = \<lparr>last_file_id = -1, level0_files_number_limit = files_limit, level_files = [],
    files_map = Map.empty, data_folder = Map.empty, compact_notified = 0\<rparr>"
  have eng: "StorageEngine_new Map.empty [] files_limit = Some eng" by (simp add: StorageEngine_new_def eng_def)
  let ?c = "LRUCache_new cache_size"
  have "cached ?c []" by (rule LRUCache_new_correct [OF assms])
  then have "lru.coherent T ?c" for T using cached_tables(1) by (auto simp: lru.coherent_def lru_inv_def)
  moreover have "eng_ok host iter eng (\<lambda>_. [])" "files_hold eng (\<lambda>_. []) []" "last_file_id eng < 0"
    by (simp_all add: eng_def eng_ok_def all_files_def files_hold_def eng_lookup_def)
  moreover have "sizes_ok kBlockSize spec_new" by (simp add: sizes_ok_def spec_new_def entries_of_def kBlockSize_def)
  ultimately have "db_inv host iter limit kBlockSize 0 (DataBase_new h sb eng ?c) ds_new (\<lambda>_. [])"
    using new(2) by (simp add: db_inv_def DataBase_new_def ds_new_def thread_inv_def phase_of_def spec_new_def)
  then show ?thesis using new(1) eng by (auto simp: db_start_def db_sim_def)
qed

lemma db_run_sim:
  assumes "runs_ok ops" "iterates iter" "1 \<le> cache_size"
  shows "\<exists>db0 db c n. db_start limit files_limit cache_size lit = Some db0 \<and>
    db_run host iter ops db0 = Some (fst (ds_run limit ops ds_new), db) \<and> db_sim host iter limit c n db (snd (ds_run limit ops ds_new)) \<and> c < 2 ^ 28"
  using db_start_sim [OF assms(3)] db_sim_run [OF _ assms(2), of host limit kBlockSize 0 _ ds_new ops] assms(1)
  unfolding runs_ok_def by (metis add_0 of_nat_less_iff of_nat_numeral of_nat_power)


section \<open>What the specification holds\<close>

text \<open>All entries of the specification, those in limbo included.\<close>

definition ds_map :: "db_spec \<Rightarrow> bytes \<Rightarrow> bytes option" where
  "ds_map a k =
    (case lookup (spec_income (ds_buffer a)) (spec_flush (ds_buffer a)) k of Some v \<Rightarrow> Some v
     | None \<Rightarrow> map_of (concat ((case ds_limbo a of None \<Rightarrow> [] | Some es \<Rightarrow> [es]) @ ds_files a)) k)"

definition window :: "flush_phase \<Rightarrow> bool" where
  "window p \<longleftrightarrow> p = PCleared \<or> p = PCached"

definition ds_ok :: "db_spec \<Rightarrow> bool" where
  "ds_ok a \<longleftrightarrow> sorted_wrt (<) (map fst (spec_income (ds_buffer a))) \<and> (spec_idle (ds_buffer a) \<longrightarrow> spec_flush (ds_buffer a) = None) \<and>
    (ds_limbo a \<noteq> None \<longrightarrow> window (ds_phase a)) \<and>
    (if ds_phase a = PWait then spec_flush (ds_buffer a) = None \<longrightarrow> spec_idle (ds_buffer a) else \<not> spec_idle (ds_buffer a)) \<and>
    (window (ds_phase a) \<or> ds_phase a = PTop \<longrightarrow> spec_flush (ds_buffer a) = None)"

lemma ds_ok_new: "ds_ok ds_new" "ds_map ds_new = Map.empty"
  by (simp_all add: ds_ok_def ds_new_def spec_new_def window_def ds_map_def lookup_def fun_eq_iff)

lemma ds_add_ok:
  assumes "ds_ok a"
  shows "ds_ok (a\<lparr>ds_buffer := ds_add limit k v (ds_buffer a)\<rparr>)"
    "ds_map (a\<lparr>ds_buffer := ds_add limit k v (ds_buffer a)\<rparr>) = (ds_map a)(k \<mapsto> v)"
proof -
  let ?s = "ds_buffer a"
  have s: "sorted_wrt (<) (map fst (spec_income ?s))" and idle: "spec_idle ?s \<longrightarrow> spec_flush ?s = None" using assms by (simp_all add: ds_ok_def)
  show "ds_ok (a\<lparr>ds_buffer := ds_add limit k v ?s\<rparr>)"
    using assms sorted_put_key [OF s] by (auto simp: ds_ok_def ds_add_def Let_def window_def)
  show "ds_map (a\<lparr>ds_buffer := ds_add limit k v ?s\<rparr>) = (ds_map a)(k \<mapsto> v)"
    by (rule ext) (use idle in \<open>auto simp: ds_map_def ds_add_def Let_def lookup_def map_of_put_key [OF s] split: option.split\<close>)
qed

lemma ds_flush_ok:
  assumes "ds_ok a"
  shows "ds_ok (ds_flush_step a)" "ds_map (ds_flush_step a) = ds_map a"
proof -
  show "ds_ok (ds_flush_step a)" using assms by (cases "ds_phase a") (auto simp: ds_ok_def ds_flush_step_def Let_def window_def)
  have limbo: "ds_limbo a = None" if "\<not> window (ds_phase a)" using that assms by (auto simp: ds_ok_def)
  show "ds_map (ds_flush_step a) = ds_map a"
    by (rule ext, cases "ds_phase a")
      (use limbo in \<open>auto simp: ds_map_def ds_flush_step_def Let_def window_def lookup_def map_add_def split: option.split\<close>)
qed

lemma ds_step_ok:
  assumes "ds_ok a"
  shows "ds_ok (snd (ds_step limit op a))"
    "ds_map (snd (ds_step limit op a)) k = (case latest [op] k of Some v \<Rightarrow> Some v | None \<Rightarrow> ds_map a k)"
  using ds_add_ok [OF assms] ds_flush_ok [OF assms] assms by (cases op; simp)+

lemma latest_Cons: "latest (op # ops) k = (case latest ops k of Some v \<Rightarrow> Some v | None \<Rightarrow> latest [op] k)"
  by (cases op) (auto split: option.split)

lemma ds_run_ok:
  assumes "ds_ok a"
  shows "ds_ok (snd (ds_run limit ops a))"
    "ds_map (snd (ds_run limit ops a)) k = (case latest ops k of Some v \<Rightarrow> Some v | None \<Rightarrow> ds_map a k)"
proof -
  have "ds_ok (snd (ds_run limit ops a)) \<and>
      ds_map (snd (ds_run limit ops a)) k = (case latest ops k of Some v \<Rightarrow> Some v | None \<Rightarrow> ds_map a k)"
    using assms
  proof (induction ops arbitrary: a)
    case (Cons op ops)
    from Cons.IH [OF ds_step_ok(1) [OF Cons.prems, of limit op]] ds_step_ok(2) [OF Cons.prems, of limit op k] show ?case
      by (simp add: Let_def split_def latest_Cons [of op ops] split: option.split del: ds_step.simps)
  qed simp
  then show "ds_ok (snd (ds_run limit ops a))"
    "ds_map (snd (ds_run limit ops a)) k = (case latest ops k of Some v \<Rightarrow> Some v | None \<Rightarrow> ds_map a k)" by blast+
qed

lemma ds_get_map: "ds_limbo a = None \<Longrightarrow> ds_get a k = ds_map a k"
  by (simp add: ds_get_def ds_map_def split: option.split)

lemma ds_run_latest:
  assumes "\<not> window (ds_phase (snd (ds_run limit ops ds_new)))"
  shows "ds_get (snd (ds_run limit ops ds_new)) k = latest ops k"
proof -
  let ?a = "snd (ds_run limit ops ds_new)"
  have "ds_limbo ?a = None" using ds_run_ok(1) [OF ds_ok_new(1), of limit ops] assms by (auto simp: ds_ok_def)
  then show ?thesis using ds_run_ok(2) [OF ds_ok_new(1), of limit ops k] by (simp add: ds_get_map ds_ok_new(2) split: option.split)
qed

lemma ds_run_append: "ds_run limit (xs @ ys) a =
    (fst (ds_run limit xs a) @ fst (ds_run limit ys (snd (ds_run limit xs a))), snd (ds_run limit ys (snd (ds_run limit xs a))))"
  by (induction xs arbitrary: a) (simp_all add: Let_def split_def)

lemma ds_get_after_add:
  assumes "ds_ok a"
  shows "ds_get (a\<lparr>ds_buffer := ds_add limit k v (ds_buffer a)\<rparr>) k = Some v"
proof -
  let ?s = "ds_buffer a"
  have "sorted_wrt (<) (map fst (spec_income ?s))" "spec_idle ?s \<longrightarrow> spec_flush ?s = None" using assms by (simp_all add: ds_ok_def)
  then show ?thesis
    by (auto simp: ds_get_def ds_add_def Let_def lookup_def map_of_put_key split: option.split)
qed

text \<open>Six steps of the thread end in the waiting state with nothing to flush, wherever they start.\<close>

lemma ds_waiting: "ds_phase a = PWait \<Longrightarrow> spec_flush (ds_buffer a) = None \<Longrightarrow> ds_flush_step a = a"
  by (simp add: ds_flush_step_def Let_def)

definition settled :: "db_spec \<Rightarrow> bool" where
  "settled a \<longleftrightarrow> ds_phase a = PWait \<and> spec_flush (ds_buffer a) = None \<and> spec_idle (ds_buffer a)"

fun steps_left :: "flush_phase \<Rightarrow> nat" where
  "steps_left PWait = 6"
| "steps_left POpened = 5"
| "steps_left PWritten = 4"
| "steps_left PCleared = 3"
| "steps_left PCached = 2"
| "steps_left PTop = 1"

lemma ds_flush_settles:
  assumes "ds_ok a" "settled a \<or> steps_left (ds_phase a) \<le> n"
  shows "settled (snd (ds_run limit (replicate n DFlushStep) a))"
  using assms
proof (induction n arbitrary: a)
  case 0
  then show ?case by (cases "ds_phase a") auto
next
  case (Suc n)
  have "settled (ds_flush_step a) \<or> steps_left (ds_phase (ds_flush_step a)) \<le> n"
    using Suc.prems by (cases "ds_phase a") (auto simp: settled_def ds_flush_step_def Let_def ds_ok_def window_def)
  from Suc.IH [OF ds_flush_ok(1) [OF Suc.prems(1)] this] show ?case by (simp add: Let_def split_def)
qed

text \<open>The same equations without \<open>let\<close>, for evaluation.\<close>

lemma ds_run_step: "ds_run limit (op # ops) a =
    (case ds_step limit op a of (out, a1) \<Rightarrow> (case ds_run limit ops a1 of (outs, a2) \<Rightarrow> (out # outs, a2)))"
  by (simp add: Let_def)

lemma flush_at:
  "ds_flush_step \<lparr>ds_buffer = s, ds_limbo = l, ds_files = fs, ds_phase = PTop\<rparr> =
    \<lparr>ds_buffer = s\<lparr>spec_idle := True\<rparr>, ds_limbo = l, ds_files = fs, ds_phase = PWait\<rparr>"
  "ds_flush_step \<lparr>ds_buffer = s, ds_limbo = l, ds_files = fs, ds_phase = PWait\<rparr> =
    \<lparr>ds_buffer = s, ds_limbo = l, ds_files = fs, ds_phase = if spec_flush s = None then PWait else POpened\<rparr>"
  "ds_flush_step \<lparr>ds_buffer = s, ds_limbo = l, ds_files = fs, ds_phase = POpened\<rparr> =
    \<lparr>ds_buffer = s, ds_limbo = l, ds_files = fs, ds_phase = PWritten\<rparr>"
  "ds_flush_step \<lparr>ds_buffer = s, ds_limbo = l, ds_files = fs, ds_phase = PWritten\<rparr> =
    \<lparr>ds_buffer = s\<lparr>spec_flush := None\<rparr>, ds_limbo = spec_flush s, ds_files = fs, ds_phase = PCleared\<rparr>"
  "ds_flush_step \<lparr>ds_buffer = s, ds_limbo = l, ds_files = fs, ds_phase = PCleared\<rparr> =
    \<lparr>ds_buffer = s, ds_limbo = l, ds_files = fs, ds_phase = PCached\<rparr>"
  "ds_flush_step \<lparr>ds_buffer = s, ds_limbo = Some es, ds_files = fs, ds_phase = PCached\<rparr> =
    \<lparr>ds_buffer = s, ds_limbo = None, ds_files = es # fs, ds_phase = PTop\<rparr>"
  by (simp_all add: ds_flush_step_def)

lemma add_at:
  "ds_add limit k v \<lparr>spec_income = [], spec_flush = fl, spec_size = n, spec_idle = idle\<rparr> =
    (if n + of_nat (length (entry_bytes k v)) > limit \<and> idle
     then \<lparr>spec_income = [], spec_flush = Some [(k, v)], spec_size = 0, spec_idle = False\<rparr>
     else \<lparr>spec_income = [(k, v)], spec_flush = fl, spec_size = n + of_nat (length (entry_bytes k v)), spec_idle = idle\<rparr>)"
  by (simp add: ds_add_def put_key_def Let_def)

lemma sample_run:
  assumes "length (entry_bytes k1 [7]) = 5" "length (entry_bytes k2 [8]) = 5" "k1 \<noteq> k2" "x \<noteq> k2" "x \<noteq> k1"
  shows "fst (ds_run 4 [DFlushStep, DAdd Put k1 [7], DFlushStep, DFlushStep, DAdd Put k2 [8], DFlushStep,
      DGet k1, DFlushStep, DFlushStep, DClearCache, DGet k1, DGet k2, DGet x] ds_new) =
    [Done, Done, Done, Done, Done, Done, Got None, Done, Done, Done, Got (Some [7]), Got (Some [8]), Got None]"
  by (simp add: ds_run_step flush_at add_at assms ds_new_def spec_new_def stored_value_def ds_get_def lookup_def
      del: ds_run.simps(2))

lemma steps_left_le: "steps_left p \<le> 6"
  by (cases p) simp_all

definition in_window :: "flush_pc \<Rightarrow> bool" where
  "in_window pc = (case pc of FCleared fid name key_offset \<Rightarrow> True | FCached fid name \<Rightarrow> True | _ \<Rightarrow> False)"

lemma window_phase: "phase_of pc = Some p \<Longrightarrow> window p \<longleftrightarrow> in_window pc"
  by (cases pc) (auto simp: phase_of_def window_def in_window_def)


text \<open>After \<^verbatim>\<open>ShutDown\<close> a step does what it did before, except where the loop tests \<^verbatim>\<open>is_stop_\<close>.\<close>

lemma stopped_step:
  "flush_thread db \<noteq> FTop \<Longrightarrow> flush_thread db \<noteq> FWait \<Longrightarrow>
    flush_thread_step host iter (DB_ShutDown db) = map_option DB_ShutDown (flush_thread_step host iter db)"
  by (cases "flush_thread db") (auto simp: flush_thread_step_def DB_ShutDown_def split: bind_splits prod.splits)

lemma stopped_end: "flush_thread db = FDone \<Longrightarrow> \<exists>outs. db_run host iter (replicate n DFlushStep) db = Some (outs, db)"
  by (induction n) (auto simp: flush_thread_step_def)

lemma stopped_run:
  assumes "db_sim host iter limit c n db a" "iterates iter" "c < 2 ^ 28" "ds_phase a = PTop \<or> ds_phase a = PWait \<or> steps_left (ds_phase a) \<le> m"
  shows "\<exists>outs db'. db_run host iter (replicate (Suc m) DFlushStep) (DB_ShutDown db) = Some (outs, db') \<and> flush_thread db' = FDone"
  using assms
proof (induction m arbitrary: n db a)
  case 0
  then obtain cont where inv: "db_inv host iter limit c n db a cont" by (auto simp: db_sim_def)
  from 0(4) have "flush_thread db = FTop \<or> flush_thread db = FWait"
    using phase_D(1) [OF inv] by (cases "ds_phase a") (auto simp: phase_of_def split: flush_pc.splits)
  then show ?case by (auto simp: flush_thread_step_def DB_ShutDown_def)
next
  case (Suc m)
  then obtain cont where inv: "db_inv host iter limit c n db a cont" by (auto simp: db_sim_def)
  note ph = phase_D(1) [OF inv]
  show ?case
  proof (cases "flush_thread db = FTop \<or> flush_thread db = FWait")
    case True
    let ?db = "(DB_ShutDown db)\<lparr>flush_thread := FDone\<rparr>"
    have "flush_thread_step host iter (DB_ShutDown db) = Some ?db" using True by (auto simp: flush_thread_step_def DB_ShutDown_def)
    then show ?thesis using stopped_end [of ?db host iter "Suc m"] by (auto simp del: replicate_Suc simp: replicate_Suc [of "Suc m"])
  next
    case False
    then obtain db1 where db1: "flush_thread_step host iter db = Some db1" "db_sim host iter limit c (n + 1) db1 (ds_flush_step a)"
      using flush_step_ok [OF inv Suc.prems(2,3)] by (auto simp: step_ok_def db_sim_def)
    have "ds_phase (ds_flush_step a) = PTop \<or> ds_phase (ds_flush_step a) = PWait \<or> steps_left (ds_phase (ds_flush_step a)) \<le> m"
      using Suc.prems(4) False ph
      by (cases "ds_phase a") (auto simp: ds_flush_step_def Let_def phase_of_def split: flush_pc.splits)
    from Suc.IH [OF db1(2) Suc.prems(2,3) this] obtain outs db'
      where "db_run host iter (replicate (Suc m) DFlushStep) (DB_ShutDown db1) = Some (outs, db')" "flush_thread db' = FDone" by blast
    then show ?thesis using stopped_step [of db host iter] False db1(1) by (simp add: replicate_Suc [of "Suc m"] del: replicate_Suc)
  qed
qed


section \<open>Properties\<close>

text \<open>
  C5: The database refines its specification.  Every sequence of additions, deletions, lookups, cache clearings and
  steps of the flush thread, in any order, runs from an empty data folder without undefined behaviour and without a
  failed assertion, and every lookup returns what two sorted lists and a list of file contents would
  give, whatever the key-offset cache holds.
\<close>

theorem database_refines:
  assumes "runs_ok ops" "iterates iter" "1 \<le> cache_size"
  shows "\<exists>db0 db. db_start limit files_limit cache_size lit = Some db0 \<and>
    db_run host iter ops db0 = Some (fst (ds_run limit ops ds_new), db)"
  using db_run_sim [OF assms] by blast

theorem database_refines_witness:
  "\<exists>db0 db. db_start 4 1 2 Null = Some db0 \<and>
    db_run LittleHost sorted_iter [DFlushStep, DAdd Put (str ''k1'') [7], DFlushStep, DFlushStep, DAdd Put (str ''k2'') [8], DFlushStep,
      DGet (str ''k1''), DFlushStep, DFlushStep, DClearCache, DGet (str ''k1''), DGet (str ''k2''), DGet (str ''x'')] db0 =
      Some ([Done, Done, Done, Done, Done, Done, Got None, Done, Done, Done, Got (Some [7]), Got (Some [8]), Got None], db)"
proof -
  let ?ops = "[DFlushStep, DAdd Put (str ''k1'') [7], DFlushStep, DFlushStep, DAdd Put (str ''k2'') [8], DFlushStep,
      DGet (str ''k1''), DFlushStep, DFlushStep, DClearCache, DGet (str ''k1''), DGet (str ''k2''), DGet (str ''x'')]"
  have len: "length (entry_bytes (str ''k1'') [7]) = 5" "length (entry_bytes (str ''k2'') [8]) = 5"
    "length (wrap_key (str ''k1'')) = 3" "length (wrap_key (str ''k2'')) = 3" "length (wrap_key (str ''x'')) = 2"
    by (simp_all add: str_def entry_bytes_def wrap_key_def EncodeVarint32_def)
  have str_keys: "str ''k1'' \<noteq> str ''k2''" "str ''x'' \<noteq> str ''k2''" "str ''x'' \<noteq> str ''k1''" by (simp_all add: str_def)
  have "str ''00000'' \<le> str ''k1''" "str ''00000'' \<le> str ''k2''" by (simp_all add: str_def)
  with len have ok: "runs_ok ?ops" by (intro runs_okI) (simp_all add: kBlockSize_def stored_value_def)
  from sample_run [OF len(1,2), of "str ''x''"] str_keys
  have "fst (ds_run 4 ?ops ds_new) = [Done, Done, Done, Done, Done, Done, Got None, Done, Done, Done, Got (Some [7]), Got (Some [8]), Got None]"
    by blast
  with database_refines [OF ok iterates_sorted_iter, of 2 4 1 Null LittleHost] show ?thesis by (simp only:)
qed

text \<open>
  C6: Reads return the latest write.  After every run, a lookup returns the value of the last \<^verbatim>\<open>Add\<close> of the key (the
  tombstone text after a \<^verbatim>\<open>Delete\<close>), whether it is in the income buffer, in the flush buffer or in a file,
  except while the flush thread is between \<^verbatim>\<open>ClearFlushBuffer\<close> and \<^verbatim>\<open>AddFile\<close>.
\<close>

theorem database_reads_latest:
  assumes "runs_ok ops" "iterates iter" "1 \<le> cache_size" "length (wrap_key k) < 2 ^ 31"
  shows "\<exists>db0 outs db. db_start limit files_limit cache_size lit = Some db0 \<and> db_run host iter ops db0 = Some (outs, db) \<and>
    (in_window (flush_thread db) \<or> (\<exists>db'. DB_Get host db k = Some (latest ops k, db')))"
proof -
  let ?a = "snd (ds_run limit ops ds_new)"
  obtain db0 db c n where run: "db_start limit files_limit cache_size lit = Some db0"
    "db_run host iter ops db0 = Some (fst (ds_run limit ops ds_new), db)" "db_sim host iter limit c n db ?a"
    using db_run_sim [OF assms(1-3)] by blast
  then obtain cont where inv: "db_inv host iter limit c n db ?a cont" by (auto simp: db_sim_def)
  have "window (ds_phase ?a) \<longleftrightarrow> in_window (flush_thread db)" using phase_D(1) [OF inv] by (rule window_phase)
  with ds_run_latest [of limit ops k] db_inv_get [OF inv assms(2,4)] run(1,2) show ?thesis by metis
qed

theorem database_reads_latest_witness:
  "\<exists>db0 outs db. db_start 4 1 2 Null = Some db0 \<and> db_run LittleHost sorted_iter [DAdd Put [60] [1], DAdd Delete [60] [2]] db0 = Some (outs, db) \<and>
    (in_window (flush_thread db) \<or> (\<exists>db'. DB_Get LittleHost db [60] = Some (Some TombValue, db')))"
proof -
  have "runs_ok [DAdd Put [60] [1], DAdd Delete [60] [2]]"
    by (simp add: runs_ok_def str_def wrap_key_def EncodeVarint32_def kBlockSize_def entry_bytes_def stored_value_def TombValue_def)
  moreover have "length (wrap_key [60]) < 2 ^ 31" by (simp add: wrap_key_def EncodeVarint32_def)
  ultimately show ?thesis
    using database_reads_latest [OF _ iterates_sorted_iter, of "[DAdd Put [60] [1], DAdd Delete [60] [2]]" 2 "[60]" 4 1 Null LittleHost]
    by (simp add: stored_value_def)
qed

text \<open>
  C20: A client reads its own write in every state, also while the flush thread works: an \<^verbatim>\<open>Add\<close> followed at once by a
  lookup of the key returns the stored value.  After a \<^verbatim>\<open>Delete\<close> that value is the tombstone text itself, with
  status 0, as if it were data.
\<close>

theorem database_read_your_write:
  assumes "runs_ok (ops @ [DAdd t k v, DGet k])" "iterates iter" "1 \<le> cache_size"
  shows "\<exists>db0 outs db. db_start limit files_limit cache_size lit = Some db0 \<and>
    db_run host iter (ops @ [DAdd t k v, DGet k]) db0 = Some (outs @ [Done, Got (Some (if t = Delete then TombValue else v))], db)"
proof -
  let ?a = "snd (ds_run limit ops ds_new)"
  have "ds_ok ?a" by (rule ds_run_ok(1) [OF ds_ok_new(1)])
  then have "fst (ds_run limit (ops @ [DAdd t k v, DGet k]) ds_new) =
      fst (ds_run limit ops ds_new) @ [Done, Got (Some (if t = Delete then TombValue else v))]"
    using ds_get_after_add [of ?a limit k "stored_value t v"] by (simp add: ds_run_append stored_value_def)
  then show ?thesis using db_run_sim [OF assms, of limit files_limit lit host] by metis
qed

theorem database_read_your_write_witness:
  "\<exists>db0 outs db. db_start 0 1 1 Null = Some db0 \<and>
    db_run BigHost sorted_iter ([DFlushStep] @ [DAdd Delete [60] [2], DGet [60]]) db0 = Some (outs @ [Done, Got (Some TombValue)], db)"
proof -
  have "runs_ok ([DFlushStep] @ [DAdd Delete [60] [2], DGet [60]])"
    by (simp add: runs_ok_def str_def wrap_key_def EncodeVarint32_def kBlockSize_def entry_bytes_def stored_value_def TombValue_def)
  from database_read_your_write [OF this iterates_sorted_iter, of 1 0 1 Null BigHost] show ?thesis by simp
qed

text \<open>
  C19: The window of the flush thread: a key that was written and is about to reach a file cannot be found once
  \<^verbatim>\<open>ClearFlushBuffer\<close> has run and until \<^verbatim>\<open>AddFile\<close> has.  The first lookup below fails although nothing was
  deleted; the second, two steps of the thread later, finds the value.
\<close>

theorem database_flush_window:
  assumes "str ''00000'' \<le> k" "limit < of_nat (length (entry_bytes k v))" "int (length (entry_bytes k v)) + 3 * kBlockSize < 2 ^ 28"
    and "iterates iter" "1 \<le> cache_size"
  shows "\<exists>db0 db. db_start limit files_limit cache_size lit = Some db0 \<and>
    db_run host iter [DFlushStep, DAdd Put k v, DFlushStep, DFlushStep, DFlushStep, DGet k, DFlushStep, DFlushStep, DGet k] db0 =
      Some ([Done, Done, Done, Done, Done, Got None, Done, Done, Got (Some v)], db)"
proof -
  let ?ops = "[DFlushStep, DAdd Put k v, DFlushStep, DFlushStep, DFlushStep, DGet k, DFlushStep, DFlushStep, DGet k]"
  have "length (wrap_key k) < 2 ^ 31" using assms(3) by (simp add: entry_bytes_def kBlockSize_def)
  then have ok: "runs_ok ?ops" using assms(1,3) by (simp add: runs_ok_def stored_value_def)
  have "fst (ds_run limit ?ops ds_new) = [Done, Done, Done, Done, Done, Got None, Done, Done, Got (Some v)]"
    by (simp add: ds_run_step flush_at add_at assms(2) ds_new_def spec_new_def stored_value_def ds_get_def lookup_def
        del: ds_run.simps(2))
  then show ?thesis using db_run_sim [OF ok assms(4,5), of limit files_limit lit host] by metis
qed

theorem database_flush_window_witness:
  "\<exists>db0 db. db_start 4 1 1 Null = Some db0 \<and>
    db_run LittleHost sorted_iter [DFlushStep, DAdd Put [60] [7, 8], DFlushStep, DFlushStep, DFlushStep, DGet [60], DFlushStep, DFlushStep, DGet [60]] db0 =
      Some ([Done, Done, Done, Done, Done, Got None, Done, Done, Got (Some [7, 8])], db)"
proof -
  have "length (entry_bytes [60] [7, 8]) = 5" by (simp add: entry_bytes_def wrap_key_def EncodeVarint32_def)
  then show ?thesis
    using database_flush_window [of "[60]" 4 "[7, 8]" sorted_iter 1 1 Null LittleHost] iterates_sorted_iter
    by (simp add: str_def kBlockSize_def)
qed





end
