(* ===== verification/Thread_Pool.thy ===== *)
theory Thread_Pool
  imports Machines "HOL-Library.Word" "HOL-Library.Multiset"
begin

text \<open>
  \<^verbatim>\<open>structure/concurrent_queue.h\<close>, \<^verbatim>\<open>structure/task.h\<close> and \<^verbatim>\<open>structure/thread_pool.h\<close>.

  What a thread does with the mutex held is one step; \<^verbatim>\<open>cv_.wait\<close> gives the mutex up.  \<^verbatim>\<open>Run\<close> of a task is the
  task's own; here it ends.  A task is a number, a null pointer is \<open>None\<close>.
\<close>

section \<open>The concurrent queue\<close>

record 'a ConcurrentQueue =
  cq_queue :: "'a list"
  cq_size :: "32 word"

definition ConcurrentQueue_new :: "'a ConcurrentQueue" where
  "ConcurrentQueue_new = \<lparr>cq_queue = [], cq_size = 0\<rparr>"

text \<open>\<^verbatim>\<open>front\<close> and \<^verbatim>\<open>pop\<close> of an empty \<^verbatim>\<open>std::queue\<close> are undefined.\<close>

definition cq_pop :: "'a ConcurrentQueue \<Rightarrow> ('a \<times> 'a ConcurrentQueue) option" where
  "cq_pop q = (case cq_queue q of [] \<Rightarrow> None | x # xs \<Rightarrow> Some (x, q\<lparr>cq_queue := xs, cq_size := cq_size q - 1\<rparr>))"

definition cq_push :: "'a \<Rightarrow> 'a ConcurrentQueue \<Rightarrow> 'a ConcurrentQueue" where
  "cq_push x q = q\<lparr>cq_queue := cq_queue q @ [x], cq_size := cq_size q + 1\<rparr>"

definition cq_empty :: "'a ConcurrentQueue \<Rightarrow> bool" where
  "cq_empty q \<longleftrightarrow> cq_size q = 0"

definition cq_inv :: "'a ConcurrentQueue \<Rightarrow> bool" where
  "cq_inv q \<longleftrightarrow> cq_size q = of_nat (length (cq_queue q))"

lemma cq_inv_new: "cq_inv ConcurrentQueue_new"
  by (simp add: cq_inv_def ConcurrentQueue_new_def)

lemma cq_inv_push: "cq_inv q \<Longrightarrow> cq_inv (cq_push x q)"
  by (simp add: cq_inv_def cq_push_def)

lemma cq_inv_pop: "cq_inv q \<Longrightarrow> cq_pop q = Some (x, q') \<Longrightarrow> cq_inv q'"
  by (auto simp: cq_inv_def cq_pop_def split: list.splits)

text \<open>Below \<open>2^32\<close> elements \<^verbatim>\<open>empty\<close> says whether \<^verbatim>\<open>pop\<close> is defined.\<close>

lemma cq_empty_pop: "cq_inv q \<Longrightarrow> length (cq_queue q) < 2 ^ 32 \<Longrightarrow> cq_empty q \<longleftrightarrow> cq_pop q = None"
  by (auto simp: cq_inv_def cq_empty_def cq_pop_def of_nat_eq_0_iff unsigned_of_nat take_bit_nat_eq_self word_of_nat_eq_0_iff
      dest: nat_dvd_not_less split: list.splits)


section \<open>The pool\<close>

datatype worker_pc = Head | WantLock | InWait | Woken | Running nat | Exited

record ThreadPool =
  num_threads :: nat
  stop_requested :: bool
  queue :: "nat option list"
  tid_to_task :: "nat \<Rightarrow> nat option"
  worker :: "nat \<Rightarrow> worker_pc"
  added :: "nat option list"
  taken :: "nat option list"
  finished :: "nat list"
  dropped :: "nat option list"

definition ThreadPool_new :: "nat \<Rightarrow> ThreadPool" where
  "ThreadPool_new n = \<lparr>num_threads = n, stop_requested = False, queue = [], tid_to_task = Map.empty, worker = (\<lambda>t. if t < n then Head else Exited),
    added = [], taken = [], finished = [], dropped = []\<rparr>"

text \<open>\<^verbatim>\<open>while (!IsStopRequested())\<close>.\<close>

definition worker_head :: "nat \<Rightarrow> ThreadPool \<Rightarrow> ThreadPool" where
  "worker_head t s = s\<lparr>worker := (worker s)(t := if stop_requested s then Exited else WantLock)\<rparr>"

text \<open>With the mutex held and the queue looked at: wait, leave, or take the first task.\<close>

definition worker_take :: "nat \<Rightarrow> ThreadPool \<Rightarrow> ThreadPool" where
  "worker_take t s =
    (case queue s of
       [] \<Rightarrow> s\<lparr>worker := (worker s)(t := InWait)\<rparr>
     | x # xs \<Rightarrow>
        if stop_requested s then s\<lparr>worker := (worker s)(t := Exited)\<rparr>
        else case x of
          None \<Rightarrow> s\<lparr>queue := xs, taken := taken s @ [x], worker := (worker s)(t := Head)\<rparr>
        | Some k \<Rightarrow> s\<lparr>queue := xs, taken := taken s @ [x], tid_to_task := (tid_to_task s)(t \<mapsto> k), worker := (worker s)(t := Running k)\<rparr>)"

text \<open>After \<^verbatim>\<open>cv_.wait\<close> returns.\<close>

definition worker_woken :: "nat \<Rightarrow> ThreadPool \<Rightarrow> ThreadPool" where
  "worker_woken t s = (if stop_requested s then s\<lparr>worker := (worker s)(t := Exited)\<rparr> else worker_take t s)"

text \<open>\<^verbatim>\<open>Run\<close> has returned: the task is deleted.\<close>

definition worker_done :: "nat \<Rightarrow> nat \<Rightarrow> ThreadPool \<Rightarrow> ThreadPool" where
  "worker_done t k s = s\<lparr>finished := finished s @ [k], tid_to_task := (tid_to_task s)(t := None), worker := (worker s)(t := Head)\<rparr>"

definition wake_worker :: "worker_pc \<Rightarrow> worker_pc" where
  "wake_worker p = (if p = InWait then Woken else p)"

definition AddTask :: "nat option \<Rightarrow> nat option \<Rightarrow> ThreadPool \<Rightarrow> ThreadPool" where
  "AddTask task chosen s =
    s\<lparr>queue := queue s @ [task], added := added s @ [task],
      worker := (case chosen of None \<Rightarrow> worker s | Some u \<Rightarrow> (worker s)(u := wake_worker (worker s u)))\<rparr>"

text \<open>
  \<^verbatim>\<open>Stop\<close> up to the joins, and after them.  Then no worker runs, so that the loop over \<^verbatim>\<open>tid_to_task_\<close> finds nothing (the
  invariant below has no entry without a running worker); the loop over the queue deletes what is left.
\<close>

definition Stop_request :: "ThreadPool \<Rightarrow> ThreadPool" where
  "Stop_request s = s\<lparr>stop_requested := True, worker := (\<lambda>u. wake_worker (worker s u))\<rparr>"

definition joined :: "ThreadPool \<Rightarrow> bool" where
  "joined s \<longleftrightarrow> (\<forall>t < num_threads s. worker s t = Exited)"

definition Stop_drain :: "ThreadPool \<Rightarrow> ThreadPool" where
  "Stop_drain s = s\<lparr>queue := [], dropped := dropped s @ queue s\<rparr>"

definition BlockUntilAllTaskHaveCompleted_returns :: "ThreadPool \<Rightarrow> bool" where
  "BlockUntilAllTaskHaveCompleted_returns s \<longleftrightarrow> queue s = []"

inductive pool_step :: "ThreadPool \<Rightarrow> ThreadPool \<Rightarrow> bool" where
  head: "worker s t = Head \<Longrightarrow> pool_step s (worker_head t s)"
| lock: "worker s t = WantLock \<Longrightarrow> pool_step s (worker_take t s)"
| woken: "worker s t = Woken \<Longrightarrow> pool_step s (worker_woken t s)"
| spurious: "worker s t = InWait \<Longrightarrow> pool_step s (s\<lparr>worker := (worker s)(t := Woken)\<rparr>)"
| run: "worker s t = Running k \<Longrightarrow> pool_step s (worker_done t k s)"
| add: "(case chosen of None \<Rightarrow> \<forall>u. worker s u \<noteq> InWait | Some u \<Rightarrow> worker s u = InWait) \<Longrightarrow> pool_step s (AddTask task chosen s)"
| stop: "pool_step s (Stop_request s)"
| drain: "stop_requested s \<Longrightarrow> joined s \<Longrightarrow> pool_step s (Stop_drain s)"

inductive_cases pool_stepE: "pool_step s s'"

definition pool_reach :: "nat \<Rightarrow> ThreadPool \<Rightarrow> bool" where
  "pool_reach n s \<longleftrightarrow> reach (\<lambda>s. s = ThreadPool_new n) pool_step s"


section \<open>The invariant\<close>

fun running :: "worker_pc \<Rightarrow> nat multiset" where
  "running (Running k) = {#k#}"
| "running p = {#}"

definition all_running :: "ThreadPool \<Rightarrow> nat multiset" where
  "all_running s = (\<Sum>t < num_threads s. running (worker s t))"

definition tasks_of :: "nat option list \<Rightarrow> nat multiset" where
  "tasks_of xs = mset (List.map_filter id xs)"

definition pool_inv :: "nat \<Rightarrow> ThreadPool \<Rightarrow> bool" where
  "pool_inv n s \<longleftrightarrow> num_threads s = n \<and> (\<forall>t. n \<le> t \<longrightarrow> worker s t = Exited) \<and> added s = taken s @ dropped s @ queue s \<and>
    tasks_of (taken s) = mset (finished s) + all_running s \<and> (\<forall>t. tid_to_task s t = (case worker s t of Running k \<Rightarrow> Some k | _ \<Rightarrow> None)) \<and>
    (dropped s \<noteq> [] \<longrightarrow> joined s)"

lemma running_upd:
  fixes n :: nat
  assumes "t < n"
  shows "(\<Sum>u < n. running ((w(t := p)) u)) + running (w t) = (\<Sum>u < n. running (w u)) + running p"
proof -
  have "(\<Sum>u < n. running (v u)) = running (v t) + (\<Sum>u \<in> {..<n} - {t}. running (v u))" for v
    using assms by (intro sum.remove) simp_all
  from this [of w] this [of "w(t := p)"] show ?thesis by simp
qed

lemma running_wake: "running (wake_worker p) = running p" "wake_worker p = Running k \<longleftrightarrow> p = Running k" "wake_worker p = Exited \<longleftrightarrow> p = Exited"
  by (auto simp: wake_worker_def)

lemma tasks_of_snoc: "tasks_of (xs @ [x]) = tasks_of xs + (case x of None \<Rightarrow> {#} | Some k \<Rightarrow> {#k#})"
  by (simp add: tasks_of_def map_filter_def split: option.split)

lemma pool_inv_start: "pool_inv n (ThreadPool_new n)"
proof -
  have "(\<Sum>t < n. running (if t < n then Head else Exited)) = (\<Sum>t < n. {#})" by (rule sum.cong) simp_all
  then show ?thesis by (auto simp: pool_inv_def ThreadPool_new_def all_running_def tasks_of_def map_filter_def joined_def)
qed

lemma pool_inv_not_exited: "pool_inv n s \<Longrightarrow> worker s t \<noteq> Exited \<Longrightarrow> t < n \<and> dropped s = []"
  by (auto simp: pool_inv_def joined_def not_le [symmetric])

text \<open>A worker that runs nothing before and after.\<close>

lemma pool_inv_move:
  assumes inv: "pool_inv n s" and t: "worker s t \<noteq> Exited" "running (worker s t) = {#}" "running p = {#}"
  shows "pool_inv n (s\<lparr>worker := (worker s)(t := p)\<rparr>)"
proof -
  have "t < n" "dropped s = []" using pool_inv_not_exited [OF inv t(1)] by simp_all
  moreover have "(\<Sum>u < n. running (((worker s)(t := p)) u)) = (\<Sum>u < n. running (worker s u))"
    using running_upd [OF \<open>t < n\<close>, of "worker s" p] t by (simp del: fun_upd_apply)
  moreover have "worker s t \<noteq> Running k" "p \<noteq> Running k" for k using t by auto
  ultimately show ?thesis using inv by (auto simp: pool_inv_def all_running_def split: worker_pc.splits)
qed

lemma pool_inv_take:
  assumes inv: "pool_inv n s" and t: "worker s t = WantLock \<or> worker s t = Woken"
  shows "pool_inv n (worker_take t s)"
proof (cases "queue s")
  case Nil
  then show ?thesis using pool_inv_move [OF inv, of t InWait] t by (auto simp: worker_take_def)
next
  case (Cons x xs)
  have tn: "t < n" "dropped s = []" using pool_inv_not_exited [OF inv, of t] t by auto
  have r: "running (worker s t) = {#}" using t by auto
  note i = inv [unfolded pool_inv_def]
  show ?thesis
  proof (cases "stop_requested s")
    case True
    then show ?thesis using pool_inv_move [OF inv, of t Exited] t r Cons by (auto simp: worker_take_def)
  next
    case False
    show ?thesis
    proof (cases x)
      case None
      have "pool_inv n (s\<lparr>worker := (worker s)(t := Head)\<rparr>)" using pool_inv_move [OF inv, of t Head] t r by auto
      then show ?thesis
        using Cons False None tn(2) by (auto simp: worker_take_def pool_inv_def tasks_of_snoc all_running_def joined_def)
    next
      case (Some k)
      have "(\<Sum>u < n. running (((worker s)(t := Running k)) u)) = (\<Sum>u < n. running (worker s u)) + {#k#}"
        using running_upd [OF tn(1), of "worker s" "Running k"] r by (simp del: fun_upd_apply)
      then show ?thesis
        using Cons False Some tn i by (auto simp: worker_take_def pool_inv_def tasks_of_snoc all_running_def simp del: fun_upd_apply) (auto split: worker_pc.splits)
    qed
  qed
qed

lemma pool_inv_done:
  assumes inv: "pool_inv n s" and t: "worker s t = Running k"
  shows "pool_inv n (worker_done t k s)"
proof -
  have tn: "t < n" "dropped s = []" using pool_inv_not_exited [OF inv, of t] t by auto
  have "(\<Sum>u < n. running (((worker s)(t := Head)) u)) + {#k#} = (\<Sum>u < n. running (worker s u))"
    using running_upd [OF tn(1), of "worker s" Head] t by (simp del: fun_upd_apply)
  then show ?thesis using inv tn by (auto simp: worker_done_def pool_inv_def all_running_def simp del: fun_upd_apply) (auto split: worker_pc.splits)
qed

lemma pool_inv_wake:
  assumes inv: "pool_inv n s" and w: "\<And>t. w t = worker s t \<or> w t = wake_worker (worker s t)"
  shows "pool_inv n (s\<lparr>worker := w\<rparr>)"
proof -
  have r: "running (w t) = running (worker s t)" "w t = Running k \<longleftrightarrow> worker s t = Running k" "w t = Exited \<longleftrightarrow> worker s t = Exited" for t k
    using w [of t] by (auto simp: wake_worker_def split: if_splits)
  have c: "(case w t of Running k \<Rightarrow> Some k | _ \<Rightarrow> None) = (case worker s t of Running k \<Rightarrow> Some k | _ \<Rightarrow> None)" for t
    using w [of t] by (auto simp: wake_worker_def split: worker_pc.splits if_splits)
  show ?thesis using inv by (simp add: pool_inv_def all_running_def joined_def r c)
qed

interpretation pool: machine_invariant "\<lambda>s. s = ThreadPool_new n" pool_step "pool_inv n" for n
proof
  show "pool_inv n s" if "s = ThreadPool_new n" for s using that pool_inv_start by simp
  fix s s' assume inv: "pool_inv n s" and "pool_step s s'"
  from this(2) show "pool_inv n s'"
  proof (cases rule: pool_step.cases)
    case (head t)
    then show ?thesis using pool_inv_move [OF inv, of t] by (auto simp: worker_head_def)
  next
    case (lock t)
    then show ?thesis using pool_inv_take [OF inv] by simp
  next
    case (woken t)
    then show ?thesis using pool_inv_take [OF inv] pool_inv_move [OF inv, of t Exited] by (auto simp: worker_woken_def)
  next
    case (spurious t)
    then show ?thesis using pool_inv_move [OF inv, of t Woken] by simp
  next
    case (run t k)
    then show ?thesis using pool_inv_done [OF inv] by simp
  next
    case (add chosen task)
    let ?w = "case chosen of None \<Rightarrow> worker s | Some u \<Rightarrow> (worker s)(u := wake_worker (worker s u))"
    have "pool_inv n (s\<lparr>worker := ?w\<rparr>)" by (rule pool_inv_wake [OF inv]) (auto split: option.split)
    then show ?thesis unfolding add(1) by (simp add: pool_inv_def AddTask_def all_running_def joined_def)
  next
    case stop
    have "pool_inv n (s\<lparr>worker := \<lambda>u. wake_worker (worker s u)\<rparr>)" by (rule pool_inv_wake [OF inv]) simp
    then show ?thesis unfolding stop by (simp add: pool_inv_def Stop_request_def all_running_def joined_def)
  next
    case drain
    then show ?thesis using inv by (auto simp: pool_inv_def Stop_drain_def all_running_def joined_def)
  qed
qed

lemma pool_reach_inv: "pool_reach n s \<Longrightarrow> pool_inv n s"
  unfolding pool_reach_def by (rule pool.reach_inv)


section \<open>Properties\<close>

text \<open>
  C39: Every task once and in order.  In every state that the workers and the clients of a pool reach, the tasks handed out are the
  first ones added, in that order, the rest is still queued or was dropped by \<^verbatim>\<open>Stop\<close>; every task handed out
  (null pointers apart) either runs in one worker, the one \<^verbatim>\<open>tid_to_task_\<close> has it under, or has finished, once.
\<close>

theorem pool_tasks_once:
  assumes "pool_reach n s"
  shows "added s = taken s @ dropped s @ queue s \<and>
    tasks_of (taken s) = mset (finished s) + (\<Sum>t < n. running (worker s t)) \<and>
    (\<forall>t k. tid_to_task s t = Some k \<longleftrightarrow> worker s t = Running k) \<and> (dropped s \<noteq> [] \<longrightarrow> (\<forall>t < n. worker s t = Exited))"
  using pool_reach_inv [OF assms] by (auto simp: pool_inv_def all_running_def joined_def split: worker_pc.splits)

text \<open>One worker, one task, up to where it runs.\<close>

lemma sample_pool: "pool_reach 1 (worker_take 0 (worker_head 0 (AddTask (Some 7) None (ThreadPool_new 1))))"
proof -
  have "pool_reach 1 (ThreadPool_new 1)" unfolding pool_reach_def by (rule reach_start) (rule refl)
  then have "pool_reach 1 (AddTask (Some 7) None (ThreadPool_new 1))"
    unfolding pool_reach_def by (rule reach_step) (rule add, simp add: ThreadPool_new_def)
  then have "pool_reach 1 (worker_head 0 (AddTask (Some 7) None (ThreadPool_new 1)))"
    unfolding pool_reach_def by (rule reach_step) (rule head, simp add: ThreadPool_new_def AddTask_def)
  then show ?thesis
    unfolding pool_reach_def by (rule reach_step) (rule lock, simp add: ThreadPool_new_def AddTask_def worker_head_def)
qed

theorem pool_tasks_once_witness:
  "tid_to_task (worker_take 0 (worker_head 0 (AddTask (Some 7) None (ThreadPool_new 1)))) 0 = Some 7"
proof -
  let ?s = "worker_take 0 (worker_head 0 (AddTask (Some 7) None (ThreadPool_new 1)))"
  have "worker ?s 0 = Running 7" by (simp add: ThreadPool_new_def AddTask_def worker_head_def worker_take_def)
  then show ?thesis using pool_tasks_once [OF sample_pool] by blast
qed

text \<open>
  \<^verbatim>\<open>Stop\<close> takes no lock: a worker that has passed its loop test but does not wait yet misses the notification, then
  waits, and the join never returns (spurious wakeups apart).
\<close>

lemma stop_can_hang:
  "let s = worker_take 0 (Stop_request (worker_head 0 (ThreadPool_new 1))) in
    pool_reach 1 s \<and> stop_requested s \<and> worker s 0 = InWait \<and> (\<forall>t. worker s t = InWait \<or> worker s t = Exited)"
proof -
  have "pool_reach 1 (ThreadPool_new 1)" unfolding pool_reach_def by (rule reach_start) (rule refl)
  then have "pool_reach 1 (worker_head 0 (ThreadPool_new 1))"
    unfolding pool_reach_def by (rule reach_step) (rule head, simp add: ThreadPool_new_def)
  then have "pool_reach 1 (Stop_request (worker_head 0 (ThreadPool_new 1)))"
    unfolding pool_reach_def by (rule reach_step) (rule stop)
  then have "pool_reach 1 (worker_take 0 (Stop_request (worker_head 0 (ThreadPool_new 1))))"
    unfolding pool_reach_def by (rule reach_step) (rule lock, simp add: ThreadPool_new_def worker_head_def Stop_request_def wake_worker_def)
  then show ?thesis by (simp add: Let_def ThreadPool_new_def worker_head_def Stop_request_def wake_worker_def worker_take_def)
qed

text \<open>\<^verbatim>\<open>BlockUntilAllTaskHaveCompleted\<close> returns while a task still runs.\<close>

lemma block_returns_early:
  "let s = worker_take 0 (worker_head 0 (AddTask (Some 7) None (ThreadPool_new 1))) in
    pool_reach 1 s \<and> BlockUntilAllTaskHaveCompleted_returns s \<and> worker s 0 = Running 7 \<and> finished s = []"
  using sample_pool
  by (simp add: Let_def BlockUntilAllTaskHaveCompleted_returns_def ThreadPool_new_def AddTask_def worker_head_def worker_take_def)

end
