(* ===== verification/Server.thy ===== *)
theory Server
  imports Database_Runs Thread_Pool
begin

text \<open>
  \<^verbatim>\<open>db/server_main.cpp\<close>, class \<^verbatim>\<open>NetworkTask\<close>: the requests of one connection, and \<^verbatim>\<open>benchmark/client_main.cpp\<close>, the encoding of
  a request; \<^verbatim>\<open>unit-tests/db_operation_task.h\<close>, a single operation as a task.

  Sockets are lists of messages: \<^verbatim>\<open>recv\<close> puts one into the buffer of 1400 bytes and leaves the rest of it as it was;
  a \<^verbatim>\<open>send\<close> that fails is only logged.  \<open>None\<close> is undefined behaviour; \<^verbatim>\<open>exit(1)\<close> is a result.
\<close>

section \<open>Parsing\<close>

datatype 'a parsed = Exit | Parsed 'a

definition parse_order :: "bytes \<Rightarrow> nat \<Rightarrow> (OrderType \<times> nat) parsed" where
  "parse_order buf n =
    (if n > 3 \<and> take 3 buf = str ''Get'' then Parsed (Get, 3)
     else if n > 3 \<and> take 3 buf = str ''Put'' then Parsed (Put, 3)
     else if n > 6 \<and> take 6 buf = str ''Delete'' then Parsed (Delete, 6)
     else Exit)"

text \<open>A size and that many bytes, at position \<open>p\<close>; the size is read before it is compared with the message.\<close>

definition parse_field :: "bytes \<Rightarrow> nat \<Rightarrow> nat \<Rightarrow> (bytes \<times> nat) parsed option" where
  "parse_field buf n p =
    do { r \<leftarrow> GetVarint32 (shift p (view_of buf)) 5;
         case r of
           None \<Rightarrow> Some Exit
         | Some (len, sz) \<Rightarrow>
             (if int n - int (p + len) < uint sz then Some Exit
              else do { bs \<leftarrow> read_bytes (shift (p + len) (view_of buf)) (unat sz); Some (Parsed (bs, p + len + unat sz)) }) }"

definition parse_request :: "bytes \<Rightarrow> nat \<Rightarrow> (OrderType \<times> bytes \<times> bytes) parsed option" where
  "parse_request buf n =
    (case parse_order buf n of
       Exit \<Rightarrow> Some Exit
     | Parsed (order_type, p) \<Rightarrow>
         do { r \<leftarrow> parse_field buf n p;
              case r of
                Exit \<Rightarrow> Some Exit
              | Parsed (key, p2) \<Rightarrow>
                  (case order_type of
                     Get \<Rightarrow> Some (Parsed (Get, key, []))
                   | Delete \<Rightarrow> Some (Parsed (Delete, key, TombValue))
                   | Put \<Rightarrow>
                       do { r2 \<leftarrow> parse_field buf n p2;
                            case r2 of Exit \<Rightarrow> Some Exit | Parsed (v, p3) \<Rightarrow> Some (Parsed (Put, key, v)) }) })"


section \<open>A connection\<close>

text \<open>The reply to a request.  A lookup that fails leaves the text empty; a deletion is stored with \<^verbatim>\<open>Put\<close>.\<close>

definition answer :: "host \<Rightarrow> OrderType \<times> bytes \<times> bytes \<Rightarrow> DataBase \<Rightarrow> (bytes \<times> DataBase) option" where
  "answer host req db =
    (case req of (order_type, key, v) \<Rightarrow>
      if order_type = Get
      then do { (r, db') \<leftarrow> DB_Get host db key; Some (case r of None \<Rightarrow> [] | Some w \<Rightarrow> w, db') }
      else do { db' \<leftarrow> DB_Add db Put key v; Some (str ''OK'', db') })"

definition recv_into :: "bytes \<Rightarrow> bytes \<Rightarrow> bytes" where
  "recv_into buf msg = msg @ drop (length msg) buf"

text \<open>The replies sent, whether the process still runs, and the database.\<close>

fun NetworkTask_Run :: "host \<Rightarrow> bytes \<Rightarrow> bytes list \<Rightarrow> DataBase \<Rightarrow> (bytes list \<times> bool \<times> DataBase) option" where
  "NetworkTask_Run host buf [] db = Some ([], True, db)"
| "NetworkTask_Run host buf (msg # msgs) db =
    do { let buf1 = recv_into buf msg;
         r \<leftarrow> parse_request buf1 (length msg);
         case r of
           Exit \<Rightarrow> Some ([], False, db)
         | Parsed req \<Rightarrow>
             do { (reply, db1) \<leftarrow> answer host req db;
                  (replies, alive, db2) \<leftarrow> NetworkTask_Run host buf1 msgs db1;
                  Some (reply # replies, alive, db2) } }"


section \<open>Operations as tasks\<close>

record DBOperationTask =
  op_type :: OrderType
  op_key :: bytes
  op_value :: bytes
  value_out :: bytes
  tomb_value :: bytes

definition DBOperationTask_new :: "OrderType \<Rightarrow> bytes \<Rightarrow> bytes \<Rightarrow> DBOperationTask" where
  "DBOperationTask_new t key v = \<lparr>op_type = t, op_key = key, op_value = v, value_out = [], tomb_value = TombValue\<rparr>"

text \<open>A lookup queues the value the creator of the task expects with the one it found, which stays as it was when there is none.\<close>

definition DBOperationTask_Run ::
  "host \<Rightarrow> DBOperationTask \<Rightarrow> DataBase \<Rightarrow> (bytes \<times> bytes) ConcurrentQueue \<Rightarrow> (DBOperationTask \<times> DataBase \<times> (bytes \<times> bytes) ConcurrentQueue) option" where
  "DBOperationTask_Run host task db result_queue =
    (case op_type task of
       Put \<Rightarrow> do { db' \<leftarrow> DB_Add db Put (op_key task) (op_value task); Some (task, db', result_queue) }
     | Delete \<Rightarrow> do { db' \<leftarrow> DB_Add db Put (op_key task) (tomb_value task); Some (task, db', result_queue) }
     | Get \<Rightarrow>
         do { (r, db') \<leftarrow> DB_Get host db (op_key task);
              let found = (case r of None \<Rightarrow> value_out task | Some v \<Rightarrow> v);
              Some (task\<lparr>value_out := found\<rparr>, db', cq_push (op_value task, found) result_queue) })"


section \<open>Requests\<close>

text \<open>What the client sends.\<close>

definition encode_request :: "OrderType \<Rightarrow> bytes \<Rightarrow> bytes \<Rightarrow> bytes" where
  "encode_request order_type key v =
    OrderTypeString order_type @ EncodeVarint32 (of_nat (length key)) @ key @
    (if order_type = Put then EncodeVarint32 (of_nat (length v)) @ v else [])"

fun request_op :: "OrderType \<times> bytes \<times> bytes \<Rightarrow> db_op" where
  "request_op (Get, k, v) = DGet k"
| "request_op (Put, k, v) = DAdd Put k v"
| "request_op (Delete, k, v) = DAdd Put k TombValue"

fun reply_of :: "db_output \<Rightarrow> bytes" where
  "reply_of Done = str ''OK''"
| "reply_of (Got None) = []"
| "reply_of (Got (Some v)) = v"

lemma parse_field_reads:
  assumes "reads (shift p (view_of buf)) (wrap_key k)" "p + length (wrap_key k) \<le> n" "length k < 2 ^ 32"
  shows "parse_field buf n p = Some (Parsed (k, p + length (wrap_key k)))"
proof -
  let ?e = "EncodeVarint32 (of_nat (length k))"
  have r: "reads (shift p (view_of buf)) ?e" "reads (shift (p + length ?e) (view_of buf)) k"
    using assms(1) by (simp_all add: wrap_key_def reads_append shift_shift add.commute)
  have "unat (of_nat (length k) :: u32) = length k" "uint (of_nat (length k) :: u32) = int (length k)"
    using assms(3) by (simp_all add: unat_of_nat_u32 uint_nat)
  then show ?thesis
    using GetVarint32_reads [OF r(1)] read_bytes_reads [OF r(2)] assms(2) by (simp add: parse_field_def wrap_key_def)
qed

lemma reads_prefix: "reads (view_of (xs @ ys)) xs"
  by (simp add: reads_def view_of_def nth_append)

lemma reads_part: "reads (shift (length xs) (view_of (xs @ ys @ zs))) ys"
  using reads_prefix [of "xs @ ys" zs] by (simp add: reads_append)

lemma parse_encoded:
  assumes "length k < 2 ^ 32" "length v < 2 ^ 32"
  shows "parse_request (recv_into buf (encode_request t k v)) (length (encode_request t k v)) =
    Some (Parsed (t, k, case t of Get \<Rightarrow> [] | Put \<Rightarrow> v | Delete \<Rightarrow> TombValue))"
proof -
  let ?o = "OrderTypeString t" and ?m = "encode_request t k v" and ?tail = "if t = Put then wrap_key v else []"
  define rest where "rest = drop (length ?m) buf"
  have m: "?m = ?o @ wrap_key k @ ?tail" by (simp add: encode_request_def wrap_key_def)
  have b: "recv_into buf ?m = ?o @ wrap_key k @ ?tail @ rest" by (simp add: recv_into_def m rest_def [unfolded m])
  have "0 < length (wrap_key k)" by (auto simp: wrap_key_def EncodeVarint32_def)
  then have "length ?o < length ?m" unfolding m by simp
  then have order: "parse_order (recv_into buf ?m) (length ?m) = Parsed (t, length ?o)"
    unfolding b by (cases t) (simp_all add: parse_order_def OrderTypeString_def str_def)
  have f1: "parse_field (recv_into buf ?m) (length ?m) (length ?o) = Some (Parsed (k, length ?o + length (wrap_key k)))"
    unfolding b by (rule parse_field_reads [OF reads_part _ assms(1)]) (simp add: m)
  have f2: "parse_field (recv_into buf ?m) (length ?m) (length ?o + length (wrap_key k)) =
      Some (Parsed (v, length ?o + length (wrap_key k) + length (wrap_key v)))" if "t = Put"
  proof -
    have "length ?o + length (wrap_key k) + length (wrap_key v) \<le> length ?m" unfolding m using that by simp
    then show ?thesis unfolding b using parse_field_reads [of "length (?o @ wrap_key k)" "(?o @ wrap_key k) @ wrap_key v @ rest" v "length ?m"]
      reads_part [of "?o @ wrap_key k" "wrap_key v" rest] assms(2) that by simp
  qed
  show ?thesis unfolding parse_request_def order parsed.case prod.case f1 Option.bind.simps using f2 by (cases t) simp_all
qed

lemma answer_step:
  "answer host (t, k, case t of Get \<Rightarrow> [] | Put \<Rightarrow> v | Delete \<Rightarrow> TombValue) db =
    do { (out, db') \<leftarrow> db_step host iter (request_op (t, k, v)) db; Some (reply_of out, db') }"
  by (cases t) (auto simp: answer_def case_prod_unfold split: option.splits bind_splits)

text \<open>A task does to the database what the request does, and queues its reply.\<close>

lemma DBOperationTask_Run_step:
  "map_option snd (DBOperationTask_Run host (DBOperationTask_new t k v) db q) =
    do { (out, db') \<leftarrow> db_step host iter (request_op (t, k, v)) db; Some (db', if t = Get then cq_push (v, reply_of out) q else q) }"
  by (cases t) (auto simp: DBOperationTask_Run_def DBOperationTask_new_def Let_def split: option.splits bind_splits)


section \<open>Properties\<close>

text \<open>
  C34: The server speaks for the database.  A connection on which a client sends requests that fit the receive buffer, one per
  message, gets exactly the replies that the same operations give on the database: the value for a \<^verbatim>\<open>Get\<close>, or no
  bytes when there is none, and \<^verbatim>\<open>OK\<close> otherwise; no request ends the process, and what earlier messages left in the
  buffer does not matter.
\<close>

theorem server_session:
  assumes "\<forall>(t, k, v) \<in> set reqs. length (encode_request t k v) \<le> 1400 \<and> length v < 2 ^ 32"
  shows "NetworkTask_Run host buf (map (\<lambda>(t, k, v). encode_request t k v) reqs) db =
    do { (outs, db') \<leftarrow> db_run host iter (map request_op reqs) db; Some (map reply_of outs, True, db') }"
  using assms
proof (induction reqs arbitrary: buf db)
  case (Cons r reqs)
  obtain t k v where r: "r = (t, k, v)" by (cases r)
  have "length k \<le> length (encode_request t k v)" by (simp add: encode_request_def)
  then have "length k < 2 ^ 32" "length v < 2 ^ 32" using Cons.prems r by auto
  note p = parse_encoded [OF this, of buf t]
  have IH: "NetworkTask_Run host buf' (map (\<lambda>(t, k, v). encode_request t k v) reqs) db1 =
      do { (outs, db') \<leftarrow> db_run host iter (map request_op reqs) db1; Some (map reply_of outs, True, db') }" for buf' db1
    using Cons by simp
  show ?case
  proof (cases "db_step host iter (request_op (t, k, v)) db")
    case None
    then show ?thesis by (simp add: r Let_def p answer_step [of host t k v _ iter])
  next
    case (Some a)
    obtain out db1 where a: "a = (out, db1)" by (cases a)
    show ?thesis
      by (cases "db_run host iter (map request_op reqs) db1") (auto simp: r Let_def p answer_step [of host t k v _ iter] IH Some a)
  qed
qed simp

text \<open>A \<^verbatim>\<open>Put\<close> whose key fills the buffer makes the server read the size of the value past its end.\<close>

lemma server_reads_past_buffer:
  assumes "length buf = 1400" "length (encode_request Delete k []) = 1403"
  shows "parse_request (recv_into buf (str ''Put'' @ wrap_key k)) (length (str ''Put'' @ wrap_key k)) = None"
proof -
  let ?m = "str ''Put'' @ wrap_key k"
  have len: "length ?m = 1400" using assms(2) by (simp add: encode_request_def OrderTypeString_def str_def wrap_key_def)
  then have b: "recv_into buf ?m = ?m" using assms(1) by (simp add: recv_into_def)
  have o: "parse_order ?m (length ?m) = Parsed (Put, 3)" using len by (simp add: parse_order_def str_def)
  have "length k < 2 ^ 32" using len by (simp add: str_def wrap_key_def)
  moreover have "reads (shift 3 (view_of ?m)) (wrap_key k)" using reads_part [of "str ''Put''" "wrap_key k" "[]"] by (simp add: str_def numeral_3_eq_3)
  ultimately have f1: "parse_field ?m (length ?m) 3 = Some (Parsed (k, length ?m))"
    using parse_field_reads [of 3 ?m k "length ?m"] by (simp add: str_def)
  have "view_of ?m (length ?m) = None" by (simp add: view_of_def)
  then have "GetVarint32 (shift (length ?m) (view_of ?m)) 5 = None"
    by (simp add: GetVarint32_def GetVarint32Ptr_def GetVarint32Ptr_loop.simps)
  then have "parse_field ?m (length ?m) (length ?m) = None" by (simp add: parse_field_def)
  then show ?thesis unfolding b parse_request_def o by (simp only: f1 parsed.case prod.case OrderType.case Option.bind.simps)
qed

theorem server_session_witness:
  "\<exists>db0 db. db_start 100 4 1 Null = Some db0 \<and>
    NetworkTask_Run LittleHost (replicate 1400 0) [encode_request Put [60] [7], encode_request Get [60] []] db0 = Some ([str ''OK'', [7]], True, db)"
proof -
  let ?reqs = "[(Put, [60], [7]), (Get, [60], [])]"
  have "\<forall>(t, k, v) \<in> set ?reqs. length (encode_request t k v) \<le> 1400 \<and> length v < 2 ^ 32"
    by (simp add: encode_request_def OrderTypeString_def str_def EncodeVarint32_def)
  note s = server_session [OF this, of LittleHost "replicate 1400 0" _ sorted_iter]
  have ok: "runs_ok [DAdd Put [60] [7], DGet [60]]"
    by (simp add: runs_ok_def str_def wrap_key_def EncodeVarint32_def kBlockSize_def entry_bytes_def stored_value_def)
  have outs: "fst (ds_run 100 [DAdd Put [60] [7], DGet [60]] ds_new) = [Done, Got (Some [7])]"
    by (simp add: ds_new_def spec_new_def ds_add_def ds_get_def lookup_def stored_value_def Let_def put_key_def)
  obtain db0 db where d: "db_start 100 4 1 Null = Some db0" "db_run LittleHost sorted_iter [DAdd Put [60] [7], DGet [60]] db0 = Some ([Done, Got (Some [7])], db)"
    using db_run_sim [OF ok iterates_sorted_iter, of 1 100 4 Null LittleHost] outs by auto
  have ops: "map request_op ?reqs = [DAdd Put [60] [7], DGet [60]]" "map (\<lambda>(t, k, v). encode_request t k v) ?reqs = [encode_request Put [60] [7], encode_request Get [60] []]"
    by simp_all
  have "NetworkTask_Run LittleHost (replicate 1400 0) [encode_request Put [60] [7], encode_request Get [60] []] db0 = Some ([str ''OK'', [7]], True, db)"
    using s [of db0, unfolded ops d(2)] by (simp only: Option.bind.simps prod.case list.map reply_of.simps)
  with d(1) show ?thesis by blast
qed

end
