(* ===== verification/Compaction.thy ===== *)
theory Compaction
  imports Storage_Engine
begin

text \<open>
  \<^verbatim>\<open>db/storage_engine.cpp\<close>, compaction: the choice of the files, the n-way merge and the update of the file maps.

  A pointer into a mapped file is a position in its view.  \<open>None\<close> is undefined behaviour, an uncaught
  exception, a failed \<^verbatim>\<open>assert\<close>, or a recursion that does not end.  Logging is left out.
\<close>

section \<open>Entries\<close>

record Entry =
  entry_key :: bytes
  entry_level :: int
  entry_file :: int
  entry_index :: nat
  entry_is_delete :: bool
  entry_p :: view
  entry_size :: u32

text \<open>The entry at position \<open>p\<close> of a file, and the position after it.\<close>

definition ExtractEntry :: "nat \<Rightarrow> File \<Rightarrow> nat \<Rightarrow> (Entry \<times> nat) option" where
  "ExtractEntry p file index =
    do { let buf = mmap file;
         (length1, size1) \<leftarrow> get32 (shift p buf);
         key \<leftarrow> read_bytes (shift (p + length1) buf) (unat size1);
         let p2 = p + length1 + unat size1;
         (length2, size2) \<leftarrow> get32 (shift p2 buf);
         let p3 = p2 + length2;
         is_delete \<leftarrow>
           (if unat size2 = length TombValue
            then do { v \<leftarrow> read_bytes (shift p3 buf) (unat size2); Some (v = TombValue) }
            else Some False);
         Some (\<lparr>entry_key = key, entry_level = level_id file, entry_file = file_id file, entry_index = index,
                entry_is_delete = is_delete, entry_p = shift p buf,
                entry_size = plus32 length1 size1 + plus32 length2 size2\<rparr>,
               p3 + unat size2) }"

definition priority_queue_cmp :: "Entry \<Rightarrow> Entry \<Rightarrow> bool" where
  "priority_queue_cmp a b \<longleftrightarrow>
    entry_key a > entry_key b \<or>
    (entry_key a = entry_key b \<and>
      (entry_level a > entry_level b \<or> (entry_level a = entry_level b \<and> entry_file a < entry_file b)))"

text \<open>
  \<^verbatim>\<open>std::priority_queue\<close> as the list of its elements: \<^verbatim>\<open>top\<close> is one below which the comparator puts
  no other.
\<close>

fun pq_top :: "Entry list \<Rightarrow> Entry option" where
  "pq_top [] = None"
| "pq_top (x # xs) = (case pq_top xs of None \<Rightarrow> Some x | Some y \<Rightarrow> Some (if priority_queue_cmp x y then y else x))"

definition pq_pop :: "Entry list \<Rightarrow> Entry list" where
  "pq_pop pq = (case pq_top pq of None \<Rightarrow> [] | Some e \<Rightarrow> remove1 e pq)"


section \<open>The merge\<close>

definition FlushCompactedFile :: "host \<Rightarrow> iteration \<Rightarrow> StorageEngine \<Rightarrow> ByteArray list \<Rightarrow> u32 \<Rightarrow> int \<Rightarrow> (bytes \<times> StorageEngine) option" where
  "FlushCompactedFile host iter eng content content_size level =
    do { (fid, name, eng1) \<leftarrow> NewWritableFile eng level;
         (img, key_offset) \<leftarrow> Flush host iter content Map.empty content_size;
         Some (name, write_file eng1 name img) }"

text \<open>Flush the gathered entries and open the new file.\<close>

definition emit_file :: "host \<Rightarrow> iteration \<Rightarrow> StorageEngine \<Rightarrow> ByteArray list \<Rightarrow> u32 \<Rightarrow> int \<Rightarrow> (File \<times> StorageEngine) option" where
  "emit_file host iter eng content content_size level =
    do { (name, eng1) \<leftarrow> FlushCompactedFile host iter eng content content_size level;
         file \<leftarrow> File_new (data_folder eng1) name;
         Some (file, eng1) }"

text \<open>Skip the bounds at the start of a file, then read where its index starts.\<close>

definition skip_header :: "host \<Rightarrow> File \<Rightarrow> nat \<Rightarrow> (nat \<times> u32) option" where
  "skip_header host file i =
    do { (entry, p) \<leftarrow> ExtractEntry 0 file i;
         if int p \<noteq> uint (entry_size entry) then None
         else do { index_offset \<leftarrow> GetFixed32 host (shift p (mmap file)); Some (p + 4, index_offset) } }"

fun skip_headers :: "host \<Rightarrow> nat \<Rightarrow> File list \<Rightarrow> (nat list \<times> u32 list) option" where
  "skip_headers host i [] = Some ([], [])"
| "skip_headers host i (file # files) =
    do { (p, n) \<leftarrow> skip_header host file i;
         (ps, ns) \<leftarrow> skip_headers host (Suc i) files;
         Some (p # ps, n # ns) }"

text \<open>Push the next entry of file \<open>i\<close>, if it has one left.\<close>

definition push_next :: "File list \<Rightarrow> u32 list \<Rightarrow> nat \<Rightarrow> nat list \<times> Entry list \<Rightarrow> (nat list \<times> Entry list) option" where
  "push_next files index_offset i st =
    (case st of (ptrs, pq) \<Rightarrow>
      if ptrs ! i < unat (index_offset ! i)
      then do { (entry, p) \<leftarrow> ExtractEntry (ptrs ! i) (files ! i) i; Some (ptrs[i := p], entry # pq) }
      else Some (ptrs, pq))"

fun push_all :: "File list \<Rightarrow> u32 list \<Rightarrow> nat list \<Rightarrow> nat list \<times> Entry list \<Rightarrow> (nat list \<times> Entry list) option" where
  "push_all files index_offset [] st = Some st"
| "push_all files index_offset (i # is) st =
    do { st1 \<leftarrow> push_next files index_offset i st; push_all files index_offset is st1 }"

record merge_state =
  ms_ptrs :: "nat list"
  ms_pq :: "Entry list"
  ms_prev :: bytes
  ms_has_initial :: bool
  ms_content :: "ByteArray list"
  ms_content_size :: u32
  ms_compacted :: "File list"
  ms_engine :: StorageEngine

text \<open>A live entry joins the content, which is flushed once it is larger than a buffer.\<close>

definition merge_emit :: "host \<Rightarrow> iteration \<Rightarrow> u32 \<Rightarrow> int \<Rightarrow> Entry \<Rightarrow> merge_state \<Rightarrow> merge_state option" where
  "merge_emit host iter buffer_size level entry s =
    do { let temp = mk_ByteArray (entry_p entry) (entry_size entry);
         let content = ms_content s @ [temp];
         let n = ms_content_size s + ba_size temp;
         if n > buffer_size
         then do { (file, eng) \<leftarrow> emit_file host iter (ms_engine s) content n (level + 1);
                   Some (s\<lparr>ms_content := [], ms_content_size := 0, ms_compacted := ms_compacted s @ [file], ms_engine := eng\<rparr>) }
         else Some (s\<lparr>ms_content := content, ms_content_size := n\<rparr>) }"

text \<open>One round of the loop: of equal keys only the first counts.\<close>

definition merge_entry :: "host \<Rightarrow> iteration \<Rightarrow> u32 \<Rightarrow> int \<Rightarrow> Entry \<Rightarrow> merge_state \<Rightarrow> merge_state option" where
  "merge_entry host iter buffer_size level entry s =
    (if \<not> ms_has_initial s \<or> entry_key entry \<noteq> ms_prev s
     then do { let s1 = s\<lparr>ms_has_initial := True, ms_prev := entry_key entry\<rparr>;
               if \<not> entry_is_delete entry then merge_emit host iter buffer_size level entry s1 else Some s1 }
     else Some s)"

partial_function (option) merge_loop ::
  "host \<Rightarrow> iteration \<Rightarrow> u32 \<Rightarrow> int \<Rightarrow> File list \<Rightarrow> u32 list \<Rightarrow> merge_state \<Rightarrow> merge_state option" where
  "merge_loop host iter buffer_size level files index_offset s =
    (case pq_top (ms_pq s) of
       None \<Rightarrow> Some s
     | Some entry \<Rightarrow>
        do { s1 \<leftarrow> merge_entry host iter buffer_size level entry (s\<lparr>ms_pq := pq_pop (ms_pq s)\<rparr>);
             (ptrs, pq) \<leftarrow> push_next files index_offset (entry_index entry) (ms_ptrs s1, ms_pq s1);
             merge_loop host iter buffer_size level files index_offset (s1\<lparr>ms_ptrs := ptrs, ms_pq := pq\<rparr>) })"

definition NWayCompaction :: "host \<Rightarrow> iteration \<Rightarrow> u32 \<Rightarrow> StorageEngine \<Rightarrow> File list \<Rightarrow> int \<Rightarrow> (File list \<times> StorageEngine) option" where
  "NWayCompaction host iter buffer_size eng compact_files level =
    do { (ptrs, index_offset) \<leftarrow> skip_headers host 0 compact_files;
         (ptrs1, pq) \<leftarrow> push_all compact_files index_offset [0..<length compact_files] (ptrs, []);
         s \<leftarrow> merge_loop host iter buffer_size level compact_files index_offset
               \<lparr>ms_ptrs = ptrs1, ms_pq = pq, ms_prev = [], ms_has_initial = False, ms_content = [],
                ms_content_size = 0, ms_compacted = [], ms_engine = eng\<rparr>;
         if ms_content s \<noteq> []
         then do { (file, eng') \<leftarrow> emit_file host iter (ms_engine s) (ms_content s) (ms_content_size s) (level + 1);
                   Some (ms_compacted s @ [file], eng') }
         else Some (ms_compacted s, ms_engine s) }"


section \<open>Updating the maps\<close>

fun erase_first :: "('a \<Rightarrow> bool) \<Rightarrow> 'a list \<Rightarrow> 'a list" where
  "erase_first P [] = []"
| "erase_first P (x # xs) = (if P x then xs else x # erase_first P xs)"

definition remove_from_maps :: "File \<Rightarrow> StorageEngine \<Rightarrow> StorageEngine" where
  "remove_from_maps file eng =
    eng\<lparr>level_files := lm_set (level_files eng) (level_id file)
          (erase_first (\<lambda>g. file_id g = file_id file) (lm_at (level_files eng) (level_id file))),
        files_map := (files_map eng)(file_id file := None)\<rparr>"

definition delete_file :: "File \<Rightarrow> StorageEngine \<Rightarrow> StorageEngine" where
  "delete_file file eng = eng\<lparr>data_folder := snd (File_Delete (data_folder eng) file)\<rparr>"

definition UpdateMapAfterCompaction :: "File list \<Rightarrow> File list \<Rightarrow> bool \<Rightarrow> StorageEngine \<Rightarrow> StorageEngine" where
  "UpdateMapAfterCompaction compacted_files compact_files need_remove_file eng =
    (let eng1 = fold remove_from_maps compact_files eng;
         eng2 = fold add_to_maps compacted_files eng1
     in if need_remove_file then fold delete_file compact_files eng2 else eng2)"

text \<open>\<^verbatim>\<open>rename\<close> fails, without effect, when there is no such file.\<close>

definition rename_file :: "bytes \<Rightarrow> bytes \<Rightarrow> disk \<Rightarrow> disk" where
  "rename_file old new d = (case d old of None \<Rightarrow> d | Some bs \<Rightarrow> d(old := None, new := Some bs))"

fun move_files :: "File list \<Rightarrow> StorageEngine \<Rightarrow> (File list \<times> StorageEngine) option" where
  "move_files [] eng = Some ([], eng)"
| "move_files (file # files) eng =
    do { let fid = last_file_id eng + 1;
         if \<not> fid < 2 ^ 31 then None
         else
           do { name \<leftarrow> FileName (level_id file + 1) fid;
                let eng1 = eng\<lparr>last_file_id := fid, data_folder := rename_file (FilePath (file_name file)) (FilePath name) (data_folder eng)\<rparr>;
                f \<leftarrow> File_new (data_folder eng1) name;
                (fs, eng2) \<leftarrow> move_files files eng1;
                Some (f # fs, eng2) } }"

definition TrivialMove :: "StorageEngine \<Rightarrow> File list \<Rightarrow> (File list \<times> StorageEngine) option" where
  "TrivialMove eng compact_files =
    do { (compacted_files, eng1) \<leftarrow> move_files compact_files eng;
         Some (compacted_files, UpdateMapAfterCompaction compacted_files compact_files False eng1) }"


section \<open>Choosing the files\<close>

definition FindOverlapFilesBasedOnBound :: "File list \<Rightarrow> bytes \<Rightarrow> bytes \<Rightarrow> File list" where
  "FindOverlapFilesBasedOnBound candidate_files lowerbound upperbound =
    filter (\<lambda>file. lower_bound file \<le> upperbound \<and> upper_bound file \<ge> lowerbound) candidate_files"

text \<open>The files of level 0 after the first, as long as they overlap what was taken; the upper bound grows.\<close>

fun overlap_level0 :: "File list \<Rightarrow> bytes \<Rightarrow> File list \<times> bytes" where
  "overlap_level0 [] upperbound = ([], upperbound)"
| "overlap_level0 (file # files) upperbound =
    (if lower_bound file \<le> upperbound
     then (case overlap_level0 files (if upper_bound file > upperbound then upper_bound file else upperbound) of
             (fs, ub) \<Rightarrow> (file # fs, ub))
     else ([], upperbound))"

definition FindOverlapFilesLevel0 :: "File list \<Rightarrow> bytes \<Rightarrow> File list \<times> bytes" where
  "FindOverlapFilesLevel0 candidate_files upperbound = overlap_level0 (tl candidate_files) upperbound"

text \<open>The files one round at a level compacts: from the level, then from the next.\<close>

definition pick_files :: "level_map \<Rightarrow> int \<Rightarrow> File list" where
  "pick_files lf level =
    (let files = lm_at lf level;
         lowerbound = lower_bound (hd files);
         (more, upperbound) = (if level = 0 then FindOverlapFilesLevel0 files (upper_bound (hd files)) else ([], upper_bound (hd files)));
         next_files = (case map_of lf (level + 1) of None \<Rightarrow> [] | Some fs \<Rightarrow> FindOverlapFilesBasedOnBound fs lowerbound upperbound)
     in hd files # more @ next_files)"

text \<open>One round: the move or the merge, and the new maps.\<close>

definition compact_round :: "host \<Rightarrow> iteration \<Rightarrow> u32 \<Rightarrow> StorageEngine \<Rightarrow> int \<Rightarrow> StorageEngine option" where
  "compact_round host iter buffer_size eng level =
    do { let compact_files = pick_files (level_files eng) level;
         if length compact_files = 1
         then do { (compacted_files, eng') \<leftarrow> TrivialMove eng compact_files; Some eng' }
         else do { (compacted_files, eng1) \<leftarrow> NWayCompaction host iter buffer_size eng compact_files level;
                   Some (UpdateMapAfterCompaction compacted_files compact_files True eng1) } }"

text \<open>\<^verbatim>\<open>level0_files_number_limit_ * (int)pow(10, level_id)\<close>; outside the range of \<^verbatim>\<open>int\<close> it is undefined.\<close>

definition level_limit :: "StorageEngine \<Rightarrow> int \<Rightarrow> int option" where
  "level_limit eng level =
    (if int_ok (10 ^ nat level) \<and> int_ok (level0_files_number_limit eng * 10 ^ nat level)
     then Some (level0_files_number_limit eng * 10 ^ nat level) else None)"

partial_function (option) Compact :: "host \<Rightarrow> iteration \<Rightarrow> u32 \<Rightarrow> StorageEngine \<Rightarrow> int \<Rightarrow> StorageEngine option" where
  "Compact host iter buffer_size eng level =
    do { limit \<leftarrow> level_limit eng level;
         if \<not> size_gt (length (lm_at (level_files eng) level)) limit then Some eng
         else
           do { eng1 \<leftarrow> compact_round host iter buffer_size eng level;
                eng2 \<leftarrow> Compact host iter buffer_size eng1 level;
                Compact host iter buffer_size eng2 (level + 1) } }"

end
