(* ===== verification/Merge_Rep.thy ===== *)
theory Merge_Rep
  imports Compaction
begin

text \<open>
  The reading side of the n-way merge: the positions in the mapped files and the priority queue represent the
  lists of entries that are still to come, and the queue's top is the entry of the smallest key, from
  the lowest level and the newest file.
\<close>

section \<open>Extracting an entry\<close>

text \<open>An \<^verbatim>\<open>Entry\<close> that stands for a key-value pair of file \<open>i\<close>.\<close>

definition entry_for :: "File \<Rightarrow> nat \<Rightarrow> kv \<Rightarrow> Entry \<Rightarrow> bool" where
  "entry_for f i e x \<longleftrightarrow> entry_key x = fst e \<and> entry_level x = level_id f \<and> entry_file x = file_id f \<and> entry_index x = i \<and>
    (entry_is_delete x \<longleftrightarrow> snd e = TombValue) \<and> shows_entry (mk_ByteArray (entry_p x) (entry_size x)) e"

lemma read_wrapped:
  assumes "reads p (wrap_key k)" "length k < 2 ^ 32"
  shows "read_bytes (shift (length (wrap_key k) - length k) p) (unat (of_nat (length k) :: u32)) = Some k"
proof -
  have "reads (shift (length (wrap_key k) - length k) p) k" using assms(1) by (simp add: wrap_key_def reads_append)
  then show ?thesis using assms(2) by (simp add: unat_of_nat_u32 read_bytes_reads)
qed

lemma ExtractEntry_reads:
  assumes r: "reads (shift p (mmap f)) (entry_bytes k v)" and ok: "entry_ok k v"
  shows "\<exists>x. ExtractEntry p f i = Some (x, p + length (entry_bytes k v)) \<and> entry_for f i (k, v) x \<and>
    uint (entry_size x) = int (length (entry_bytes k v))"
proof -
  note rk = reads_entryD [OF r] and len = entry_okD [OF ok]
  have k: "length (wrap_key k) - length k + length k = length (wrap_key k)" "length (wrap_key v) - length v + length v = length (wrap_key v)"
    by (simp_all add: wrap_key_length)
  have sum: "plus32 (length (wrap_key k) - length k) (of_nat (length k)) + plus32 (length (wrap_key v) - length v) (of_nat (length v)) =
      (of_nat (length (entry_bytes k v)) :: u32)"
    by (simp add: plus32_def wrap_key_length entry_bytes_def)
  have val: "read_bytes (shift (p + length (wrap_key k) + (length (wrap_key v) - length v)) (mmap f)) (length v) = Some v"
    using read_wrapped [OF rk(2) len(2)] len(2) by (simp add: unat_of_nat_u32 shift_shift add.assoc)
  let ?x = "\<lparr>entry_key = k, entry_level = level_id f, entry_file = file_id f, entry_index = i,
    entry_is_delete = (v = TombValue), entry_p = shift p (mmap f), entry_size = of_nat (length (entry_bytes k v))\<rparr>"
  have "ExtractEntry p f i = Some (?x, p + length (entry_bytes k v))"
    using get32_wrap_key [OF rk(1)] read_wrapped [OF rk(1) len(1)] get32_wrap_key [OF rk(2)] val len(1,2) sum k
    by (auto simp: ExtractEntry_def Let_def shift_shift unat_of_nat_u32 add.assoc entry_bytes_def)
  moreover have "entry_for f i (k, v) ?x" using r by (simp add: entry_for_def shows_entry_def entry_of_def mk_ByteArray_def)
  moreover have "uint (of_nat (length (entry_bytes k v)) :: u32) = int (length (entry_bytes k v))"
    using ok by (simp add: entry_ok_def unat_of_nat_u32 uint_nat)
  ultimately show ?thesis by auto
qed

text \<open>Positions: before the entries \<open>r\<close>, the last ones of the contents \<open>es\<close>.\<close>

definition start_of :: "kv list \<Rightarrow> nat" where
  "start_of es = length (header_of es) + 4"

definition at_entries :: "kv list \<Rightarrow> kv list \<Rightarrow> nat \<Rightarrow> bool" where
  "at_entries es r p \<longleftrightarrow> (\<exists>pre. es = pre @ r \<and> p = start_of es + length (entries_of pre))"

definition index_of :: "kv list \<Rightarrow> u32" where
  "index_of es = of_nat (start_of es + length (entries_of es))"

lemma skip_header_image:
  assumes f: "holds_image host iter f es"
  shows "skip_header host f i = Some (start_of es, index_of es)"
proof -
  note r = image_parts [OF f] and b = image_bounds [OF f]
  have e: "entry_bytes (fst (hd es)) (fst (last es)) = header_of es" by (simp add: entry_bytes_def header_of_def)
  have "reads (shift 0 (mmap f)) (entry_bytes (fst (hd es)) (fst (last es)))"
    using r(1,2) by (simp add: entry_bytes_def reads_append)
  moreover have "entry_ok (fst (hd es)) (fst (last es))" using b(3) by (simp add: entry_ok_def e)
  ultimately obtain x where x: "ExtractEntry 0 f i = Some (x, length (header_of es))" "uint (entry_size x) = int (length (header_of es))"
    using ExtractEntry_reads [of 0 f "fst (hd es)" "fst (last es)" i] unfolding e by auto
  have "GetFixed32 host (shift (length (header_of es)) (mmap f)) = Some (index_of es)"
    unfolding index_of_def start_of_def by (rule GetFixed32_reads [OF r(3)])
  then show ?thesis by (simp add: skip_header_def x start_of_def)
qed

lemma skip_headers_image:
  assumes "list_all2 (holds_image host iter) files cs"
  shows "skip_headers host i files = Some (map start_of cs, map index_of cs)"
  using assms by (induction files cs arbitrary: i rule: list_all2_induct) (simp_all add: skip_header_image)

lemma at_entries_step:
  assumes f: "holds_image host iter f es" and at: "at_entries es r p"
  shows "p < unat (index_of es) \<longleftrightarrow> r \<noteq> []"
    "r \<noteq> [] \<Longrightarrow> \<exists>x p'. ExtractEntry p f i = Some (x, p') \<and> entry_for f i (hd r) x \<and> at_entries es (tl r) p'"
proof -
  obtain pre where pre: "es = pre @ r" "p = start_of es + length (entries_of pre)" using at by (auto simp: at_entries_def)
  have ent: "entries_of es = entries_of pre @ entries_of r" unfolding pre(1) by (simp add: entries_of_def)
  have idx: "unat (index_of es) = start_of es + length (entries_of es)"
    unfolding index_of_def start_of_def by (rule unat_of_nat_u32) (use image_bounds(3) [OF f] in simp)
  have pos: "0 < length (entry_of e)" for e
    by (simp add: entry_of_def entry_bytes_def wrap_key_def EncodeVarint32_eq)
  then have "entries_of r = [] \<longleftrightarrow> r = []" by (cases r) (auto simp: entries_of_def)
  then show "p < unat (index_of es) \<longleftrightarrow> r \<noteq> []" by (simp add: idx ent pre(2))
  assume "r \<noteq> []"
  then obtain e r' where r: "r = e # r'" by (cases r) auto
  have "reads (shift (start_of es) (mmap f)) (entries_of pre @ entry_of e @ entries_of r')"
    using image_parts(4) [OF f] unfolding ent start_of_def by (simp add: r entries_of_def)
  then have rd: "reads (shift p (mmap f)) (entry_bytes (fst e) (snd e))" by (simp add: reads_append pre(2) entry_of_def shift_shift)
  have "entry_ok (fst e) (snd e)" using f by (simp add: holds_image_def content_ok_def pre(1) r)
  from ExtractEntry_reads [OF rd this, of i] obtain x where
    x: "ExtractEntry p f i = Some (x, p + length (entry_of e))" "entry_for f i e x" by (auto simp: entry_of_def)
  have "at_entries es r' (p + length (entry_of e))"
    unfolding at_entries_def by (rule exI [of _ "pre @ [e]"]) (simp add: pre r entries_of_def)
  with x show "\<exists>x p'. ExtractEntry p f i = Some (x, p') \<and> entry_for f i (hd r) x \<and> at_entries es (tl r) p'" by (auto simp: r)
qed


section \<open>The priority queue\<close>

lemma pq_cmp_trans: "\<not> priority_queue_cmp a b \<Longrightarrow> \<not> priority_queue_cmp b c \<Longrightarrow> \<not> priority_queue_cmp a c"
  unfolding priority_queue_cmp_def by auto

lemma pq_cmp_asym: "priority_queue_cmp a b \<Longrightarrow> \<not> priority_queue_cmp b a"
  by (auto simp: priority_queue_cmp_def)

lemma pq_cmp_irrefl: "\<not> priority_queue_cmp a a"
  by (simp add: priority_queue_cmp_def)

lemma pq_top_None: "pq_top pq = None \<longleftrightarrow> pq = []"
  by (cases pq) (auto split: option.splits)

lemma pq_top_Some:
  assumes "pq_top pq = Some x"
  shows "x \<in> set pq" "y \<in> set pq \<Longrightarrow> \<not> priority_queue_cmp x y"
proof -
  have "x \<in> set pq \<and> (\<forall>y \<in> set pq. \<not> priority_queue_cmp x y)"
    using assms
  proof (induction pq arbitrary: x)
    case (Cons a pq)
    show ?case
    proof (cases "pq_top pq")
      case None
      with Cons.prems pq_top_None [of pq] show ?thesis by (simp add: pq_cmp_irrefl)
    next
      case (Some b)
      note IH = Cons.IH [OF Some]
      show ?thesis
      proof (cases "priority_queue_cmp a b")
        case True
        with Cons.prems Some have "x = b" by simp
        with IH pq_cmp_asym [OF True] show ?thesis by simp
      next
        case False
        with Cons.prems Some have "x = a" by simp
        with IH pq_cmp_trans [OF False] show ?thesis by (auto simp: pq_cmp_irrefl)
      qed
    qed
  qed simp
  then show "x \<in> set pq" "y \<in> set pq \<Longrightarrow> \<not> priority_queue_cmp x y" by blast+
qed


section \<open>What the positions and the queue represent\<close>

text \<open>
  \<open>qs\<close> are the entries to come, file by file.  For the files of \<open>S\<close> the next one is in the queue and the
  position is behind it; for the others the position is before it.
\<close>

definition merge_rep :: "File list \<Rightarrow> kv list list \<Rightarrow> nat set \<Rightarrow> nat list \<times> Entry list \<Rightarrow> kv list list \<Rightarrow> bool" where
  "merge_rep files cs S st qs \<longleftrightarrow> (case st of (ptrs, pq) \<Rightarrow>
    length cs = length files \<and> length ptrs = length files \<and> length qs = length files \<and>
    (\<forall>i < length files. at_entries (cs ! i) (if i \<in> S then tl (qs ! i) else qs ! i) (ptrs ! i)) \<and>
    distinct (map entry_index pq) \<and>
    (\<forall>x \<in> set pq. entry_index x \<in> S \<and> entry_index x < length files \<and> qs ! entry_index x \<noteq> [] \<and>
      entry_for (files ! entry_index x) (entry_index x) (hd (qs ! entry_index x)) x) \<and>
    (\<forall>i \<in> S. i < length files \<longrightarrow> qs ! i \<noteq> [] \<longrightarrow> i \<in> entry_index ` set pq))"

lemma push_next_rep:
  assumes im: "list_all2 (holds_image host iter) files cs" and rep: "merge_rep files cs S st qs" and i: "i < length files" "i \<notin> S"
  shows "\<exists>st'. push_next files (map index_of cs) i st = Some st' \<and> merge_rep files cs (insert i S) st' qs"
proof -
  obtain ptrs pq where st: "st = (ptrs, pq)" by (cases st)
  have len: "length cs = length files" "length ptrs = length files" using rep by (simp_all add: merge_rep_def st)
  have f: "holds_image host iter (files ! i) (cs ! i)" using im i(1) by (simp add: list_all2_conv_all_nth)
  have at: "at_entries (cs ! i) (qs ! i) (ptrs ! i)" using rep i by (auto simp: merge_rep_def st)
  have new: "i \<notin> entry_index ` set pq" using rep i(2) by (auto simp: merge_rep_def st)
  note step = at_entries_step [OF f at]
  show ?thesis
  proof (cases "qs ! i = []")
    case True
    then have "push_next files (map index_of cs) i st = Some st" using step(1) len i(1) by (simp add: push_next_def st)
    moreover have "merge_rep files cs (insert i S) st qs" using rep True at by (auto simp: merge_rep_def st)
    ultimately show ?thesis by blast
  next
    case False
    then obtain x p' where x: "ExtractEntry (ptrs ! i) (files ! i) i = Some (x, p')" "entry_for (files ! i) i (hd (qs ! i)) x"
      "at_entries (cs ! i) (tl (qs ! i)) p'" using step(2) by blast
    have idx: "entry_index x = i" using x(2) by (simp add: entry_for_def)
    have "push_next files (map index_of cs) i st = Some (ptrs[i := p'], x # pq)"
      using step(1) False len i(1) x(1) by (simp add: push_next_def st)
    moreover have "merge_rep files cs (insert i S) (ptrs[i := p'], x # pq) qs"
      using rep x(2,3) False new i len by (auto simp: merge_rep_def st idx nth_list_update)
    ultimately show ?thesis by blast
  qed
qed

lemma push_all_rep:
  assumes im: "list_all2 (holds_image host iter) files cs" and rep: "merge_rep files cs S st qs"
    and "distinct is" "set is \<subseteq> {..<length files}" "set is \<inter> S = {}"
  shows "\<exists>st'. push_all files (map index_of cs) is st = Some st' \<and> merge_rep files cs (S \<union> set is) st' qs"
  using assms(2-5)
proof (induction "is" arbitrary: S st)
  case (Cons i "is")
  obtain st1 where 1: "push_next files (map index_of cs) i st = Some st1" "merge_rep files cs (insert i S) st1 qs"
    using push_next_rep [OF im Cons.prems(1), of i] Cons.prems by auto
  with Cons.IH [OF 1(2)] Cons.prems show ?case by auto
qed simp

lemma initial_rep:
  assumes im: "list_all2 (holds_image host iter) files cs"
  shows "\<exists>st. push_all files (map index_of cs) [0..<length files] (map start_of cs, []) = Some st \<and>
    merge_rep files cs {..<length files} st cs"
proof -
  have "at_entries es es (start_of es)" for es by (auto simp: at_entries_def entries_of_def intro: exI [of _ "[]"])
  then have "merge_rep files cs {} (map start_of cs, []) cs"
    using list_all2_lengthD [OF im] by (simp add: merge_rep_def)
  from push_all_rep [OF im this, of "[0..<length files]"] show ?thesis by (auto simp: lessThan_atLeast0)
qed

text \<open>The top of the queue and what is left when it is popped.\<close>

lemma pop_rep:
  assumes rep: "merge_rep files cs {..<length files} (ptrs, pq) qs" and top: "pq_top pq = Some x"
  defines "i \<equiv> entry_index x"
  shows "i < length files" "qs ! i \<noteq> []" "entry_for (files ! i) i (hd (qs ! i)) x"
    "merge_rep files cs ({..<length files} - {i}) (ptrs, pq_pop pq) (qs[i := tl (qs ! i)])"
    "\<And>j. j < length files \<Longrightarrow> qs ! j \<noteq> [] \<Longrightarrow> fst (hd (qs ! i)) \<le> fst (hd (qs ! j)) \<and>
      (fst (hd (qs ! j)) = fst (hd (qs ! i)) \<longrightarrow>
        level_id (files ! i) < level_id (files ! j) \<or> (level_id (files ! i) = level_id (files ! j) \<and> file_id (files ! j) \<le> file_id (files ! i)))"
proof -
  note x = pq_top_Some [OF top]
  show ent: "i < length files" "qs ! i \<noteq> []" "entry_for (files ! i) i (hd (qs ! i)) x"
    using rep x(1) by (auto simp: merge_rep_def i_def)
  have d: "distinct (map entry_index pq)" using rep by (simp add: merge_rep_def)
  then have dp: "distinct pq" by (simp add: distinct_map)
  have pop: "pq_pop pq = remove1 x pq" by (simp add: pq_pop_def top)
  have out: "y \<in> set (pq_pop pq) \<longleftrightarrow> y \<in> set pq \<and> entry_index y \<noteq> i" for y
    using d dp x(1) by (auto simp: pop i_def distinct_map inj_on_def)
  have "distinct (map entry_index (pq_pop pq))" using d by (simp add: pop distinct_map distinct_remove1 inj_on_def notin_set_remove1)
  moreover have "at_entries (cs ! j) (if j \<in> {..<length files} - {i} then tl (qs[i := tl (qs ! i)] ! j) else qs[i := tl (qs ! i)] ! j) (ptrs ! j)"
    if "j < length files" for j
    using rep that by (cases "j = i") (auto simp: merge_rep_def)
  moreover have "j \<in> entry_index ` set (pq_pop pq)" if j: "j < length files" "j \<noteq> i" "qs ! j \<noteq> []" for j
  proof -
    obtain y where "y \<in> set pq" "entry_index y = j" using rep j by (auto simp: merge_rep_def)
    with j(2) show ?thesis using out [of y] by blast
  qed
  ultimately show "merge_rep files cs ({..<length files} - {i}) (ptrs, pq_pop pq) (qs[i := tl (qs ! i)])"
    using rep out by (auto simp: merge_rep_def)
  show "fst (hd (qs ! i)) \<le> fst (hd (qs ! j)) \<and>
      (fst (hd (qs ! j)) = fst (hd (qs ! i)) \<longrightarrow>
        level_id (files ! i) < level_id (files ! j) \<or> (level_id (files ! i) = level_id (files ! j) \<and> file_id (files ! j) \<le> file_id (files ! i)))"
    if j: "j < length files" "qs ! j \<noteq> []" for j
  proof -
    obtain y where y: "y \<in> set pq" "entry_index y = j" "entry_for (files ! j) j (hd (qs ! j)) y"
      using rep j by (fastforce simp: merge_rep_def)
    from x(2) [OF y(1)] ent(3) y(3) show ?thesis by (auto simp: priority_queue_cmp_def entry_for_def)
  qed
qed

lemma empty_rep:
  assumes "merge_rep files cs {..<length files} (ptrs, []) qs" "i < length files"
  shows "qs ! i = []"
  using assms by (auto simp: merge_rep_def)

end
