(* ===== verification/Merge_Correct.thy ===== *)
theory Merge_Correct
  imports Merge_Rep Engine_Correct
begin

text \<open>
  The n-way merge is correct: of every key it keeps the entry of the best file (lowest level, then newest), it
  drops the deleted ones, and it writes the rest in order into new files of the next level.
\<close>

section \<open>Which entries win\<close>

definition better :: "File \<Rightarrow> File \<Rightarrow> bool" where
  "better f g \<longleftrightarrow> level_id f < level_id g \<or> (level_id f = level_id g \<and> file_id g < file_id f)"

definition winner :: "File list \<Rightarrow> kv list list \<Rightarrow> kv \<Rightarrow> bool" where
  "winner files cs e \<longleftrightarrow> (\<exists>i < length files. e \<in> set (cs ! i) \<and>
    (\<forall>j < length files. fst e \<in> fst ` set (cs ! j) \<longrightarrow> j = i \<or> better (files ! i) (files ! j)))"

text \<open>The merge has consumed what is before \<open>qs\<close> and kept \<open>out\<close> of it.\<close>

definition merge_inv :: "File list \<Rightarrow> kv list list \<Rightarrow> kv list list \<Rightarrow> kv list \<Rightarrow> bool" where
  "merge_inv files cs qs out \<longleftrightarrow> length cs = length files \<and> length qs = length files \<and>
    (\<forall>i < length files. \<exists>pre. cs ! i = pre @ qs ! i \<and> fst ` set pre \<subseteq> fst ` set out) \<and>
    sorted_wrt (<) (map fst out) \<and> (\<forall>e \<in> set out. winner files cs e) \<and>
    (\<forall>i < length files. \<forall>e \<in> set (qs ! i). \<forall>d \<in> set out. fst d \<le> fst e)"

definition keep :: "kv list \<Rightarrow> kv \<Rightarrow> kv list" where
  "keep out e = (if out = [] \<or> fst e \<noteq> fst (last out) then out @ [e] else out)"

lemma sorted_le_last: "sorted_wrt (<) (map fst out) \<Longrightarrow> d \<in> set out \<Longrightarrow> fst d \<le> (fst (last out) :: 'o::linorder)"
proof (induction out)
  case (Cons x out)
  then show ?case using last_in_set [of out] by (cases "out = []") (auto intro: less_imp_le)
qed simp

text \<open>File \<open>i\<close> has the best entry to come: the smallest key and, of equal ones, the best file.\<close>

definition first_entry :: "File list \<Rightarrow> kv list list \<Rightarrow> nat \<Rightarrow> bool" where
  "first_entry files qs i \<longleftrightarrow> i < length files \<and> qs ! i \<noteq> [] \<and>
    (\<forall>j < length files. qs ! j \<noteq> [] \<longrightarrow> fst (hd (qs ! i)) \<le> fst (hd (qs ! j)) \<and>
      (fst (hd (qs ! j)) = fst (hd (qs ! i)) \<longrightarrow>
        level_id (files ! i) < level_id (files ! j) \<or> (level_id (files ! i) = level_id (files ! j) \<and> file_id (files ! j) \<le> file_id (files ! i))))"

lemma merge_suffix:
  assumes "merge_inv files cs qs out" "\<forall>es \<in> set cs. sorted_wrt (<) (map fst es)" "j < length files"
  obtains pre where "cs ! j = pre @ qs ! j" "fst ` set pre \<subseteq> fst ` set out" "sorted_wrt (<) (map fst (qs ! j))"
proof -
  obtain pre where pre: "cs ! j = pre @ qs ! j" "fst ` set pre \<subseteq> fst ` set out" using assms(1,3) by (auto simp: merge_inv_def)
  have "sorted_wrt (<) (map fst (cs ! j))" using assms by (simp add: merge_inv_def)
  with pre show thesis using that by (auto simp: sorted_wrt_append)
qed

lemma first_entry_le:
  assumes "first_entry files qs i" "j < length files" "sorted_wrt (<) (map fst (qs ! j))" "x \<in> set (qs ! j)"
  shows "fst (hd (qs ! i)) \<le> fst (hd (qs ! j)) \<and> fst (hd (qs ! j)) \<le> fst x"
proof -
  have ne: "qs ! j \<noteq> []" using assms(4) by auto
  then have "fst (hd (qs ! j)) \<le> fst x" using assms(3,4) by (cases "qs ! j") auto
  with ne assms(1,2) show ?thesis by (simp add: first_entry_def)
qed

text \<open>An entry whose key is new is the best of that key.\<close>

lemma first_entry_wins:
  assumes inv: "merge_inv files cs qs out" and sorted: "\<forall>es \<in> set cs. sorted_wrt (<) (map fst es)" and ids: "distinct (map file_id files)"
    and first: "first_entry files qs i" and new: "\<forall>d \<in> set out. fst d < fst (hd (qs ! i))"
  shows "winner files cs (hd (qs ! i))"
  unfolding winner_def
proof (intro exI conjI allI impI)
  let ?e = "hd (qs ! i)"
  show i: "i < length files" using first by (simp add: first_entry_def)
  obtain pre where "cs ! i = pre @ qs ! i" using merge_suffix [OF inv sorted i] by blast
  then show "?e \<in> set (cs ! i)" using first by (simp add: first_entry_def)
  fix j assume j: "j < length files" "fst ?e \<in> fst ` set (cs ! j)"
  obtain pre where pre: "cs ! j = pre @ qs ! j" "fst ` set pre \<subseteq> fst ` set out" "sorted_wrt (<) (map fst (qs ! j))"
    using merge_suffix [OF inv sorted j(1)] by blast
  have "fst ?e \<notin> fst ` set pre" using pre(2) new by (metis (no_types) imageE less_irrefl subsetD)
  then obtain x where x: "x \<in> set (qs ! j)" "fst x = fst ?e" using j(2) pre(1) by auto
  then have "fst (hd (qs ! j)) = fst ?e" "qs ! j \<noteq> []" using first_entry_le [OF first j(1) pre(3) x(1)] by auto
  then have "level_id (files ! i) < level_id (files ! j) \<or> (level_id (files ! i) = level_id (files ! j) \<and> file_id (files ! j) \<le> file_id (files ! i))"
    using first j(1) by (simp add: first_entry_def)
  moreover have "file_id (files ! j) \<noteq> file_id (files ! i)" if "j \<noteq> i"
    using ids that i j(1) by (simp add: distinct_conv_nth)
  ultimately show "j = i \<or> better (files ! i) (files ! j)" unfolding better_def by force
qed

lemma merge_inv_step:
  assumes inv: "merge_inv files cs qs out" and sorted: "\<forall>es \<in> set cs. sorted_wrt (<) (map fst es)" and ids: "distinct (map file_id files)"
    and first: "first_entry files qs i"
  shows "merge_inv files cs (qs[i := tl (qs ! i)]) (keep out (hd (qs ! i)))"
proof -
  let ?e = "hd (qs ! i)"
  have len: "length cs = length files" "length qs = length files" and s: "sorted_wrt (<) (map fst out)" using inv by (simp_all add: merge_inv_def)
  have i: "i < length files" "qs ! i \<noteq> []" using first by (simp_all add: first_entry_def)
  have below: "fst d \<le> fst ?e" if "d \<in> set out" for d using inv i that by (simp add: merge_inv_def)
  have keys: "fst ` set (keep out ?e) = insert (fst ?e) (fst ` set out)" by (auto simp: keep_def)
  have "\<exists>pre. cs ! j = pre @ qs[i := tl (qs ! i)] ! j \<and> fst ` set pre \<subseteq> fst ` set (keep out ?e)" if j: "j < length files" for j
  proof -
    obtain pre where pre: "cs ! j = pre @ qs ! j" "fst ` set pre \<subseteq> fst ` set out" using merge_suffix [OF inv sorted j] by blast
    have "cs ! j = (pre @ (if j = i then [?e] else [])) @ qs[i := tl (qs ! i)] ! j" using pre(1) i j len by simp
    moreover have "fst ` set (pre @ (if j = i then [?e] else [])) \<subseteq> fst ` set (keep out ?e)" using pre(2) keys by auto
    ultimately show ?thesis by blast
  qed
  moreover have "\<forall>x \<in> set (qs[i := tl (qs ! i)] ! j). \<forall>d \<in> set (keep out ?e). fst d \<le> fst x" if j: "j < length files" for j
  proof (intro ballI)
    fix x d assume "x \<in> set (qs[i := tl (qs ! i)] ! j)" and d: "d \<in> set (keep out ?e)"
    then have x: "x \<in> set (qs ! j)" using j len by (cases "j = i") (auto intro: list.set_sel(2) [OF i(2)])
    obtain pre where "sorted_wrt (<) (map fst (qs ! j))" using merge_suffix [OF inv sorted j] by blast
    note first_entry_le [OF first j this x]
    moreover have "d \<in> set out \<or> d = ?e" using d by (auto simp: keep_def split: if_splits)
    ultimately show "fst d \<le> fst x" using inv x j by (auto simp: merge_inv_def)
  qed
  moreover have "sorted_wrt (<) (map fst (keep out ?e)) \<and> (\<forall>d \<in> set (keep out ?e). winner files cs d)"
  proof (cases "out = [] \<or> fst ?e \<noteq> fst (last out)")
    case True
    have "fst d < fst ?e" if d: "d \<in> set out" for d
    proof -
      have "out \<noteq> []" using d by auto
      then have "fst (last out) \<le> fst ?e" "fst ?e \<noteq> fst (last out)" using below [of "last out"] True by auto
      then show ?thesis using sorted_le_last [OF s d] by simp
    qed
    with True first_entry_wins [OF inv sorted ids first] s inv show ?thesis by (auto simp: keep_def sorted_wrt_append merge_inv_def)
  qed (use inv in \<open>simp add: keep_def merge_inv_def\<close>)
  ultimately show ?thesis using len by (simp add: merge_inv_def)
qed

text \<open>When nothing is to come, the kept entries are the winners.\<close>

lemma winner_unique:
  assumes "winner files cs (k, v)" "winner files cs (k, w)" "\<forall>es \<in> set cs. sorted_wrt (<) (map fst es)" "length cs = length files"
  shows "v = w"
proof -
  obtain i where i: "i < length files" "(k, v) \<in> set (cs ! i)" "\<forall>j < length files. k \<in> fst ` set (cs ! j) \<longrightarrow> j = i \<or> better (files ! i) (files ! j)"
    using assms(1) by (auto simp: winner_def)
  obtain j where j: "j < length files" "(k, w) \<in> set (cs ! j)" "\<forall>i < length files. k \<in> fst ` set (cs ! i) \<longrightarrow> i = j \<or> better (files ! j) (files ! i)"
    using assms(2) by (auto simp: winner_def)
  have "i = j"
  proof (rule ccontr)
    assume "i \<noteq> j"
    with i j have "better (files ! i) (files ! j)" "better (files ! j) (files ! i)" by (force, force)
    then show False by (auto simp: better_def)
  qed
  moreover have "distinct (map fst (cs ! i))" using assms(3,4) i(1) by (auto simp: strict_sorted_iff)
  ultimately show ?thesis using i(2) j(2) by (metis eq_key_imp_eq_value)
qed

lemma merge_inv_done:
  assumes inv: "merge_inv files cs qs out" and sorted: "\<forall>es \<in> set cs. sorted_wrt (<) (map fst es)"
    and "\<And>i. i < length files \<Longrightarrow> qs ! i = []"
  shows "e \<in> set out \<longleftrightarrow> winner files cs e"
proof
  show "winner files cs e" if "e \<in> set out" using inv that by (simp add: merge_inv_def)
  assume w: "winner files cs e"
  then obtain i where i: "i < length files" "e \<in> set (cs ! i)" by (auto simp: winner_def)
  obtain pre where "cs ! i = pre @ qs ! i" "fst ` set pre \<subseteq> fst ` set out" using merge_suffix [OF inv sorted i(1)] by blast
  then have "fst e \<in> fst ` set out" using i(2) assms(3) [OF i(1)] by auto
  then obtain d where d: "d \<in> set out" "fst d = fst e" by auto
  then have "winner files cs d" using inv by (simp add: merge_inv_def)
  moreover have "length cs = length files" using inv by (simp add: merge_inv_def)
  ultimately have "snd d = snd e" using winner_unique [of files cs "fst e" "snd d" "snd e"] w d(2) sorted by (cases d; cases e) simp
  then have "d = e" by (simp add: prod_eq_iff d(2))
  with d(1) show "e \<in> set out" by simp
qed


section \<open>Writing the new files\<close>

definition on_disk :: "host \<Rightarrow> iteration \<Rightarrow> disk \<Rightarrow> File \<Rightarrow> kv list \<Rightarrow> bool" where
  "on_disk host iter d f es \<longleftrightarrow> FileName (level_id f) (file_id f) = Some (file_name f) \<and>
    d (FilePath (file_name f)) = Some (file_image host iter es)"

lemma FilePath_inj: "FilePath a = FilePath b \<longleftrightarrow> a = b"
  by (simp add: FilePath_def)

lemma FileName_inj:
  assumes "FileName l f = Some name" "FileName l' f' = Some name" "0 \<le> l" "l < 2 ^ 31" "0 \<le> f" "0 \<le> l'" "l' < 2 ^ 31" "0 \<le> f'"
  shows "l = l' \<and> f = f'"
  using FileName_parse [OF assms(1,3,4,5)] FileName_parse [OF assms(2,6,7,8)] by simp

text \<open>From \<open>eng0\<close> the files \<open>fs\<close> of level \<open>l\<close> were written, with contents \<open>chunks\<close>; the maps are as before.\<close>

definition produced :: "host \<Rightarrow> iteration \<Rightarrow> int \<Rightarrow> StorageEngine \<Rightarrow> StorageEngine \<Rightarrow> File list \<Rightarrow> kv list list \<Rightarrow> bool" where
  "produced host iter l eng0 eng fs chunks \<longleftrightarrow>
    level_files eng = level_files eng0 \<and> files_map eng = files_map eng0 \<and>
    level0_files_number_limit eng = level0_files_number_limit eng0 \<and>
    last_file_id eng = last_file_id eng0 + int (length fs) \<and>
    list_all2 (holds_image host iter) fs chunks \<and> list_all2 (on_disk host iter (data_folder eng)) fs chunks \<and>
    (\<forall>f \<in> set fs. level_id f = l \<and> last_file_id eng0 < file_id f \<and> file_id f \<le> last_file_id eng) \<and> distinct (map file_id fs) \<and>
    (\<forall>path. path \<notin> (\<lambda>f. FilePath (file_name f)) ` set fs \<longrightarrow> data_folder eng path = data_folder eng0 path)"

lemma produced_Nil: "produced host iter l eng eng [] []"
  by (simp add: produced_def)

lemma list_all2_snoc: "list_all2 P (xs @ [x]) (ys @ [y]) \<longleftrightarrow> list_all2 P xs ys \<and> P x y"
proof (cases "length xs = length ys")
  case False
  then show ?thesis using list_all2_lengthD [of P xs ys] list_all2_lengthD [of P "xs @ [x]" "ys @ [y]"] by auto
qed (simp add: list_all2_append)

lemma emit_file_produced:
  assumes p: "produced host iter l eng0 eng fs chunks" and content: "list_all2 shows_entry content es" "content_ok es"
    and len: "length (file_image host iter es) < 2 ^ 32" and l: "0 \<le> l" "l < 2 ^ 31"
    and id: "-1 \<le> last_file_id eng0" "last_file_id eng0 + int (length fs) + 1 < 10 ^ 8"
  shows "\<exists>f eng'. emit_file host iter eng content (of_nat (length (entries_of es))) l = Some (f, eng') \<and>
    produced host iter l eng0 eng' (fs @ [f]) (chunks @ [es])"
proof -
  define fid where "fid = last_file_id eng + 1"
  have fid: "0 \<le> fid" "fid < 10 ^ 8" using p id by (simp_all add: fid_def produced_def)
  obtain name where name: "FileName l fid = Some name" using FileName_fits(1) [OF fid(1), of l] fid(2) by simp
  define eng' where "eng' = eng\<lparr>last_file_id := fid, data_folder := (data_folder eng)(FilePath name \<mapsto> file_image host iter es)\<rparr>"
  have flush: "FlushCompactedFile host iter eng content (of_nat (length (entries_of es))) l = Some (name, eng')"
    using Flush_correct [OF content, of host iter] name fid(2)
    by (simp add: FlushCompactedFile_def NewWritableFile_def fid_def [symmetric] Let_def write_file_def eng'_def)
  obtain f where f: "File_new (data_folder eng') name = Some f" "holds_image host iter f es" "level_id f = l" "file_id f = fid" "file_name f = name"
    using File_new_image [OF name l fid(1) _ content(2) len, of "data_folder eng'"] by (auto simp: eng'_def)
  have new: "file_name g \<noteq> name" if "on_disk host iter (data_folder eng) g gs" "level_id g = l" "file_id g \<le> last_file_id eng" "0 \<le> file_id g" for g gs
    using that FileName_inj [of l "file_id g" name l fid] name l fid(1) by (auto simp: on_disk_def fid_def)
  have "list_all2 (on_disk host iter (data_folder eng')) fs chunks"
  proof (rule list.rel_mono_strong)
    show "list_all2 (on_disk host iter (data_folder eng)) fs chunks" using p by (simp add: produced_def)
    fix g gs assume g: "g \<in> set fs" "gs \<in> set chunks" "on_disk host iter (data_folder eng) g gs"
    then have "file_name g \<noteq> name" using new [OF g(3)] p id(1) by (auto simp: produced_def)
    with g(3) show "on_disk host iter (data_folder eng') g gs" by (simp add: on_disk_def eng'_def FilePath_inj)
  qed
  moreover have "on_disk host iter (data_folder eng') f es" using f name by (simp add: on_disk_def eng'_def)
  ultimately have "produced host iter l eng0 eng' (fs @ [f]) (chunks @ [es])"
    using p f(2-5) by (auto simp: produced_def list_all2_snoc eng'_def fid_def)
  moreover have "emit_file host iter eng content (of_nat (length (entries_of es))) l = Some (f, eng')"
    using flush f(1) by (simp add: emit_file_def)
  ultimately show ?thesis by blast
qed


section \<open>The loop\<close>

definition live :: "kv list \<Rightarrow> kv list" where
  "live es = filter (\<lambda>e. snd e \<noteq> TombValue) es"

definition total_size :: "kv list list \<Rightarrow> nat" where
  "total_size qs = sum_list (map (\<lambda>q. length (entries_of q)) qs)"

definition total_count :: "kv list list \<Rightarrow> nat" where
  "total_count qs = sum_list (map length qs)"

text \<open>What the merge has written: the live entries it kept, in \<open>chunks\<close> and in the current content.\<close>

definition out_inv :: "host \<Rightarrow> iteration \<Rightarrow> int \<Rightarrow> StorageEngine \<Rightarrow> merge_state \<Rightarrow> kv list \<Rightarrow> kv list list \<Rightarrow> kv list \<Rightarrow> bool" where
  "out_inv host iter l eng0 s out chunks cur \<longleftrightarrow>
    (ms_has_initial s \<longleftrightarrow> out \<noteq> []) \<and> (out \<noteq> [] \<longrightarrow> ms_prev s = fst (last out)) \<and>
    list_all2 shows_entry (ms_content s) cur \<and> ms_content_size s = of_nat (length (entries_of cur)) \<and>
    produced host iter l eng0 (ms_engine s) (ms_compacted s) chunks \<and> concat chunks @ cur = live out"

text \<open>The inputs: files that hold their contents, small enough for one image and for the ids of eight digits.\<close>

definition merge_inputs :: "host \<Rightarrow> iteration \<Rightarrow> int \<Rightarrow> StorageEngine \<Rightarrow> File list \<Rightarrow> kv list list \<Rightarrow> bool" where
  "merge_inputs host iter l eng0 files cs \<longleftrightarrow> iterates iter \<and> list_all2 (holds_image host iter) files cs \<and> distinct (map file_id files) \<and>
    total_size cs < 2 ^ 28 \<and> 0 \<le> l \<and> l < 2 ^ 31 \<and> -1 \<le> last_file_id eng0 \<and> last_file_id eng0 + int (total_count cs) < 10 ^ 8"

lemma merge_inputs_content:
  assumes "merge_inputs host iter l eng0 files cs" "es \<in> set cs"
  shows "content_ok es"
  using assms by (auto simp: merge_inputs_def list_all2_conv_all_nth in_set_conv_nth holds_image_def)

lemma content_ok_member:
  assumes "content_ok es" "e \<in> set es"
  shows "entry_ok (fst e) (snd e)" "str ''00000'' \<le> fst e"
proof -
  show "entry_ok (fst e) (snd e)" using assms by (simp add: content_ok_def)
  have "fst (hd es) \<le> fst e" using assms by (cases es) (auto simp: content_ok_def)
  then show "str ''00000'' \<le> fst e" using assms(1) order_trans unfolding content_ok_def by blast
qed

lemma kept_content_ok:
  assumes ins: "merge_inputs host iter l eng0 files cs" and inv: "merge_inv files cs qs out"
    and "pre @ xs = live out" "xs \<noteq> []"
  shows "content_ok xs"
proof -
  have "set (live out) \<subseteq> set out" by (auto simp: live_def)
  then have sub: "e \<in> set out" if "e \<in> set xs" for e using that unfolding assms(3) [symmetric] by auto
  have ok: "entry_ok (fst e) (snd e) \<and> str ''00000'' \<le> fst e" if "e \<in> set xs" for e
  proof -
    have "winner files cs e" using inv sub [OF that] by (simp add: merge_inv_def)
    then obtain i where i: "i < length files" "e \<in> set (cs ! i)" by (auto simp: winner_def)
    then have "content_ok (cs ! i)" using merge_inputs_content [OF ins] inv by (simp add: merge_inv_def)
    from content_ok_member [OF this i(2)] show ?thesis by simp
  qed
  have "sorted_wrt (<) (map fst (live out))" using inv by (simp add: merge_inv_def live_def sorted_wrt_map sorted_wrt_filter)
  then have "sorted_wrt (<) (map fst xs)" unfolding assms(3) [symmetric] by (simp add: sorted_wrt_append)
  with ok assms(4) show ?thesis by (simp add: content_ok_def)
qed

lemma entries_of_filter: "length (entries_of (filter P es)) \<le> length (entries_of es)"
  by (induction es) (auto simp: entries_of_def)

lemma chunks_count:
  assumes "produced host iter l eng0 eng fs chunks"
  shows "length fs \<le> length (concat chunks)"
proof -
  have "list_all2 (holds_image host iter) fs chunks" using assms by (simp add: produced_def)
  then show ?thesis
  proof (induction fs chunks rule: list_all2_induct)
    case (Cons f fs es chunks)
    then have "es \<noteq> []" by (simp add: holds_image_def content_ok_def)
    with Cons show ?case by (cases es) simp_all
  qed simp
qed

lemma emit_out:
  assumes ins: "merge_inputs host iter l eng0 files cs" and inv: "merge_inv files cs qs out"
    and p: "produced host iter l eng0 eng fs chunks" and content: "list_all2 shows_entry content xs"
    and out: "concat chunks @ xs = live out" "xs \<noteq> []" and room: "length (entries_of out) \<le> total_size cs" "length out \<le> total_count cs"
  shows "\<exists>f eng'. emit_file host iter eng content (of_nat (length (entries_of xs))) l = Some (f, eng') \<and>
    produced host iter l eng0 eng' (fs @ [f]) (chunks @ [xs])"
proof (rule emit_file_produced [OF p content])
  show ok: "content_ok xs" by (rule kept_content_ok [OF ins inv out])
  have "length (entries_of xs) \<le> length (entries_of (live out))" unfolding out(1) [symmetric] by (simp add: entries_of_def)
  also have "\<dots> \<le> length (entries_of out)" by (simp add: live_def entries_of_filter)
  finally have "int (length (entries_of xs)) < 2 ^ 28" using ins room(1) by (simp add: merge_inputs_def)
  then show "length (file_image host iter xs) < 2 ^ 32" using image_bound [OF _ ok] ins by (simp add: merge_inputs_def)
  have "length fs + length xs \<le> length (live out)" unfolding out(1) [symmetric] using chunks_count [OF p] by simp
  moreover have "length (live out) \<le> length out" by (simp add: live_def)
  moreover have "0 < length xs" using out(2) by simp
  ultimately have "int (length fs) + 1 \<le> int (total_count cs)" using room(2) by linarith
  then show "last_file_id eng0 + int (length fs) + 1 < 10 ^ 8" using ins by (simp add: merge_inputs_def)
qed (use ins in \<open>simp_all add: merge_inputs_def\<close>)

text \<open>One round keeps the invariant.\<close>

lemma merge_entry_out:
  assumes ins: "merge_inputs host iter (level + 1) eng0 files cs" and inv: "merge_inv files cs qs (keep out e)"
    and o: "out_inv host iter (level + 1) eng0 s out chunks cur" and x: "entry_for f i e x"
    and room: "length (entries_of (keep out e)) \<le> total_size cs" "length (keep out e) \<le> total_count cs"
  shows "\<exists>s' chunks' cur'. merge_entry host iter buffer_size level x s = Some s' \<and>
    out_inv host iter (level + 1) eng0 s' (keep out e) chunks' cur' \<and> ms_ptrs s' = ms_ptrs s \<and> ms_pq s' = ms_pq s"
proof -
  have key: "entry_key x = fst e" "entry_is_delete x \<longleftrightarrow> snd e = TombValue" using x by (simp_all add: entry_for_def)
  let ?s = "s\<lparr>ms_has_initial := True, ms_prev := fst e\<rparr>"
  show ?thesis
  proof (cases "out = [] \<or> fst e \<noteq> fst (last out)")
    case False
    then have "merge_entry host iter buffer_size level x s = Some s" using o by (auto simp: merge_entry_def out_inv_def key)
    with False o show ?thesis by (auto simp: keep_def)
  next
    case True
    then have k: "keep out e = out @ [e]" by (simp add: keep_def)
    have step: "merge_entry host iter buffer_size level x s = (if snd e = TombValue then Some ?s else merge_emit host iter buffer_size level x ?s)"
      using True o by (auto simp: merge_entry_def out_inv_def key Let_def)
    show ?thesis
    proof (cases "snd e = TombValue")
      case True
      then have "out_inv host iter (level + 1) eng0 ?s (keep out e) chunks cur" using o by (simp add: out_inv_def k live_def)
      with step True show ?thesis by auto
    next
      case False
      let ?temp = "mk_ByteArray (entry_p x) (entry_size x)" and ?xs = "cur @ [e]"
      have content: "list_all2 shows_entry (ms_content s @ [?temp]) ?xs"
        using o x by (simp add: out_inv_def list_all2_snoc entry_for_def)
      have size: "ms_content_size s + ba_size ?temp = of_nat (length (entries_of ?xs))"
        using o x by (simp add: out_inv_def entry_for_def shows_entry_def entries_of_def)
      have out: "concat chunks @ ?xs = live (keep out e)" using o False by (simp add: out_inv_def k live_def flip: append_assoc)
      have p: "produced host iter (level + 1) eng0 (ms_engine s) (ms_compacted s) chunks" using o by (simp add: out_inv_def)
      obtain g eng' where g: "emit_file host iter (ms_engine s) (ms_content s @ [?temp]) (of_nat (length (entries_of ?xs))) (level + 1) = Some (g, eng')"
        "produced host iter (level + 1) eng0 eng' (ms_compacted s @ [g]) (chunks @ [?xs])"
        using emit_out [OF ins inv p content out _ room] by auto
      let ?flushed = "?s\<lparr>ms_content := [], ms_content_size := 0, ms_compacted := ms_compacted s @ [g], ms_engine := eng'\<rparr>"
      let ?grown = "?s\<lparr>ms_content := ms_content s @ [?temp], ms_content_size := of_nat (length (entries_of ?xs))\<rparr>"
      have "merge_emit host iter buffer_size level x ?s = Some (if buffer_size < of_nat (length (entries_of ?xs)) then ?flushed else ?grown)"
        using g(1) size by (simp add: merge_emit_def Let_def)
      moreover have "out_inv host iter (level + 1) eng0 ?flushed (keep out e) (chunks @ [?xs]) []"
        using g(2) out by (simp add: out_inv_def k entries_of_def)
      moreover have "out_inv host iter (level + 1) eng0 ?grown (keep out e) chunks ?xs"
        using p content out by (simp add: out_inv_def k)
      ultimately show ?thesis using step False by (cases "buffer_size < of_nat (length (entries_of ?xs))") (simp_all, blast+)
    qed
  qed
qed

text \<open>A popped entry moves from the entries to come to those kept, or is dropped.\<close>

lemma totals_pop:
  assumes "i < length qs" "qs ! i \<noteq> []"
  shows "total_size (qs[i := tl (qs ! i)]) + length (entry_of (hd (qs ! i))) = total_size qs"
    "total_count (qs[i := tl (qs ! i)]) + 1 = total_count qs"
proof -
  obtain e q where q: "qs ! i = e # q" using assms(2) by (cases "qs ! i") auto
  have qs: "qs = take i qs @ (e # q) # drop (Suc i) qs" using id_take_nth_drop [OF assms(1)] q by simp
  have up: "qs[i := q] = take i qs @ q # drop (Suc i) qs" using assms(1) by (simp add: upd_conv_take_nth_drop)
  show "total_size (qs[i := tl (qs ! i)]) + length (entry_of (hd (qs ! i))) = total_size qs"
    unfolding q list.sel up by (subst (3) qs) (simp add: total_size_def entries_of_def)
  show "total_count (qs[i := tl (qs ! i)]) + 1 = total_count qs"
    unfolding q list.sel up by (subst (3) qs) (simp add: total_count_def)
qed

lemma keep_totals: "length (entries_of (keep out e)) \<le> length (entries_of out) + length (entry_of e)" "length (keep out e) \<le> length out + 1"
  by (simp_all add: keep_def entries_of_def)

definition loop_inv :: "host \<Rightarrow> iteration \<Rightarrow> int \<Rightarrow> StorageEngine \<Rightarrow> File list \<Rightarrow> kv list list \<Rightarrow> merge_state \<Rightarrow>
    kv list list \<Rightarrow> kv list \<Rightarrow> kv list list \<Rightarrow> kv list \<Rightarrow> bool" where
  "loop_inv host iter l eng0 files cs s qs out chunks cur \<longleftrightarrow>
    merge_rep files cs {..<length files} (ms_ptrs s, ms_pq s) qs \<and> merge_inv files cs qs out \<and>
    out_inv host iter l eng0 s out chunks cur \<and>
    length (entries_of out) + total_size qs \<le> total_size cs \<and> length out + total_count qs \<le> total_count cs"

lemma loop_step:
  assumes ins: "merge_inputs host iter (level + 1) eng0 files cs" and inv: "loop_inv host iter (level + 1) eng0 files cs s qs out chunks cur"
    and top: "pq_top (ms_pq s) = Some x"
  shows "\<exists>s1 ptrs pq qs' out' chunks' cur'. merge_entry host iter buffer_size level x (s\<lparr>ms_pq := pq_pop (ms_pq s)\<rparr>) = Some s1 \<and>
    push_next files (map index_of cs) (entry_index x) (ms_ptrs s1, ms_pq s1) = Some (ptrs, pq) \<and>
    loop_inv host iter (level + 1) eng0 files cs (s1\<lparr>ms_ptrs := ptrs, ms_pq := pq\<rparr>) qs' out' chunks' cur' \<and> total_count qs' < total_count qs"
proof -
  let ?i = "entry_index x" and ?e = "hd (qs ! entry_index x)"
  let ?qs = "qs[?i := tl (qs ! ?i)]" and ?s = "s\<lparr>ms_pq := pq_pop (ms_pq s)\<rparr>"
  have rep: "merge_rep files cs {..<length files} (ms_ptrs s, ms_pq s) qs" and minv: "merge_inv files cs qs out"
    and o: "out_inv host iter (level + 1) eng0 s out chunks cur"
    and room: "length (entries_of out) + total_size qs \<le> total_size cs" "length out + total_count qs \<le> total_count cs"
    using inv by (simp_all add: loop_inv_def)
  note pop = pop_rep [OF rep top]
  have im: "list_all2 (holds_image host iter) files cs" and ids: "distinct (map file_id files)" using ins by (simp_all add: merge_inputs_def)
  have sorted: "\<forall>es \<in> set cs. sorted_wrt (<) (map fst es)" using merge_inputs_content [OF ins] by (simp add: content_ok_def)
  have first: "first_entry files qs ?i" using pop(1,2,5) by (simp add: first_entry_def)
  have minv': "merge_inv files cs ?qs (keep out ?e)" by (rule merge_inv_step [OF minv sorted ids first])
  have "?i < length qs" using pop(1) minv by (simp add: merge_inv_def)
  note tot = totals_pop [OF this pop(2)] keep_totals [of out ?e]
  have room': "length (entries_of (keep out ?e)) + total_size ?qs \<le> total_size cs" "length (keep out ?e) + total_count ?qs \<le> total_count cs"
    using room tot by linarith+
  have "out_inv host iter (level + 1) eng0 ?s out chunks cur" using o by (simp add: out_inv_def)
  then obtain s1 chunks' cur' where s1: "merge_entry host iter buffer_size level x ?s = Some s1"
    "out_inv host iter (level + 1) eng0 s1 (keep out ?e) chunks' cur'" "ms_ptrs s1 = ms_ptrs s" "ms_pq s1 = pq_pop (ms_pq s)"
    using merge_entry_out [OF ins minv' _ pop(3), of ?s chunks cur buffer_size] room' by auto
  have "merge_rep files cs ({..<length files} - {?i}) (ms_ptrs s1, ms_pq s1) ?qs" using pop(4) s1(3,4) by simp
  then obtain ptrs pq where push: "push_next files (map index_of cs) ?i (ms_ptrs s1, ms_pq s1) = Some (ptrs, pq)"
    "merge_rep files cs (insert ?i ({..<length files} - {?i})) (ptrs, pq) ?qs"
    using push_next_rep [OF im _ pop(1)] by fastforce
  have "insert ?i ({..<length files} - {?i}) = {..<length files}" using pop(1) by auto
  then have "loop_inv host iter (level + 1) eng0 files cs (s1\<lparr>ms_ptrs := ptrs, ms_pq := pq\<rparr>) ?qs (keep out ?e) chunks' cur'"
    using push(2) minv' s1(2) room' by (simp add: loop_inv_def out_inv_def)
  moreover have "total_count ?qs < total_count qs" using tot(2) by simp
  ultimately show ?thesis using s1(1) push(1) by blast
qed

lemma merge_loop_correct:
  assumes ins: "merge_inputs host iter (level + 1) eng0 files cs" and inv: "loop_inv host iter (level + 1) eng0 files cs s qs out chunks cur"
  shows "\<exists>s' qs' out' chunks' cur'. merge_loop host iter buffer_size level files (map index_of cs) s = Some s' \<and>
    loop_inv host iter (level + 1) eng0 files cs s' qs' out' chunks' cur' \<and> ms_pq s' = []"
  using inv
proof (induction "total_count qs" arbitrary: s qs out chunks cur rule: less_induct)
  case less
  show ?case
  proof (cases "pq_top (ms_pq s)")
    case None
    then have "merge_loop host iter buffer_size level files (map index_of cs) s = Some s" by (subst merge_loop.simps) simp
    moreover have "ms_pq s = []" using None by (simp add: pq_top_None)
    ultimately show ?thesis using less.prems by blast
  next
    case (Some x)
    obtain s1 ptrs pq qs' out' chunks' cur' where 1: "merge_entry host iter buffer_size level x (s\<lparr>ms_pq := pq_pop (ms_pq s)\<rparr>) = Some s1"
      "push_next files (map index_of cs) (entry_index x) (ms_ptrs s1, ms_pq s1) = Some (ptrs, pq)"
      "loop_inv host iter (level + 1) eng0 files cs (s1\<lparr>ms_ptrs := ptrs, ms_pq := pq\<rparr>) qs' out' chunks' cur'" "total_count qs' < total_count qs"
      using loop_step [OF ins less.prems Some] by blast
    have "merge_loop host iter buffer_size level files (map index_of cs) s =
        merge_loop host iter buffer_size level files (map index_of cs) (s1\<lparr>ms_ptrs := ptrs, ms_pq := pq\<rparr>)"
      using Some 1(1,2) by (subst merge_loop.simps) simp
    with less.hyps [OF 1(4,3)] show ?thesis by simp
  qed
qed

text \<open>The merge: it ends, and the new files hold, in order, the live winners.\<close>

lemma NWayCompaction_correct:
  assumes ins: "merge_inputs host iter (level + 1) eng files cs"
  shows "\<exists>fs eng' chunks out. NWayCompaction host iter buffer_size eng files level = Some (fs, eng') \<and>
    produced host iter (level + 1) eng eng' fs chunks \<and> concat chunks = live out \<and>
    sorted_wrt (<) (map fst out) \<and> (\<forall>e. e \<in> set out \<longleftrightarrow> winner files cs e) \<and> length out \<le> total_count cs \<and>
    length (entries_of out) \<le> total_size cs"
proof -
  have im: "list_all2 (holds_image host iter) files cs" using ins by (simp add: merge_inputs_def)
  note len = list_all2_lengthD [OF im]
  obtain ptrs pq where init: "push_all files (map index_of cs) [0..<length files] (map start_of cs, []) = Some (ptrs, pq)"
    "merge_rep files cs {..<length files} (ptrs, pq) cs" using initial_rep [OF im] by auto
  let ?s = "\<lparr>ms_ptrs = ptrs, ms_pq = pq, ms_prev = [], ms_has_initial = False, ms_content = [], ms_content_size = 0,
    ms_compacted = [], ms_engine = eng\<rparr>"
  have "loop_inv host iter (level + 1) eng files cs ?s cs [] [] []"
    using init(2) len by (simp add: loop_inv_def merge_inv_def out_inv_def live_def produced_Nil entries_of_def)
  then obtain s qs out chunks cur where loop: "merge_loop host iter buffer_size level files (map index_of cs) ?s = Some s"
    "loop_inv host iter (level + 1) eng files cs s qs out chunks cur" "ms_pq s = []"
    using merge_loop_correct [OF ins] by blast
  have minv: "merge_inv files cs qs out" and o: "out_inv host iter (level + 1) eng s out chunks cur"
    and room: "length (entries_of out) \<le> total_size cs" "length out \<le> total_count cs"
    using loop(2) by (simp_all add: loop_inv_def)
  have sorted: "\<forall>es \<in> set cs. sorted_wrt (<) (map fst es)" using merge_inputs_content [OF ins] by (simp add: content_ok_def)
  have "qs ! i = []" if "i < length files" for i using empty_rep [OF _ that] loop(2,3) by (auto simp: loop_inv_def)
  note win = merge_inv_done [OF minv sorted this]
  have start: "NWayCompaction host iter buffer_size eng files level =
      (if ms_content s \<noteq> []
       then do { (file, eng') \<leftarrow> emit_file host iter (ms_engine s) (ms_content s) (ms_content_size s) (level + 1); Some (ms_compacted s @ [file], eng') }
       else Some (ms_compacted s, ms_engine s))"
    using skip_headers_image [OF im, of 0] init(1) loop(1) by (simp add: NWayCompaction_def)
  have content: "list_all2 shows_entry (ms_content s) cur" and p: "produced host iter (level + 1) eng (ms_engine s) (ms_compacted s) chunks"
    and kept: "concat chunks @ cur = live out" and size: "ms_content_size s = of_nat (length (entries_of cur))"
    using o by (simp_all add: out_inv_def)
  have "\<exists>fs eng' chunks'. NWayCompaction host iter buffer_size eng files level = Some (fs, eng') \<and>
      produced host iter (level + 1) eng eng' fs chunks' \<and> concat chunks' = live out"
  proof (cases "cur = []")
    case True
    with content p kept start show ?thesis by auto
  next
    case False
    with emit_out [OF ins minv p content kept _ room] obtain f eng' where
      "emit_file host iter (ms_engine s) (ms_content s) (ms_content_size s) (level + 1) = Some (f, eng')"
      "produced host iter (level + 1) eng eng' (ms_compacted s @ [f]) (chunks @ [cur])" unfolding size by blast
    moreover have "ms_content s \<noteq> []" using content False by auto
    ultimately show ?thesis using start kept by auto
  qed
  moreover have "sorted_wrt (<) (map fst out)" using minv by (simp add: merge_inv_def)
  ultimately show ?thesis using win room by blast
qed

end
