(* ===== verification/Engine_Levels.thy ===== *)
theory Engine_Levels
  imports Merge_Correct
begin

text \<open>
  The engine seen as a set of files: what a key looks up to is the entry of the best file that has it, and
  the invariant of the two maps in terms of the levels.
\<close>

section \<open>Lookups as winners\<close>

definition wins :: "File set \<Rightarrow> (int \<Rightarrow> kv list) \<Rightarrow> bytes \<Rightarrow> bytes \<Rightarrow> bool" where
  "wins S cont k v \<longleftrightarrow> (\<exists>f \<in> S. map_of (cont (file_id f)) k = Some v \<and>
    (\<forall>g \<in> S. map_of (cont (file_id g)) k \<noteq> None \<longrightarrow> g = f \<or> better f g))"

lemma better_asym: "better f g \<Longrightarrow> \<not> better g f"
  by (auto simp: better_def)

lemma map_of_wins:
  assumes "sorted_wrt better fs"
  shows "map_of (concat (map (\<lambda>f. cont (file_id f)) fs)) k = Some v \<longleftrightarrow> wins (set fs) cont k v"
  using assms
proof (induction fs)
  case (Cons f fs)
  show ?case
  proof (cases "map_of (cont (file_id f)) k")
    case None
    then have "wins (set (f # fs)) cont k v \<longleftrightarrow> wins (set fs) cont k v" by (auto simp: wins_def)
    with Cons None show ?thesis by (simp add: map_add_def split: option.splits)
  next
    case (Some w)
    have best: "\<forall>g \<in> set fs. better f g" using Cons.prems by simp
    have "wins (set (f # fs)) cont k v \<longleftrightarrow> w = v"
    proof
      assume "wins (set (f # fs)) cont k v"
      then obtain g where g: "g \<in> set (f # fs)" "map_of (cont (file_id g)) k = Some v" "f = g \<or> better g f"
        using Some by (auto simp: wins_def)
      then have "g = f" using best better_asym by auto
      with g Some show "w = v" by simp
    next
      assume "w = v"
      then show "wins (set (f # fs)) cont k v" using best Some by (auto simp: wins_def intro!: bexI [of _ f])
    qed
    with Some show ?thesis by (simp add: map_add_def)
  qed
qed (simp add: wins_def)

lemma sorted_ids_better:
  "distinct (map file_id fs) \<Longrightarrow> sorted (map (\<lambda>f. - file_id f) fs) \<Longrightarrow> \<forall>f \<in> set fs. level_id f = l \<Longrightarrow> sorted_wrt better fs"
proof (induction fs)
  case (Cons f fs)
  have "better f g" if "g \<in> set fs" for g
  proof -
    have "file_id g \<le> file_id f" using Cons.prems(2) that by auto
    moreover have "file_id f \<noteq> file_id g" using Cons.prems(1) that by (metis distinct.simps(2) image_eqI list.set_map list.simps(9))
    ultimately have "file_id g \<le> file_id f" "file_id g \<noteq> file_id f" by simp_all
    with that Cons.prems(3) show ?thesis by (simp add: better_def)
  qed
  with Cons show ?case by simp
qed simp

lemma newest_first_better:
  assumes "distinct (map file_id fs)" "\<forall>f \<in> set fs. level_id f = l"
  shows "sorted_wrt better (newest_first fs)"
proof (rule sorted_ids_better [where l = l])
  show "distinct (map file_id (newest_first fs))"
    using assms(1) mset_eq_imp_distinct_iff [of "map file_id (newest_first fs)" "map file_id fs"] by (simp add: newest_first_def)
qed (use assms(2) in \<open>simp_all add: newest_first_def\<close>)

lemma levels_better:
  assumes "sorted_wrt (<) (map fst m)" "\<forall>item \<in> set m. (\<forall>f \<in> set (snd item). level_id f = fst item) \<and> distinct (map file_id (snd item))"
  shows "sorted_wrt better (concat (map (\<lambda>item. newest_first (snd item)) m))"
  using assms
proof (induction m)
  case (Cons item m)
  have "sorted_wrt better (newest_first (snd item))" using Cons.prems(2) by (intro newest_first_better) auto
  moreover have "better f g" if "f \<in> set (snd item)" "item' \<in> set m" "g \<in> set (snd item')" for f g item'
  proof -
    have "level_id f = fst item" "level_id g = fst item'" "fst item < fst item'" using Cons.prems that by auto
    then show ?thesis by (simp add: better_def)
  qed
  ultimately show ?case using Cons by (auto simp: sorted_wrt_append newest_first_cong)
qed simp

lemma sorted_wrt_better_distinct: "sorted_wrt better fs \<Longrightarrow> distinct fs"
  by (induction fs) (auto simp: better_def)

lemma eng_lookup_wins:
  assumes "eng_ok host iter eng cont"
  shows "eng_lookup eng cont k = Some v \<longleftrightarrow> wins (set (all_files eng)) cont k v"
proof -
  let ?L = "concat (map (\<lambda>item. newest_first (snd item)) (level_files eng))"
  have "\<forall>item \<in> set (level_files eng). (\<forall>f \<in> set (snd item). level_id f = fst item) \<and> distinct (map file_id (snd item))"
  proof
    fix item assume "item \<in> set (level_files eng)"
    moreover have "distinct (map file_id (concat (map snd (level_files eng))))" using assms by (simp add: eng_ok_def all_files_def)
    ultimately show "(\<forall>f \<in> set (snd item). level_id f = fst item) \<and> distinct (map file_id (snd item))"
      using assms by (auto simp: eng_ok_def level_ok_def map_concat distinct_concat_iff)
  qed
  then have "sorted_wrt better ?L" using assms by (intro levels_better) (simp_all add: eng_ok_def)
  moreover have "set ?L = set (all_files eng)" by (simp add: all_files_def newest_first_cong)
  ultimately show ?thesis using map_of_wins [of ?L cont k v] by (simp add: eng_lookup_def)
qed


section \<open>The invariant by levels\<close>

definition level_list :: "int \<Rightarrow> File list \<Rightarrow> bool" where
  "level_list l fs \<longleftrightarrow> sorted (map lower_bound fs) \<and> (\<forall>f \<in> set fs. level_id f = l) \<and> distinct (map file_id fs) \<and>
    (1 \<le> l \<longrightarrow> sorted_wrt (\<lambda>f g. upper_bound f < lower_bound g) fs)"

definition keys_sorted :: "level_map \<Rightarrow> bool" where
  "keys_sorted m \<longleftrightarrow> sorted_wrt (<) (map fst m) \<and> (\<forall>item \<in> set m. 0 \<le> fst item)"

definition levels_ok :: "level_map \<Rightarrow> bool" where
  "levels_ok m \<longleftrightarrow> keys_sorted m \<and> (\<forall>l. level_list l (lm_at m l))"

lemma lm_at_item:
  assumes "keys_sorted m" "item \<in> set m"
  shows "lm_at m (fst item) = snd item"
proof -
  have "distinct (map fst m)" using assms(1) by (auto simp: keys_sorted_def strict_sorted_iff)
  with assms(2) have "map_of m (fst item) = Some (snd item)" by simp
  then show ?thesis by (simp add: lm_at_def)
qed

lemma in_all_files:
  assumes "keys_sorted m"
  shows "f \<in> set (concat (map snd m)) \<longleftrightarrow> (\<exists>l. f \<in> set (lm_at m l))"
proof
  assume "f \<in> set (concat (map snd m))"
  then obtain item where "item \<in> set m" "f \<in> set (snd item)" by auto
  then show "\<exists>l. f \<in> set (lm_at m l)" using lm_at_item [OF assms] by metis
next
  assume "\<exists>l. f \<in> set (lm_at m l)"
  then obtain l where "f \<in> set (lm_at m l)" by blast
  then obtain fs where "map_of m l = Some fs" "f \<in> set fs" by (cases "map_of m l") (simp_all add: lm_at_def)
  then have "(l, fs) \<in> set m" "f \<in> set fs" by (simp_all add: map_of_SomeD)
  then show "f \<in> set (concat (map snd m))" by force
qed

lemma lm_at_set:
  assumes "keys_sorted m" "0 \<le> l"
  shows "lm_at (lm_set m l fs) j = (if j = l then fs else lm_at m j)" "keys_sorted (lm_set m l fs)"
proof -
  have s: "sorted_wrt (<) (map fst m)" using assms(1) by (simp add: keys_sorted_def)
  show "lm_at (lm_set m l fs) j = (if j = l then fs else lm_at m j)"
    by (simp add: lm_at_def lm_set_def map_of_put_key [OF s])
  show "keys_sorted (lm_set m l fs)"
    using assms sorted_put_key [OF s, of "(l, fs)"] set_put_key [OF s, of "(l, fs)"] by (auto simp: keys_sorted_def lm_set_def)
qed

lemma level_list_Nil: "level_list l []"
  by (simp add: level_list_def)

lemma eng_ok_levels:
  "eng_ok host iter eng cont \<longleftrightarrow> levels_ok (level_files eng) \<and> (\<forall>f \<in> set (all_files eng). file_ok host iter eng cont f) \<and> -1 \<le> last_file_id eng"
    (is "?ok \<longleftrightarrow> ?levels")
proof
  assume ok: ?ok
  have ks: "keys_sorted (level_files eng)" using ok by (auto simp: eng_ok_def keys_sorted_def level_ok_def)
  have "level_list l (lm_at (level_files eng) l)" for l
  proof (cases "map_of (level_files eng) l")
    case (Some fs)
    then have "(l, fs) \<in> set (level_files eng)" by (rule map_of_SomeD)
    moreover have "distinct (map file_id (concat (map snd (level_files eng))))" using ok by (simp add: eng_ok_def all_files_def)
    ultimately have "distinct (map file_id fs)" by (force simp: map_concat distinct_concat_iff)
    moreover have "level_ok (l, fs)" using ok \<open>(l, fs) \<in> set (level_files eng)\<close> by (simp add: eng_ok_def)
    ultimately show ?thesis using Some by (simp add: level_ok_def level_list_def lm_at_def)
  qed (simp add: lm_at_def level_list_Nil)
  with ok ks show ?levels by (simp add: levels_ok_def eng_ok_def)
next
  assume lev: ?levels
  then have ks: "keys_sorted (level_files eng)" and ll: "\<And>l. level_list l (lm_at (level_files eng) l)" by (simp_all add: levels_ok_def)
  have item: "level_list (fst item) (snd item)" if "item \<in> set (level_files eng)" for item using ll [of "fst item"] lm_at_item [OF ks that] by simp
  have "level_ok item" if "item \<in> set (level_files eng)" for item
    using item [OF that] ks that by (auto simp: level_ok_def level_list_def keys_sorted_def)
  moreover have "distinct (all_files eng)"
  proof -
    have "sorted_wrt better (concat (map (\<lambda>item. newest_first (snd item)) (level_files eng)))"
      using ks item by (intro levels_better) (auto simp: keys_sorted_def level_list_def)
    then have "distinct (concat (map (\<lambda>item. newest_first (snd item)) (level_files eng)))"
      by (rule sorted_wrt_better_distinct)
    moreover have "mset (concat (map (\<lambda>item. newest_first (snd item)) (level_files eng))) = mset (all_files eng)"
      by (simp add: all_files_def mset_concat newest_first_def o_def)
    ultimately show ?thesis using mset_eq_imp_distinct_iff by blast
  qed
  moreover have "inj_on file_id (set (all_files eng))"
    using lev by (intro inj_onI) (metis file_ok_def option.inject)
  ultimately show ?ok using lev ks by (simp add: eng_ok_def keys_sorted_def distinct_map)
qed

end
