(* ===== verification/Compaction_Maps.thy ===== *)
theory Compaction_Maps
  imports Engine_Levels
begin

text \<open>
  What \<^verbatim>\<open>UpdateMapAfterCompaction\<close> does to the levels, to the map of file ids and to the data folder.
\<close>

section \<open>Removing files\<close>

lemma erase_first_filter:
  "distinct (map h xs) \<Longrightarrow> erase_first (\<lambda>x. h x = i) xs = filter (\<lambda>x. h x \<noteq> i) xs"
proof (induction xs)
  case (Cons x xs)
  show ?case
  proof (cases "h x = i")
    case True
    then have "\<forall>y \<in> set xs. h y \<noteq> i" using Cons.prems by (auto simp: image_iff)
    with True show ?thesis by simp
  qed (use Cons in simp)
qed simp

lemma level_list_filter: "level_list l fs \<Longrightarrow> level_list l (filter P fs)"
  by (auto simp: level_list_def sorted_wrt_filter sorted_wrt_map distinct_map_filter)

lemma fold_remove:
  assumes "levels_ok (level_files eng)" "\<forall>f \<in> set F. 0 \<le> level_id f"
  defines "eng' \<equiv> fold remove_from_maps F eng"
  shows "levels_ok (level_files eng')"
    "lm_at (level_files eng') j = filter (\<lambda>g. \<forall>f \<in> set F. level_id f = j \<longrightarrow> file_id g \<noteq> file_id f) (lm_at (level_files eng) j)"
    "files_map eng' = (\<lambda>i. if i \<in> file_id ` set F then None else files_map eng i)"
    "data_folder eng' = data_folder eng" "last_file_id eng' = last_file_id eng" "level0_files_number_limit eng' = level0_files_number_limit eng"
proof -
  have "levels_ok (level_files eng') \<and>
      (\<forall>j. lm_at (level_files eng') j = filter (\<lambda>g. \<forall>f \<in> set F. level_id f = j \<longrightarrow> file_id g \<noteq> file_id f) (lm_at (level_files eng) j)) \<and>
      files_map eng' = (\<lambda>i. if i \<in> file_id ` set F then None else files_map eng i) \<and>
      data_folder eng' = data_folder eng \<and> last_file_id eng' = last_file_id eng \<and> level0_files_number_limit eng' = level0_files_number_limit eng"
    using assms(1,2) unfolding eng'_def
  proof (induction F arbitrary: eng)
    case (Cons f F)
    let ?m = "level_files eng" and ?eng = "remove_from_maps f eng"
    have ks: "keys_sorted ?m" and ll: "level_list l (lm_at ?m l)" for l using Cons.prems(1) by (simp_all add: levels_ok_def)
    have er: "erase_first (\<lambda>g. file_id g = file_id f) (lm_at ?m (level_id f)) = filter (\<lambda>g. file_id g \<noteq> file_id f) (lm_at ?m (level_id f))"
      using ll [of "level_id f"] by (simp add: erase_first_filter level_list_def)
    note set = lm_at_set [OF ks, of "level_id f"]
    have at: "lm_at (level_files ?eng) j = filter (\<lambda>g. level_id f = j \<longrightarrow> file_id g \<noteq> file_id f) (lm_at ?m j)" for j
      using Cons.prems(2) set(1) er by (simp add: remove_from_maps_def)
    have "levels_ok (level_files ?eng)"
      using Cons.prems(2) set(2) ll at level_list_filter by (simp add: levels_ok_def) (simp add: remove_from_maps_def)
    from Cons.IH [OF this] Cons.prems(2) show ?case
      by (simp add: at) (auto simp: remove_from_maps_def intro!: filter_cong)
  qed simp
  then show "levels_ok (level_files eng')"
    "lm_at (level_files eng') j = filter (\<lambda>g. \<forall>f \<in> set F. level_id f = j \<longrightarrow> file_id g \<noteq> file_id f) (lm_at (level_files eng) j)"
    "files_map eng' = (\<lambda>i. if i \<in> file_id ` set F then None else files_map eng i)"
    "data_folder eng' = data_folder eng" "last_file_id eng' = last_file_id eng" "level0_files_number_limit eng' = level0_files_number_limit eng"
    by blast+
qed


section \<open>Adding files\<close>

definition apart :: "File \<Rightarrow> File \<Rightarrow> bool" where
  "apart f g \<longleftrightarrow> upper_bound f < lower_bound g \<or> upper_bound g < lower_bound f"

definition bounded :: "File \<Rightarrow> bool" where
  "bounded f \<longleftrightarrow> lower_bound f \<le> upper_bound f"

lemma insert_file_apart:
  assumes "sorted_wrt (\<lambda>f g. upper_bound f < lower_bound g) fs" "\<forall>g \<in> set fs. apart f g \<and> bounded g" "bounded f"
  shows "sorted_wrt (\<lambda>f g. upper_bound f < lower_bound g) (insert_file f fs)"
  using assms
proof (induction fs)
  case (Cons g fs)
  show ?case
  proof (cases "lower_bound g < lower_bound f")
    case True
    then have "upper_bound g < lower_bound f" using Cons.prems(2,3) by (auto simp: apart_def bounded_def)
    with True Cons show ?thesis by (auto simp: insert_file_def dest: set_takeWhileD set_dropWhileD)
  next
    case False
    then have f: "upper_bound f < lower_bound g" using Cons.prems(2,3) by (auto simp: apart_def bounded_def)
    have "upper_bound f < lower_bound h" if "h \<in> set fs" for h
    proof -
      have "upper_bound g < lower_bound h" using Cons.prems(1) that by simp
      with f Cons.prems(2) show ?thesis by (auto simp: bounded_def)
    qed
    with False f Cons.prems(1) show ?thesis by (auto simp: insert_file_def)
  qed
qed (simp add: insert_file_def)

lemma level_list_insert:
  assumes "level_list l fs" "level_id f = l" "file_id f \<notin> file_id ` set fs" "1 \<le> l \<longrightarrow> (\<forall>g \<in> set fs. apart f g \<and> bounded g) \<and> bounded f"
  shows "level_list l (insert_file f fs)"
proof -
  have "mset (map file_id (insert_file f fs)) = mset (file_id f # map file_id fs)" by (simp add: mset_insert_file)
  then have "distinct (map file_id (insert_file f fs))"
    using assms(1,3) mset_eq_imp_distinct_iff [of "map file_id (insert_file f fs)" "file_id f # map file_id fs"] by (simp add: level_list_def)
  with assms insert_file_apart sorted_insert_file show ?thesis by (auto simp: level_list_def set_insert_file)
qed

lemma fold_add:
  assumes "levels_ok (level_files eng)" "1 \<le> l" "\<forall>f \<in> set N. level_id f = l \<and> bounded f" "distinct (map file_id N)"
    and "\<forall>f \<in> set N. file_id f \<notin> file_id ` set (lm_at (level_files eng) l) \<and> (\<forall>g \<in> set (lm_at (level_files eng) l). apart f g \<and> bounded g)"
    and "sorted_wrt apart N"
  defines "eng' \<equiv> fold add_to_maps N eng"
  shows "levels_ok (level_files eng')"
    "set (lm_at (level_files eng') j) = set (lm_at (level_files eng) j) \<union> (if j = l then set N else {})"
    "\<And>i. i \<notin> file_id ` set N \<Longrightarrow> files_map eng' i = files_map eng i" "\<And>f. f \<in> set N \<Longrightarrow> files_map eng' (file_id f) = Some f"
    "data_folder eng' = data_folder eng" "last_file_id eng' = last_file_id eng" "level0_files_number_limit eng' = level0_files_number_limit eng"
proof -
  have "levels_ok (level_files eng') \<and>
      (\<forall>j. set (lm_at (level_files eng') j) = set (lm_at (level_files eng) j) \<union> (if j = l then set N else {})) \<and>
      (\<forall>i. i \<notin> file_id ` set N \<longrightarrow> files_map eng' i = files_map eng i) \<and> (\<forall>f \<in> set N. files_map eng' (file_id f) = Some f) \<and>
      data_folder eng' = data_folder eng \<and> last_file_id eng' = last_file_id eng \<and> level0_files_number_limit eng' = level0_files_number_limit eng"
    using assms(1,3-6) unfolding eng'_def
  proof (induction N arbitrary: eng)
    case (Cons f N)
    let ?m = "level_files eng" and ?eng = "add_to_maps f eng"
    have ks: "keys_sorted ?m" and ll: "level_list j (lm_at ?m j)" for j using Cons.prems(1) by (simp_all add: levels_ok_def)
    have f: "level_id f = l" "bounded f" using Cons.prems(2) by simp_all
    note set = lm_at_set [OF ks, of l]
    have at: "lm_at (level_files ?eng) j = (if j = l then insert_file f (lm_at ?m l) else lm_at ?m j)" for j
      using set(1) assms(2) by (simp add: add_to_maps_def f(1))
    have "level_list l (insert_file f (lm_at ?m l))" using Cons.prems(4) f by (intro level_list_insert [OF ll]) simp_all
    then have "levels_ok (level_files ?eng)"
      using set(2) assms(2) ll at by (simp add: levels_ok_def) (simp add: add_to_maps_def f(1))
    moreover have "apart g f \<and> bounded f \<and> file_id g \<noteq> file_id f" if "g \<in> set N" for g
      using Cons.prems(3,5) f(2) that by (auto simp: apart_def image_iff)
    then have "\<forall>g \<in> set N. file_id g \<notin> file_id ` set (lm_at (level_files ?eng) l) \<and> (\<forall>h \<in> set (lm_at (level_files ?eng) l). apart g h \<and> bounded h)"
      using Cons.prems(3,4) by (auto simp: at set_insert_file)
    ultimately have IH: "levels_ok (level_files (fold add_to_maps N ?eng)) \<and>
      (\<forall>j. set (lm_at (level_files (fold add_to_maps N ?eng)) j) = set (lm_at (level_files ?eng) j) \<union> (if j = l then set N else {})) \<and>
      (\<forall>i. i \<notin> file_id ` set N \<longrightarrow> files_map (fold add_to_maps N ?eng) i = files_map ?eng i) \<and>
      (\<forall>f \<in> set N. files_map (fold add_to_maps N ?eng) (file_id f) = Some f) \<and>
      data_folder (fold add_to_maps N ?eng) = data_folder ?eng \<and> last_file_id (fold add_to_maps N ?eng) = last_file_id ?eng \<and>
      level0_files_number_limit (fold add_to_maps N ?eng) = level0_files_number_limit ?eng"
      using Cons.IH [of ?eng] Cons.prems(2,3,5) by simp
    have "files_map ?eng = (files_map eng)(file_id f \<mapsto> f)" "data_folder ?eng = data_folder eng" "last_file_id ?eng = last_file_id eng"
      "level0_files_number_limit ?eng = level0_files_number_limit eng" by (simp_all add: add_to_maps_def)
    with IH Cons.prems(3) show ?case by (auto simp: at set_insert_file)
  qed simp
  then show "levels_ok (level_files eng')"
    "set (lm_at (level_files eng') j) = set (lm_at (level_files eng) j) \<union> (if j = l then set N else {})"
    "\<And>i. i \<notin> file_id ` set N \<Longrightarrow> files_map eng' i = files_map eng i" "\<And>f. f \<in> set N \<Longrightarrow> files_map eng' (file_id f) = Some f"
    "data_folder eng' = data_folder eng" "last_file_id eng' = last_file_id eng" "level0_files_number_limit eng' = level0_files_number_limit eng"
    by blast+
qed

lemma fold_delete:
  "data_folder (fold delete_file F eng) = (\<lambda>path. if path \<in> (\<lambda>f. FilePath (file_name f)) ` set F then None else data_folder eng path)"
  "level_files (fold delete_file F eng) = level_files eng" "files_map (fold delete_file F eng) = files_map eng"
  "last_file_id (fold delete_file F eng) = last_file_id eng" "level0_files_number_limit (fold delete_file F eng) = level0_files_number_limit eng"
  by (induction F arbitrary: eng) (auto simp: delete_file_def File_Delete_def fun_eq_iff)

end
