(* ===== verification/Compaction_Correct.thy ===== *)
theory Compaction_Correct
  imports Compaction_Maps
begin

text \<open>
  One round of compaction keeps the invariant of the engine and what its live keys look up to; a deleted key
  loses its tombstone, and then what a deeper level still holds of it comes back.
\<close>

section \<open>Replacing files of a level by new ones of the next\<close>

definition disk_ok :: "host \<Rightarrow> iteration \<Rightarrow> StorageEngine \<Rightarrow> (int \<Rightarrow> kv list) \<Rightarrow> bool" where
  "disk_ok host iter eng cont \<longleftrightarrow>
    (\<forall>f \<in> set (all_files eng). on_disk host iter (data_folder eng) f (cont (file_id f)) \<and> level_id f < 2 ^ 31)"

definition paths :: "File list \<Rightarrow> bytes set" where
  "paths fs = (\<lambda>f. FilePath (file_name f)) ` set fs"

text \<open>All files are named after their level and id; those that are not in \<open>F\<close> are on disk.\<close>

definition disk_except :: "host \<Rightarrow> iteration \<Rightarrow> File list \<Rightarrow> StorageEngine \<Rightarrow> (int \<Rightarrow> kv list) \<Rightarrow> bool" where
  "disk_except host iter F eng cont \<longleftrightarrow>
    (\<forall>f \<in> set (all_files eng). FileName (level_id f) (file_id f) = Some (file_name f) \<and> level_id f < 2 ^ 31 \<and>
      (f \<notin> set F \<longrightarrow> on_disk host iter (data_folder eng) f (cont (file_id f))))"

lemma disk_ok_except: "disk_ok host iter eng cont \<Longrightarrow> disk_except host iter F eng cont"
  by (auto simp: disk_ok_def disk_except_def on_disk_def)

lemma disk_except_Nil: "disk_except host iter [] eng cont \<longleftrightarrow> disk_ok host iter eng cont"
  by (auto simp: disk_ok_def disk_except_def on_disk_def)

text \<open>
  \<open>F\<close> is taken from the levels \<open>l\<close> and \<open>l + 1\<close>; of the other files, those of level \<open>l + 1\<close> do not reach into its range, and
  those of level \<open>l\<close> that do are newer.
\<close>

definition selection :: "int \<Rightarrow> StorageEngine \<Rightarrow> File list \<Rightarrow> bool" where
  "selection l eng F \<longleftrightarrow> set F \<subseteq> set (all_files eng) \<and> distinct (map file_id F) \<and> (\<forall>f \<in> set F. level_id f = l \<or> level_id f = l + 1) \<and>
    (\<forall>f \<in> set F. \<forall>g \<in> set (all_files eng) - set F. level_id f = l \<longrightarrow> level_id g = l \<longrightarrow> apart f g \<or> better g f) \<and>
    (\<exists>lo hi. (\<forall>f \<in> set F. lo \<le> lower_bound f \<and> upper_bound f \<le> hi) \<and>
      (\<forall>g \<in> set (all_files eng) - set F. level_id g = l + 1 \<longrightarrow> upper_bound g < lo \<or> hi < lower_bound g))"

text \<open>\<open>N\<close> are new files that hold the entries of \<open>F\<close>, deleted ones possibly left out; the maps are still the old ones.\<close>

definition rewritten :: "host \<Rightarrow> iteration \<Rightarrow> int \<Rightarrow> StorageEngine \<Rightarrow> (int \<Rightarrow> kv list) \<Rightarrow> File list \<Rightarrow> StorageEngine \<Rightarrow> File list \<Rightarrow>
    kv list list \<Rightarrow> (kv \<Rightarrow> bool) \<Rightarrow> kv list \<Rightarrow> bool" where
  "rewritten host iter l eng cont F eng1 N chunks P out \<longleftrightarrow>
    level_files eng1 = level_files eng \<and> files_map eng1 = files_map eng \<and>
    level0_files_number_limit eng1 = level0_files_number_limit eng \<and> last_file_id eng \<le> last_file_id eng1 \<and>
    list_all2 (holds_image host iter) N chunks \<and> list_all2 (on_disk host iter (data_folder eng1)) N chunks \<and>
    (\<forall>f \<in> set N. level_id f = l + 1 \<and> 0 \<le> file_id f \<and> file_id f \<notin> file_id ` set (all_files eng) \<and> file_id f \<le> last_file_id eng1) \<and> distinct (map file_id N) \<and>
    (\<forall>path. path \<notin> paths N \<union> paths F \<longrightarrow> data_folder eng1 path = data_folder eng path) \<and>
    concat chunks = filter P out \<and> (\<forall>e. snd e \<noteq> TombValue \<longrightarrow> P e) \<and> sorted_wrt (<) (map fst out) \<and>
    (\<forall>e. e \<in> set out \<longleftrightarrow> winner F (map (\<lambda>f. cont (file_id f)) F) e)"

definition new_cont :: "(int \<Rightarrow> kv list) \<Rightarrow> File list \<Rightarrow> kv list list \<Rightarrow> int \<Rightarrow> kv list" where
  "new_cont cont N chunks i = (case map_of (zip (map file_id N) chunks) i of Some es \<Rightarrow> es | None \<Rightarrow> cont i)"

lemma new_cont_new:
  assumes "length chunks = length N" "distinct (map file_id N)" "i < length N"
  shows "new_cont cont N chunks (file_id (N ! i)) = chunks ! i"
proof -
  have "map_of (zip (map file_id N) chunks) (map file_id N ! i) = Some (chunks ! i)" using assms by (intro map_of_zip_nth) simp_all
  then show ?thesis using assms(3) by (simp add: new_cont_def)
qed

lemma new_cont_old: "i \<notin> file_id ` set N \<Longrightarrow> length chunks = length N \<Longrightarrow> new_cont cont N chunks i = cont i"
proof -
  assume "i \<notin> file_id ` set N" "length chunks = length N"
  then have "map_of (zip (map file_id N) chunks) i = None" by (subst map_of_zip_is_None) simp_all
  then show ?thesis by (simp add: new_cont_def)
qed

lemma holds_image_bounded: "holds_image host iter f es \<Longrightarrow> bounded f"
  using image_key_range [of host iter f es "fst (hd es)"] by (auto simp: holds_image_def bounded_def content_ok_def)

lemma winner_in:
  assumes "winner F (map (\<lambda>f. cont (file_id f)) F) e"
  shows "\<exists>f \<in> set F. e \<in> set (cont (file_id f)) \<and> (\<forall>g \<in> set F. fst e \<in> fst ` set (cont (file_id g)) \<longrightarrow> g = f \<or> better f g)"
proof -
  obtain i where i: "i < length F" "e \<in> set (cont (file_id (F ! i)))"
    "\<forall>j < length F. fst e \<in> fst ` set (cont (file_id (F ! j))) \<longrightarrow> j = i \<or> better (F ! i) (F ! j)"
    using assms by (auto simp: winner_def)
  have "g = F ! i \<or> better (F ! i) g" if "g \<in> set F" "fst e \<in> fst ` set (cont (file_id g))" for g
    using that i(3) by (metis in_set_conv_nth)
  with i(2) nth_mem [OF i(1)] show ?thesis by blast
qed

text \<open>The new files lie in order within the range of the old ones.\<close>

lemma new_files_apart:
  assumes "list_all2 (holds_image host iter) N chunks" "sorted_wrt (<) (map fst (concat chunks))"
  shows "sorted_wrt apart N"
  using assms
proof (induction N chunks rule: list_all2_induct)
  case (Cons f N es chunks)
  have es: "upper_bound f = fst (last es)" "es \<noteq> []" using Cons.hyps(1) by (simp_all add: holds_image_def content_ok_def)
  have "apart f g" if g: "g \<in> set N" for g
  proof -
    obtain i where i: "i < length N" "g = N ! i" using g unfolding in_set_conv_nth by blast
    then have g: "holds_image host iter g (chunks ! i)" "i < length chunks"
      using list_all2_nthD [OF Cons.hyps(2) i(1)] list_all2_lengthD [OF Cons.hyps(2)] by simp_all
    then have "chunks ! i \<noteq> []" "lower_bound g = fst (hd (chunks ! i))" by (simp_all add: holds_image_def content_ok_def)
    moreover have "hd (chunks ! i) \<in> set (concat chunks)"
      using nth_mem [OF g(2)] hd_in_set [OF \<open>chunks ! i \<noteq> []\<close>] by (simp only: set_concat) blast
    then have "fst (last es) < fst (hd (chunks ! i))"
      using Cons.prems last_in_set [OF es(2)] unfolding concat.simps map_append sorted_wrt_append set_map by blast
    ultimately show ?thesis by (simp add: apart_def es(1))
  qed
  with Cons show ?case by (simp add: sorted_wrt_append)
qed simp

lemma rewrittenD:
  assumes "rewritten host iter l eng cont F eng1 N chunks P out"
  shows "level_files eng1 = level_files eng" "files_map eng1 = files_map eng" "last_file_id eng \<le> last_file_id eng1"
    "list_all2 (holds_image host iter) N chunks" "list_all2 (on_disk host iter (data_folder eng1)) N chunks"
    "f \<in> set N \<Longrightarrow> level_id f = l + 1 \<and> 0 \<le> file_id f \<and> file_id f \<notin> file_id ` set (all_files eng) \<and> file_id f \<le> last_file_id eng1" "distinct (map file_id N)"
    "path \<notin> paths N \<union> paths F \<Longrightarrow> data_folder eng1 path = data_folder eng path"
    "concat chunks = filter P out" "snd e \<noteq> TombValue \<Longrightarrow> P e" "sorted_wrt (<) (map fst out)"
    "e \<in> set out \<longleftrightarrow> winner F (map (\<lambda>f. cont (file_id f)) F) e" "level0_files_number_limit eng1 = level0_files_number_limit eng"
  using assms unfolding rewritten_def by blast+

lemma new_ids: "rewritten host iter l eng cont F eng1 N chunks P out \<Longrightarrow> f \<in> set (all_files eng) \<Longrightarrow> file_id f \<notin> file_id ` set N"
  using rewrittenD(6) by (metis imageE imageI)

lemma new_file_keys:
  assumes "rewritten host iter l eng cont F eng1 N chunks P out" "i < length N" "e \<in> set (chunks ! i)"
  shows "e \<in> set out" "P e"
proof -
  have "i < length chunks" using assms(1,2) by (auto simp: rewritten_def dest: list_all2_lengthD)
  then have "e \<in> set (concat chunks)" using assms(3) by auto
  moreover have "concat chunks = filter P out" using assms(1) by (simp add: rewritten_def)
  ultimately show "e \<in> set out" "P e" by simp_all
qed

text \<open>Names tell files apart.\<close>

lemma path_differs:
  assumes "FileName (level_id f) (file_id f) = Some (file_name f)" "FileName (level_id g) (file_id g) = Some (file_name g)"
    and "file_id f \<noteq> file_id g" "0 \<le> file_id f" "0 \<le> file_id g"
    and "0 \<le> level_id f" "level_id f < 2 ^ 31" "0 \<le> level_id g" "level_id g < 2 ^ 31"
  shows "FilePath (file_name f) \<noteq> FilePath (file_name g)"
  using FileName_inj [of "level_id f" "file_id f" "file_name f" "level_id g" "file_id g"] assms
  by (auto simp: FilePath_inj)

lemma eng_file:
  assumes "eng_ok host iter eng cont" "f \<in> set (all_files eng)"
  shows "file_ok host iter eng cont f" "f \<in> set (lm_at (level_files eng) (level_id f))" "0 \<le> level_id f" "bounded f"
proof -
  show ok: "file_ok host iter eng cont f" using assms by (simp add: eng_ok_def)
  then show "bounded f" using holds_image_bounded by (auto simp: file_ok_def)
  have lev: "levels_ok (level_files eng)" using assms(1) by (simp add: eng_ok_levels)
  then obtain j where j: "f \<in> set (lm_at (level_files eng) j)" using assms(2) in_all_files by (auto simp: levels_ok_def all_files_def)
  moreover from this have "level_id f = j" using lev by (auto simp: levels_ok_def level_list_def)
  ultimately show "f \<in> set (lm_at (level_files eng) (level_id f))" by simp
  obtain item where "item \<in> set (level_files eng)" "f \<in> set (snd item)" using assms(2) by (auto simp: all_files_def)
  with assms(1) show "0 \<le> level_id f" by (auto simp: eng_ok_def level_ok_def)
qed

lemma same_file:
  assumes "eng_ok host iter eng cont" "f \<in> set (all_files eng)" "g \<in> set (all_files eng)" "file_id f = file_id g"
  shows "f = g"
  using eng_file(1) [OF assms(1,2)] eng_file(1) [OF assms(1,3)] assms(4) by (simp add: file_ok_def)

lemma at_level:
  assumes "eng_ok host iter eng cont" "f \<in> set (lm_at (level_files eng) j)"
  shows "f \<in> set (all_files eng)" "level_id f = j"
proof -
  have lev: "levels_ok (level_files eng)" using assms(1) by (simp add: eng_ok_levels)
  then show "f \<in> set (all_files eng)" using assms(2) in_all_files [of "level_files eng"] by (auto simp: levels_ok_def all_files_def)
  show "level_id f = j" using lev assms(2) by (auto simp: levels_ok_def level_list_def)
qed

lemma removed_levels:
  assumes ok: "eng_ok host iter eng cont" and sel: "selection l eng F" and l: "0 \<le> l" and same: "level_files eng1 = level_files eng"
  shows "levels_ok (level_files (fold remove_from_maps F eng1))"
    "set (lm_at (level_files (fold remove_from_maps F eng1)) j) = set (lm_at (level_files eng) j) - set F"
proof -
  have lev: "levels_ok (level_files eng1)" using ok by (simp add: eng_ok_levels same)
  have "\<forall>f \<in> set F. 0 \<le> level_id f" using sel l by (auto simp: selection_def)
  note rm = fold_remove [OF lev this]
  show "levels_ok (level_files (fold remove_from_maps F eng1))" by (rule rm(1))
  have "(\<forall>f \<in> set F. level_id f = j \<longrightarrow> file_id g \<noteq> file_id f) \<longleftrightarrow> g \<notin> set F" if g: "g \<in> set (lm_at (level_files eng) j)" for g
  proof
    show "g \<notin> set F" if "\<forall>f \<in> set F. level_id f = j \<longrightarrow> file_id g \<noteq> file_id f" using that at_level(2) [OF ok g] by blast
    assume new: "g \<notin> set F"
    show "\<forall>f \<in> set F. level_id f = j \<longrightarrow> file_id g \<noteq> file_id f"
    proof (intro ballI impI notI)
      fix f assume "f \<in> set F" "file_id g = file_id f"
      then have "g = f" using same_file [OF ok at_level(1) [OF ok g], of f] sel by (auto simp: selection_def)
      with new \<open>f \<in> set F\<close> show False by simp
    qed
  qed
  then show "set (lm_at (level_files (fold remove_from_maps F eng1)) j) = set (lm_at (level_files eng) j) - set F"
    by (auto simp: rm(2) same)
qed

text \<open>The range of the new files.\<close>

lemma new_file_range:
  assumes ok: "eng_ok host iter eng cont" and rw: "rewritten host iter l eng cont F eng1 N chunks P out" and "f \<in> set N" "set F \<subseteq> set (all_files eng)"
    and range: "\<forall>f \<in> set F. lo \<le> lower_bound f \<and> upper_bound f \<le> hi"
  shows "lo \<le> lower_bound f" "upper_bound f \<le> hi"
proof -
  obtain i where i: "i < length N" "f = N ! i" using assms(3) unfolding in_set_conv_nth by blast
  have "holds_image host iter f (chunks ! i)" using rw i by (auto simp: rewritten_def dest: list_all2_nthD)
  then have f: "chunks ! i \<noteq> []" "lower_bound f = fst (hd (chunks ! i))" "upper_bound f = fst (last (chunks ! i))"
    by (simp_all add: holds_image_def content_ok_def)
  have in_range: "lo \<le> fst e \<and> fst e \<le> hi" if "e \<in> set (chunks ! i)" for e
  proof -
    have "winner F (map (\<lambda>f. cont (file_id f)) F) e" using new_file_keys(1) [OF rw i(1) that] rewrittenD(12) [OF rw] by blast
    then obtain g where g: "g \<in> set F" "e \<in> set (cont (file_id g))" using winner_in by blast
    have "holds_image host iter g (cont (file_id g))" using eng_file(1) [OF ok, of g] g(1) assms(4) by (auto simp: file_ok_def)
    then have "lower_bound g \<le> fst e \<and> fst e \<le> upper_bound g" using image_key_range g(2) by blast
    with range g(1) show ?thesis by (meson order_trans)
  qed
  show "lo \<le> lower_bound f" "upper_bound f \<le> hi" using in_range f by auto
qed

lemma replaced_levels:
  assumes ok: "eng_ok host iter eng cont" and sel: "selection l eng F" and l: "0 \<le> l"
    and rw: "rewritten host iter l eng cont F eng1 N chunks P out"
  defines "eng2 \<equiv> fold add_to_maps N (fold remove_from_maps F eng1)"
  shows "levels_ok (level_files eng2)" "set (all_files eng2) = (set (all_files eng) - set F) \<union> set N"
    "\<And>f. f \<in> set (all_files eng) - set F \<Longrightarrow> files_map eng2 (file_id f) = Some f" "\<And>f. f \<in> set N \<Longrightarrow> files_map eng2 (file_id f) = Some f"
    "data_folder eng2 = data_folder eng1" "last_file_id eng2 = last_file_id eng1" "level0_files_number_limit eng2 = level0_files_number_limit eng"
proof -
  note d = rewrittenD [OF rw]
  let ?engA = "fold remove_from_maps F eng1"
  note rmv = removed_levels [OF ok sel l d(1)]
  have lev: "levels_ok (level_files eng1)" using ok by (simp add: eng_ok_levels d(1))
  have "\<forall>f \<in> set F. 0 \<le> level_id f" using sel l by (auto simp: selection_def)
  note rm = fold_remove(3-6) [OF lev this]
  have F: "set F \<subseteq> set (all_files eng)" using sel by (simp add: selection_def)
  obtain lo hi where range: "\<forall>f \<in> set F. lo \<le> lower_bound f \<and> upper_bound f \<le> hi"
    "\<forall>g \<in> set (all_files eng) - set F. level_id g = l + 1 \<longrightarrow> upper_bound g < lo \<or> hi < lower_bound g"
    using sel by (auto simp: selection_def)
  have other: "file_id f \<notin> file_id ` set (lm_at (level_files ?engA) (l + 1)) \<and> (\<forall>g \<in> set (lm_at (level_files ?engA) (l + 1)). apart f g \<and> bounded g)"
    if f: "f \<in> set N" for f
  proof -
    note r = new_file_range [OF ok rw f F range(1)]
    have "file_id f \<noteq> file_id g \<and> apart f g \<and> bounded g" if "g \<in> set (lm_at (level_files ?engA) (l + 1))" for g
    proof -
      have g: "g \<in> set (all_files eng)" "g \<notin> set F" "level_id g = l + 1" using that at_level [OF ok] by (auto simp: rmv(2))
      have "upper_bound g < lo \<or> hi < lower_bound g" using range(2) g by blast
      then have "apart f g" using r by (auto simp: apart_def)
      moreover have "file_id f \<noteq> file_id g" using g(1) d(6) [OF f] by auto
      ultimately show ?thesis using eng_file(4) [OF ok g(1)] by simp
    qed
    then show ?thesis by (auto simp: image_iff)
  qed
  have bounded: "bounded f" if f: "f \<in> set N" for f
    using f d(4) holds_image_bounded by (metis in_set_conv_nth list_all2_nthD)
  have apart: "sorted_wrt apart N" using d(4,9,11) by (intro new_files_apart [of host iter N chunks]) (simp_all add: sorted_wrt_map sorted_wrt_filter)
  note ad = fold_add [of ?engA "l + 1" N, folded eng2_def, OF rmv(1) _ _ d(7) _ apart]
  have pre: "1 \<le> l + 1" "\<forall>f \<in> set N. level_id f = l + 1 \<and> bounded f"
    "\<forall>f \<in> set N. file_id f \<notin> file_id ` set (lm_at (level_files ?engA) (l + 1)) \<and> (\<forall>g \<in> set (lm_at (level_files ?engA) (l + 1)). apart f g \<and> bounded g)"
    using l d(6) bounded other by auto
  note ad = ad [OF pre]
  show lev2: "levels_ok (level_files eng2)" by (rule ad(1))
  show "set (all_files eng2) = (set (all_files eng) - set F) \<union> set N"
  proof -
    have ks: "keys_sorted (level_files eng2)" "keys_sorted (level_files eng)" using lev2 ok by (simp_all add: levels_ok_def eng_ok_levels)
    have "(\<exists>j. f \<in> set (lm_at (level_files eng2) j)) \<longleftrightarrow> (\<exists>j. f \<in> set (lm_at (level_files eng) j)) \<and> f \<notin> set F \<or> f \<in> set N" for f
    proof -
      have "f \<in> set (lm_at (level_files eng2) j) \<longleftrightarrow> f \<in> set (lm_at (level_files eng) j) \<and> f \<notin> set F \<or> j = l + 1 \<and> f \<in> set N" for j
        unfolding ad(2) rmv(2) by simp
      then show ?thesis by blast
    qed
    then show ?thesis unfolding all_files_def in_all_files [OF ks(1), symmetric] in_all_files [OF ks(2), symmetric] by blast
  qed
  show "files_map eng2 (file_id f) = Some f" if f: "f \<in> set (all_files eng) - set F" for f
  proof -
    have "file_id f \<notin> file_id ` set N" using new_ids [OF rw] f by blast
    moreover have "file_id f \<notin> file_id ` set F" using same_file [OF ok, of f] f F by blast
    ultimately show ?thesis using ad(3) rm(1) d(2) eng_file(1) [OF ok, of f] f by (simp add: file_ok_def)
  qed
  show "\<And>f. f \<in> set N \<Longrightarrow> files_map eng2 (file_id f) = Some f" by (rule ad(4))
  show "data_folder eng2 = data_folder eng1" "last_file_id eng2 = last_file_id eng1" "level0_files_number_limit eng2 = level0_files_number_limit eng"
    using ad(5-7) rm(2-4) d(13) by simp_all
qed

lemma UpdateMap_parts:
  "level_files (UpdateMapAfterCompaction N F b eng1) = level_files (fold add_to_maps N (fold remove_from_maps F eng1))"
  "files_map (UpdateMapAfterCompaction N F b eng1) = files_map (fold add_to_maps N (fold remove_from_maps F eng1))"
  "last_file_id (UpdateMapAfterCompaction N F b eng1) = last_file_id (fold add_to_maps N (fold remove_from_maps F eng1))"
  "level0_files_number_limit (UpdateMapAfterCompaction N F b eng1) = level0_files_number_limit (fold add_to_maps N (fold remove_from_maps F eng1))"
  "path \<notin> paths F \<Longrightarrow> data_folder (UpdateMapAfterCompaction N F b eng1) path = data_folder (fold add_to_maps N (fold remove_from_maps F eng1)) path"
  by (auto simp: UpdateMapAfterCompaction_def Let_def fold_delete paths_def)

lemma new_file_cont:
  assumes rw: "rewritten host iter l eng cont F eng1 N chunks P out" and f: "f \<in> set N"
  shows "holds_image host iter f (new_cont cont N chunks (file_id f))" "on_disk host iter (data_folder eng1) f (new_cont cont N chunks (file_id f))"
    "set (new_cont cont N chunks (file_id f)) \<subseteq> {e \<in> set out. P e}"
proof -
  obtain i where i: "i < length N" "f = N ! i" using f unfolding in_set_conv_nth by blast
  note d = rewrittenD [OF rw]
  have c: "new_cont cont N chunks (file_id f) = chunks ! i" using new_cont_new [OF _ d(7) i(1)] list_all2_lengthD [OF d(4)] i(2) by simp
  show "holds_image host iter f (new_cont cont N chunks (file_id f))" "on_disk host iter (data_folder eng1) f (new_cont cont N chunks (file_id f))"
    unfolding c using list_all2_nthD [OF d(4) i(1)] list_all2_nthD [OF d(5) i(1)] i(2) by simp_all
  show "set (new_cont cont N chunks (file_id f)) \<subseteq> {e \<in> set out. P e}" unfolding c using new_file_keys [OF rw i(1)] by blast
qed

text \<open>The new files and the ones that stay have paths of their own.\<close>

lemma new_path_other:
  assumes ok: "eng_ok host iter eng cont" and disk: "disk_except host iter F eng cont" and l: "0 \<le> l" "l + 1 < 2 ^ 31"
    and rw: "rewritten host iter l eng cont F eng1 N chunks P out" and f: "f \<in> set N" and g: "g \<in> set (all_files eng)"
  shows "FilePath (file_name f) \<noteq> FilePath (file_name g)"
proof -
  have "FileName (level_id f) (file_id f) = Some (file_name f)" using new_file_cont(2) [OF rw f] by (simp add: on_disk_def)
  moreover have "FileName (level_id g) (file_id g) = Some (file_name g)" "level_id g < 2 ^ 31" using disk g by (simp_all add: disk_except_def)
  moreover have "0 \<le> file_id g" using eng_file(1) [OF ok g] by (simp add: file_ok_def)
  ultimately show ?thesis using path_differs [of f g] g rewrittenD(6) [OF rw f] eng_file(3) [OF ok g] l by auto
qed

lemma new_path:
  assumes ok: "eng_ok host iter eng cont" and disk: "disk_except host iter F eng cont" and sel: "selection l eng F" and l: "0 \<le> l" "l + 1 < 2 ^ 31"
    and rw: "rewritten host iter l eng cont F eng1 N chunks P out" and f: "f \<in> set N"
  shows "FilePath (file_name f) \<notin> paths F"
  using new_path_other [OF ok disk l rw f] sel by (auto simp: paths_def selection_def)

lemma kept_path:
  assumes ok: "eng_ok host iter eng cont" and disk: "disk_except host iter F eng cont" and sel: "selection l eng F" and l: "0 \<le> l" "l + 1 < 2 ^ 31"
    and rw: "rewritten host iter l eng cont F eng1 N chunks P out" and f: "f \<in> set (all_files eng) - set F"
  shows "FilePath (file_name f) \<notin> paths N" "FilePath (file_name f) \<notin> paths F"
proof -
  show "FilePath (file_name f) \<notin> paths N" using new_path_other [OF ok disk l rw _ DiffD1 [OF f]] by (force simp: paths_def)
  have name: "FileName (level_id g) (file_id g) = Some (file_name g)" "level_id g < 2 ^ 31" "0 \<le> file_id g" if "g \<in> set (all_files eng)" for g
    using disk eng_file(1) [OF ok that] that by (simp_all add: disk_except_def file_ok_def)
  have "FilePath (file_name f) \<noteq> FilePath (file_name h)" if h: "h \<in> set F" for h
  proof -
    have in_eng: "f \<in> set (all_files eng)" "h \<in> set (all_files eng)" using f h sel by (auto simp: selection_def)
    then have "file_id f \<noteq> file_id h" using same_file [OF ok in_eng] f h by blast
    then show ?thesis using path_differs [of f h] name [OF in_eng(1)] name [OF in_eng(2)] eng_file(3) [OF ok in_eng(1)] eng_file(3) [OF ok in_eng(2)] by blast
  qed
  then show "FilePath (file_name f) \<notin> paths F" by (auto simp: paths_def)
qed

lemma rewritten_disk:
  assumes ok: "eng_ok host iter eng cont" and disk: "disk_except host iter F eng cont" and sel: "selection l eng F" and l: "0 \<le> l" "l + 1 < 2 ^ 31"
    and rw: "rewritten host iter l eng cont F eng1 N chunks P out"
  shows "disk_except host iter F eng1 cont"
proof -
  note d = rewrittenD [OF rw]
  have "all_files eng1 = all_files eng" by (simp add: all_files_def d(1))
  then show ?thesis using disk d(8) kept_path [OF ok disk sel l rw] by (simp add: disk_except_def on_disk_def)
qed

lemma replaced_ok:
  fixes b :: bool
  assumes ok: "eng_ok host iter eng cont" and disk: "disk_except host iter F eng cont" and sel: "selection l eng F" and l: "0 \<le> l" "l + 1 < 2 ^ 31"
    and rw: "rewritten host iter l eng cont F eng1 N chunks P out"
  defines "eng' \<equiv> UpdateMapAfterCompaction N F b eng1" and "cont' \<equiv> new_cont cont N chunks"
  shows "eng_ok host iter eng' cont'" "disk_ok host iter eng' cont'" "set (all_files eng') = (set (all_files eng) - set F) \<union> set N"
    "\<And>f. f \<in> set (all_files eng) \<Longrightarrow> cont' (file_id f) = cont (file_id f)"
proof -
  note d = rewrittenD [OF rw] and rep = replaced_levels [OF ok sel l(1) rw] and up = UpdateMap_parts [where N = N and F = F and b = b and ?eng1.0 = eng1, folded eng'_def]
  note new = new_file_cont [OF rw, folded cont'_def]
  show all: "set (all_files eng') = (set (all_files eng) - set F) \<union> set N" using rep(2) by (simp add: all_files_def up(1))
  have id: "0 \<le> file_id f" "file_id f \<le> last_file_id eng" if "f \<in> set (all_files eng)" for f
    using eng_file(1) [OF ok that] by (simp_all add: file_ok_def)
  have last: "-1 \<le> last_file_id eng" using ok by (simp add: eng_ok_def)
  show old: "cont' (file_id f) = cont (file_id f)" if "f \<in> set (all_files eng)" for f
  proof -
    show ?thesis unfolding cont'_def using new_ids [OF rw that] by (rule new_cont_old) (simp add: list_all2_lengthD [OF d(4)])
  qed
  have "file_ok host iter eng' cont' f" if f: "f \<in> set (all_files eng')" for f
  proof (cases "f \<in> set N")
    case True
    then show ?thesis using rep(4,6) d(6) new(1) last by (fastforce simp: file_ok_def up)
  next
    case False
    with f all have g: "f \<in> set (all_files eng) - set F" by auto
    then show ?thesis using rep(3) [OF g] rep(6) d(3) eng_file(1) [OF ok, of f] old [of f] by (simp add: file_ok_def up)
  qed
  then show "eng_ok host iter eng' cont'" using rep(1,6) d(3) last by (simp add: eng_ok_levels up)
  have same: "all_files eng1 = all_files eng" by (simp add: all_files_def d(1))
  have disk1: "on_disk host iter (data_folder eng1) f (cont (file_id f))" "level_id f < 2 ^ 31" "FilePath (file_name f) \<notin> paths F"
    if "f \<in> set (all_files eng) - set F" for f
    using rewritten_disk [OF ok disk sel l rw] kept_path(2) [OF ok disk sel l rw that] disk that by (simp_all add: disk_except_def same)
  have "on_disk host iter (data_folder eng') f (cont' (file_id f)) \<and> level_id f < 2 ^ 31" if f: "f \<in> set (all_files eng')" for f
  proof (cases "f \<in> set N")
    case True
    then show ?thesis using new(2) [OF True] d(6) [OF True] l(2) up(5) rep(5) new_path [OF ok disk sel l rw True] by (simp add: on_disk_def)
  next
    case False
    with f all have g: "f \<in> set (all_files eng) - set F" by auto
    then show ?thesis using disk1 [OF g] up(5) rep(5) old [of f] by (simp add: on_disk_def)
  qed
  then show "disk_ok host iter eng' cont'" by (simp add: disk_ok_def)
qed


section \<open>Lookups\<close>

lemma wins_unique:
  assumes "wins S cont k v" "wins S cont k w"
  shows "v = w"
proof -
  obtain f where f: "f \<in> S" "map_of (cont (file_id f)) k = Some v" "\<forall>g \<in> S. map_of (cont (file_id g)) k \<noteq> None \<longrightarrow> g = f \<or> better f g"
    using assms(1) unfolding wins_def by blast
  obtain g where g: "g \<in> S" "map_of (cont (file_id g)) k = Some w" "\<forall>f \<in> S. map_of (cont (file_id f)) k \<noteq> None \<longrightarrow> f = g \<or> better g f"
    using assms(2) unfolding wins_def by blast
  have "g = f" using f g better_asym [of f g] by auto
  with f(2) g(2) show ?thesis by simp
qed

lemma map_of_content: "content_ok es \<Longrightarrow> map_of es k = Some v \<longleftrightarrow> (k, v) \<in> set es"
  by (auto simp: content_ok_def strict_sorted_iff)

lemma file_range:
  assumes "eng_ok host iter eng cont" "f \<in> set (all_files eng)" "map_of (cont (file_id f)) k \<noteq> None"
  shows "lower_bound f \<le> k" "k \<le> upper_bound f"
proof -
  have "holds_image host iter f (cont (file_id f))" using eng_file(1) [OF assms(1,2)] by (simp add: file_ok_def)
  moreover have "k \<in> fst ` set (cont (file_id f))" using assms(3) by (metis map_of_eq_None_iff)
  ultimately show "lower_bound f \<le> k" "k \<le> upper_bound f" using image_key_range by blast+
qed

lemma not_in_next:
  assumes ok: "eng_ok host iter eng cont" and sel: "selection l eng F"
    and f: "f \<in> set F" "map_of (cont (file_id f)) k \<noteq> None"
    and g: "g \<in> set (all_files eng) - set F" "map_of (cont (file_id g)) k \<noteq> None"
  shows "level_id g \<noteq> l + 1"
proof
  assume "level_id g = l + 1"
  moreover obtain lo hi where "\<forall>f \<in> set F. lo \<le> lower_bound f \<and> upper_bound f \<le> hi"
    "\<forall>g \<in> set (all_files eng) - set F. level_id g = l + 1 \<longrightarrow> upper_bound g < lo \<or> hi < lower_bound g"
    using sel by (auto simp: selection_def)
  ultimately have "lo \<le> lower_bound f" "upper_bound f \<le> hi" "upper_bound g < lo \<or> hi < lower_bound g" using f(1) g(1) by blast+
  moreover have "f \<in> set (all_files eng)" using sel f(1) by (auto simp: selection_def)
  ultimately show False using file_range [OF ok _ f(2)] file_range [OF ok _ g(2)] g(1) by auto
qed

text \<open>Of the files that stay, those of the two levels do not have a key that the best of \<open>F\<close> wins.\<close>

lemma others_deeper:
  assumes ok: "eng_ok host iter eng cont" and sel: "selection l eng F"
    and f: "f \<in> set F" "map_of (cont (file_id f)) k \<noteq> None"
    and g: "g \<in> set (all_files eng) - set F" "map_of (cont (file_id g)) k \<noteq> None" and b: "better f g"
  shows "l + 1 < level_id g"
proof -
  have F: "f \<in> set (all_files eng)" "level_id f = l \<or> level_id f = l + 1" using sel f(1) by (auto simp: selection_def)
  note rf = file_range [OF ok F(1) f(2)] and rg = file_range [OF ok _ g(2)]
  have "level_id g \<noteq> l + 1" by (rule not_in_next [OF ok sel f g])
  moreover have "level_id g \<noteq> l"
  proof
    assume "level_id g = l"
    with b F(2) have "level_id f = l" by (auto simp: better_def)
    with \<open>level_id g = l\<close> f(1) g(1) sel have "apart f g \<or> better g f" unfolding selection_def by blast
    then show False using rf rg g(1) better_asym [OF b] by (auto simp: apart_def)
  qed
  moreover have "l \<le> level_id g" using b F(2) by (auto simp: better_def)
  ultimately show ?thesis by simp
qed

text \<open>A file that stays and wins over the best of \<open>F\<close> is above the next level.\<close>

lemma others_above:
  assumes ok: "eng_ok host iter eng cont" and sel: "selection l eng F"
    and f: "f \<in> set F" "map_of (cont (file_id f)) k \<noteq> None"
    and g: "g \<in> set (all_files eng) - set F" "map_of (cont (file_id g)) k \<noteq> None" and b: "better g f"
  shows "level_id g < l + 1"
proof -
  have F: "f \<in> set (all_files eng)" "level_id f = l \<or> level_id f = l + 1" using sel f(1) by (auto simp: selection_def)
  have "level_id g \<noteq> l + 1" by (rule not_in_next [OF ok sel f g])
  with b F(2) show ?thesis by (auto simp: better_def)
qed

lemma winnerI:
  assumes "f \<in> set F" "e \<in> set (cont (file_id f))" "distinct (map file_id F)"
    and "\<forall>g \<in> set F. fst e \<in> fst ` set (cont (file_id g)) \<longrightarrow> g = f \<or> better f g"
  shows "winner F (map (\<lambda>f. cont (file_id f)) F) e"
proof -
  obtain i where i: "i < length F" "f = F ! i" using assms(1) unfolding in_set_conv_nth by blast
  have "distinct F" using assms(3) by (simp add: distinct_map)
  then have "j = i \<or> better (F ! i) (F ! j)" if "j < length F" "fst e \<in> fst ` set (cont (file_id (F ! j)))" for j
    using that assms(4) i by (auto simp: nth_eq_iff_index_eq)
  then show ?thesis unfolding winner_def using i assms(2) by (intro exI [of _ i]) simp
qed

definition has_key :: "(int \<Rightarrow> kv list) \<Rightarrow> bytes \<Rightarrow> File \<Rightarrow> bool" where
  "has_key cont k f \<longleftrightarrow> map_of (cont (file_id f)) k \<noteq> None"

lemma has_key_image: "has_key cont k f \<longleftrightarrow> k \<in> fst ` set (cont (file_id f))"
  by (simp add: has_key_def map_of_eq_None_iff)

lemma wins_iff: "wins S cont k v \<longleftrightarrow> (\<exists>f \<in> S. map_of (cont (file_id f)) k = Some v \<and> (\<forall>g \<in> S. has_key cont k g \<longrightarrow> g = f \<or> better f g))"
  by (simp add: wins_def has_key_def)

text \<open>The situation of one replacement, in terms of the sets of files.\<close>

definition replacement :: "host \<Rightarrow> iteration \<Rightarrow> int \<Rightarrow> StorageEngine \<Rightarrow> (int \<Rightarrow> kv list) \<Rightarrow> File list \<Rightarrow> File list \<Rightarrow> (int \<Rightarrow> kv list) \<Rightarrow> (kv \<Rightarrow> bool) \<Rightarrow> bool" where
  "replacement host iter l eng cont F N cont' P \<longleftrightarrow> eng_ok host iter eng cont \<and> selection l eng F \<and>
    (\<forall>f \<in> set (all_files eng). cont' (file_id f) = cont (file_id f)) \<and> (\<forall>n \<in> set N. level_id n = l + 1) \<and>
    (\<forall>n \<in> set N. \<forall>n' \<in> set N. \<forall>k. has_key cont' k n \<longrightarrow> has_key cont' k n' \<longrightarrow> n' = n) \<and>
    (\<forall>e. snd e \<noteq> TombValue \<longrightarrow> P e) \<and>
    (\<forall>k v. (\<exists>n \<in> set N. map_of (cont' (file_id n)) k = Some v) \<longleftrightarrow> P (k, v) \<and> winner F (map (\<lambda>f. cont (file_id f)) F) (k, v))"

lemma rewritten_replacement:
  assumes ok: "eng_ok host iter eng cont" and sel: "selection l eng F" and rw: "rewritten host iter l eng cont F eng1 N chunks P out"
    and old: "\<And>f. f \<in> set (all_files eng) \<Longrightarrow> new_cont cont N chunks (file_id f) = cont (file_id f)"
  shows "replacement host iter l eng cont F N (new_cont cont N chunks) P"
proof -
  let ?c = "new_cont cont N chunks"
  note d = rewrittenD [OF rw] and new = new_file_cont [OF rw]
  have "sorted_wrt apart N" using d(4,9,11) by (intro new_files_apart [of host iter N chunks]) (simp_all add: sorted_wrt_map sorted_wrt_filter)
  then have ap: "apart n n'" if "n \<in> set N" "n' \<in> set N" "n' \<noteq> n" for n n'
    using that by (induction N) (auto simp: apart_def)
  have one: "n' = n" if n: "n \<in> set N" "n' \<in> set N" "has_key ?c k n" "has_key ?c k n'" for n n' k
  proof (rule ccontr)
    assume "n' \<noteq> n"
    moreover have "lower_bound n \<le> k \<and> k \<le> upper_bound n" "lower_bound n' \<le> k \<and> k \<le> upper_bound n'"
      using image_key_range [OF new(1) [OF n(1)]] image_key_range [OF new(1) [OF n(2)]] n(3,4) by (simp_all add: has_key_image)
    ultimately show False using ap [OF n(1,2)] by (auto simp: apart_def)
  qed
  have "(\<exists>n \<in> set N. map_of (?c (file_id n)) k = Some v) \<longleftrightarrow> P (k, v) \<and> winner F (map (\<lambda>f. cont (file_id f)) F) (k, v)" for k v
  proof
    assume "\<exists>n \<in> set N. map_of (?c (file_id n)) k = Some v"
    then obtain n where n: "n \<in> set N" "(k, v) \<in> set (?c (file_id n))" by (auto dest: map_of_SomeD)
    then show "P (k, v) \<and> winner F (map (\<lambda>f. cont (file_id f)) F) (k, v)" using new(3) [OF n(1)] d(12) by blast
  next
    assume "P (k, v) \<and> winner F (map (\<lambda>f. cont (file_id f)) F) (k, v)"
    then have "(k, v) \<in> set (concat chunks)" unfolding d(9) set_filter d(12) [symmetric] by blast
    then obtain es where "es \<in> set chunks" "(k, v) \<in> set es" by auto
    then obtain i where i: "i < length chunks" "(k, v) \<in> set (chunks ! i)" by (metis in_set_conv_nth)
    then have n: "i < length N" "N ! i \<in> set N" using list_all2_lengthD [OF d(4)] by simp_all
    have "?c (file_id (N ! i)) = chunks ! i" using new_cont_new [OF _ d(7) n(1)] list_all2_lengthD [OF d(4)] by simp
    moreover have "content_ok (?c (file_id (N ! i)))" using new(1) [OF n(2)] by (simp add: holds_image_def)
    ultimately show "\<exists>n \<in> set N. map_of (?c (file_id n)) k = Some v" using map_of_content i(2) n(2) by metis
  qed
  then show ?thesis using ok sel old d(6) one d(10) unfolding replacement_def by blast
qed

text \<open>The three cases: a file that stays wins, a kept entry wins, a dropped entry won.\<close>

lemma replacementD:
  assumes "replacement host iter l eng cont F N cont' P"
  shows "eng_ok host iter eng cont" "selection l eng F" "f \<in> set (all_files eng) \<Longrightarrow> cont' (file_id f) = cont (file_id f)"
    "f \<in> set (all_files eng) \<Longrightarrow> has_key cont' k f = has_key cont k f" "n \<in> set N \<Longrightarrow> level_id n = l + 1"
    "n \<in> set N \<Longrightarrow> n' \<in> set N \<Longrightarrow> has_key cont' k n \<Longrightarrow> has_key cont' k n' \<Longrightarrow> n' = n" "v \<noteq> TombValue \<Longrightarrow> P (k, v)"
    "(\<exists>n \<in> set N. map_of (cont' (file_id n)) k = Some v) \<longleftrightarrow> P (k, v) \<and> winner F (map (\<lambda>f. cont (file_id f)) F) (k, v)"
  using assms unfolding replacement_def has_key_def by (auto simp: prod_eq_iff)

lemma new_has_key:
  assumes r: "replacement host iter l eng cont F N cont' P" and n: "n \<in> set N" "has_key cont' k n"
  shows "\<exists>f \<in> set F. has_key cont k f"
proof -
  obtain v where "map_of (cont' (file_id n)) k = Some v" using n(2) by (auto simp: has_key_def)
  then have "winner F (map (\<lambda>f. cont (file_id f)) F) (k, v)" using replacementD(8) [OF r] n(1) by blast
  from winner_in [OF this] obtain f where "f \<in> set F" "(k, v) \<in> set (cont (file_id f))" by blast
  then show ?thesis unfolding has_key_image by force
qed

lemma stays_wins:
  assumes r: "replacement host iter l eng cont F N cont' P" and S': "S' = (set (all_files eng) - set F) \<union> set N"
    and f: "f \<in> set (all_files eng) - set F" "map_of (cont (file_id f)) k = Some v" "\<forall>g \<in> set (all_files eng). has_key cont k g \<longrightarrow> g = f \<or> better f g"
  shows "wins S' cont' k v"
  unfolding wins_iff
proof (intro bexI conjI ballI impI)
  note d = replacementD [OF r]
  show "f \<in> S'" using f(1) S' by blast
  show "map_of (cont' (file_id f)) k = Some v" using d(3) f(1,2) by simp
  fix g assume g: "g \<in> S'" "has_key cont' k g"
  show "g = f \<or> better f g"
  proof (cases "g \<in> set N")
    case True
    obtain f0 where f0: "f0 \<in> set F" "has_key cont k f0" using new_has_key [OF r True g(2)] by blast
    have "f0 \<in> set (all_files eng)" using f0(1) d(2) by (auto simp: selection_def)
    then have "better f f0" using f(1,3) f0 by blast
    then have "level_id f < l + 1" using others_above [OF d(1,2) f0(1) _ f(1), of k] f0(2) f(2) by (simp add: has_key_def)
    then show ?thesis using d(5) [OF True] by (simp add: better_def)
  next
    case False
    then have "g \<in> set (all_files eng)" using g(1) S' by blast
    then show ?thesis using d(4) g(2) f(3) by blast
  qed
qed

lemma kept_wins:
  assumes r: "replacement host iter l eng cont F N cont' P" and S': "S' = (set (all_files eng) - set F) \<union> set N"
    and f: "f \<in> set F" "map_of (cont (file_id f)) k = Some v" "\<forall>g \<in> set (all_files eng). has_key cont k g \<longrightarrow> g = f \<or> better f g"
  shows "winner F (map (\<lambda>f. cont (file_id f)) F) (k, v)" "P (k, v) \<Longrightarrow> wins S' cont' k v"
proof -
  note d = replacementD [OF r]
  have F: "set F \<subseteq> set (all_files eng)" "distinct (map file_id F)" using d(2) by (simp_all add: selection_def)
  have "\<forall>g \<in> set F. fst (k, v) \<in> fst ` set (cont (file_id g)) \<longrightarrow> g = f \<or> better f g"
    unfolding fst_conv has_key_image [symmetric] using f(3) F(1) by blast
  then show w: "winner F (map (\<lambda>f. cont (file_id f)) F) (k, v)" by (intro winnerI [OF f(1) _ F(2)]) (simp_all add: map_of_SomeD [OF f(2)])
  assume "P (k, v)"
  with w d(8) obtain n where n: "n \<in> set N" "map_of (cont' (file_id n)) k = Some v" by blast
  show "wins S' cont' k v"
    unfolding wins_iff
  proof (intro bexI conjI ballI impI)
    show "n \<in> S'" using n(1) S' by blast
    show "map_of (cont' (file_id n)) k = Some v" by (rule n(2))
    fix g assume g: "g \<in> S'" "has_key cont' k g"
    show "g = n \<or> better n g"
    proof (cases "g \<in> set N")
      case True
      moreover have "has_key cont' k n" using n(2) by (simp add: has_key_def)
      ultimately show ?thesis using d(6) [OF n(1)] g(2) by blast
    next
      case False
      then have h: "g \<in> set (all_files eng) - set F" using g(1) S' by blast
      then have k: "has_key cont k g" using d(4) g(2) by blast
      then have "better f g" using f(1,3) h by blast
      then have "l + 1 < level_id g" using others_deeper [OF d(1,2) f(1) _ h, of k] k f(2) by (simp add: has_key_def)
      then show ?thesis using d(5) [OF n(1)] by (simp add: better_def)
    qed
  qed
qed

text \<open>What the levels below \<open>j\<close> hold.\<close>

definition deep_lookup :: "int \<Rightarrow> StorageEngine \<Rightarrow> (int \<Rightarrow> kv list) \<Rightarrow> bytes \<Rightarrow> bytes option" where
  "deep_lookup j eng cont k = eng_lookup (eng\<lparr>level_files := filter (\<lambda>item. j < fst item) (level_files eng)\<rparr>) cont k"

lemma deep_lookup_wins:
  assumes ok: "eng_ok host iter eng cont"
  shows "deep_lookup j eng cont k = Some v \<longleftrightarrow> wins {f \<in> set (all_files eng). j < level_id f} cont k v"
proof -
  let ?eng = "eng\<lparr>level_files := filter (\<lambda>item. j < fst item) (level_files eng)\<rparr>"
  have level: "level_id f = fst item" if "item \<in> set (level_files eng)" "f \<in> set (snd item)" for item f
    using ok that by (auto simp: eng_ok_def level_ok_def)
  have "(\<exists>item \<in> set (level_files eng). j < fst item \<and> f \<in> set (snd item)) \<longleftrightarrow> (\<exists>item \<in> set (level_files eng). f \<in> set (snd item)) \<and> j < level_id f" for f
    using level by metis
  then have all: "set (all_files ?eng) = {f \<in> set (all_files eng). j < level_id f}" unfolding all_files_def by auto
  have "distinct (map file_id (concat (map snd (filter (\<lambda>item. j < fst item) m))))" if "distinct (map file_id (concat (map snd m)))" for m :: level_map
    using that by (induction m) auto
  then have "distinct (map file_id (all_files ?eng))" using ok by (simp add: eng_ok_def all_files_def)
  then have "eng_ok host iter ?eng cont"
    using ok all by (auto simp: eng_ok_def sorted_wrt_map sorted_wrt_filter file_ok_def)
  from eng_lookup_wins [OF this] show ?thesis unfolding deep_lookup_def all .
qed

lemma dropped_wins:
  assumes r: "replacement host iter l eng cont F N cont' P" and S': "S' = (set (all_files eng) - set F) \<union> set N"
    and f: "f \<in> set F" "map_of (cont (file_id f)) k = Some v" "\<forall>g \<in> set (all_files eng). has_key cont k g \<longrightarrow> g = f \<or> better f g"
    and drop: "\<not> P (k, v)"
  shows "wins S' cont' k w \<longleftrightarrow> wins {g \<in> set (all_files eng). l + 1 < level_id g} cont k w"
proof -
  note d = replacementD [OF r]
  let ?D = "{g \<in> set (all_files eng). l + 1 < level_id g}"
  have F: "set F \<subseteq> set (all_files eng)" "\<forall>f \<in> set F. level_id f = l \<or> level_id f = l + 1" using d(2) by (simp_all add: selection_def)
  have win: "winner F (map (\<lambda>f. cont (file_id f)) F) (k, v)" by (rule kept_wins(1) [OF r S' f])
  have "content_ok es" if "es \<in> set (map (\<lambda>f. cont (file_id f)) F)" for es
    using that F(1) eng_file(1) [OF d(1)] by (auto simp: file_ok_def holds_image_def)
  then have sorted: "\<forall>es \<in> set (map (\<lambda>f. cont (file_id f)) F). sorted_wrt (<) (map fst es)" by (simp add: content_ok_def)
  have none: "\<not> has_key cont' k n" if n: "n \<in> set N" for n
  proof
    assume "has_key cont' k n"
    then obtain u where "map_of (cont' (file_id n)) k = Some u" by (auto simp: has_key_def)
    then have "P (k, u)" "winner F (map (\<lambda>f. cont (file_id f)) F) (k, u)" using d(8) n by blast+
    moreover from this(2) have "u = v" using winner_unique [OF _ win sorted] by simp
    ultimately show False using drop by simp
  qed
  have stay: "g \<in> S' \<and> has_key cont' k g \<longleftrightarrow> g \<in> ?D \<and> has_key cont k g" for g
  proof
    assume g: "g \<in> S' \<and> has_key cont' k g"
    then have h: "g \<in> set (all_files eng) - set F" using none S' by blast
    then have k: "has_key cont k g" using d(4) g by blast
    then have "better f g" using f(1,3) h by blast
    then have "l + 1 < level_id g" using others_deeper [OF d(1,2) f(1) _ h, of k] k f(2) by (simp add: has_key_def)
    with h k show "g \<in> ?D \<and> has_key cont k g" by simp
  next
    assume g: "g \<in> ?D \<and> has_key cont k g"
    then have "g \<notin> set F" using F(2) by auto
    with g S' d(4) show "g \<in> S' \<and> has_key cont' k g" by blast
  qed
  have val: "map_of (cont' (file_id g)) k = map_of (cont (file_id g)) k" if "g \<in> ?D" for g using d(3) that by simp
  have key: "map_of (c (file_id g)) k = Some w \<Longrightarrow> has_key c k g" for c g by (simp add: has_key_def)
  show ?thesis unfolding wins_iff using stay val key by (metis (no_types, lifting))
qed

text \<open>The effect on lookups: live keys keep their value; where the tombstone is dropped, the deeper levels answer.\<close>

lemma replaced_lookup:
  assumes r: "replacement host iter l eng cont F N cont' P" and ok': "eng_ok host iter eng' cont'"
    and all: "set (all_files eng') = (set (all_files eng) - set F) \<union> set N"
  shows "eng_lookup eng cont k \<noteq> Some TombValue \<Longrightarrow> eng_lookup eng' cont' k = eng_lookup eng cont k"
    "eng_lookup eng cont k = Some TombValue \<Longrightarrow>
      eng_lookup eng' cont' k = (if (\<exists>f \<in> set F. has_key cont k f \<and> (\<forall>g \<in> set (all_files eng). has_key cont k g \<longrightarrow> g = f \<or> better f g)) \<and> \<not> P (k, TombValue)
        then deep_lookup (l + 1) eng cont k else Some TombValue)"
proof -
  note d = replacementD [OF r] and look = eng_lookup_wins [OF replacementD(1) [OF r]] and look' = eng_lookup_wins [OF ok']
  have found: "eng_lookup eng' cont' k = Some v" if v: "eng_lookup eng cont k = Some v"
      and keep: "P (k, v) \<or> \<not> (\<exists>f \<in> set F. has_key cont k f \<and> (\<forall>g \<in> set (all_files eng). has_key cont k g \<longrightarrow> g = f \<or> better f g))" for v
  proof -
    obtain f where f: "f \<in> set (all_files eng)" "map_of (cont (file_id f)) k = Some v" "\<forall>g \<in> set (all_files eng). has_key cont k g \<longrightarrow> g = f \<or> better f g"
      using v unfolding look wins_iff by blast
    moreover have "has_key cont k f" using f(2) by (simp add: has_key_def)
    ultimately show ?thesis unfolding look' using keep stays_wins [OF r all _ f(2,3)] kept_wins(2) [OF r all _ f(2,3)] by blast
  qed
  show "eng_lookup eng' cont' k = eng_lookup eng cont k" if "eng_lookup eng cont k \<noteq> Some TombValue"
  proof (cases "eng_lookup eng cont k")
    case (Some v)
    with that found [OF Some] d(7) show ?thesis by auto
  next
    case None
    have "\<not> has_key cont k f" if f: "f \<in> set (all_files eng)" for f
    proof
      assume "has_key cont k f"
      then have "\<exists>f \<in> set (concat (map (\<lambda>item. newest_first (snd item)) (level_files eng))). has_key cont k f"
        using f by (auto simp: all_files_def newest_first_cong)
      then show False using None by (auto simp: eng_lookup_def map_of_eq_None_iff has_key_image)
    qed
    moreover have "set F \<subseteq> set (all_files eng)" using d(2) by (simp add: selection_def)
    ultimately have "\<not> has_key cont' k g" if "g \<in> set (all_files eng')" for g
      using that d(4) new_has_key [OF r, of g k] unfolding all by blast
    then have "\<not> wins (set (all_files eng')) cont' k v" for v by (auto simp: wins_iff has_key_def)
    with None look' show ?thesis by (metis not_None_eq)
  qed
  assume tomb: "eng_lookup eng cont k = Some TombValue"
  show "eng_lookup eng' cont' k = (if (\<exists>f \<in> set F. has_key cont k f \<and> (\<forall>g \<in> set (all_files eng). has_key cont k g \<longrightarrow> g = f \<or> better f g)) \<and> \<not> P (k, TombValue)
      then deep_lookup (l + 1) eng cont k else Some TombValue)" (is "_ = (if ?dropped then _ else _)")
  proof (cases ?dropped)
    case False
    then show ?thesis using found [OF tomb] by auto
  next
    case True
    then obtain f where f: "f \<in> set F" "has_key cont k f" "\<forall>g \<in> set (all_files eng). has_key cont k g \<longrightarrow> g = f \<or> better f g" by blast
    have "f \<in> set (all_files eng)" using f(1) d(2) by (auto simp: selection_def)
    moreover obtain u where u: "map_of (cont (file_id f)) k = Some u" using f(2) by (auto simp: has_key_def)
    ultimately have "wins (set (all_files eng)) cont k u" using f(3) unfolding wins_iff by blast
    then have "u = TombValue" using tomb unfolding look by (rule wins_unique)
    with dropped_wins [OF r all f(1) u f(3)] True have "eng_lookup eng' cont' k = Some w \<longleftrightarrow> deep_lookup (l + 1) eng cont k = Some w" for w
      unfolding look' deep_lookup_wins [OF d(1)] by blast
    then have "eng_lookup eng' cont' k = deep_lookup (l + 1) eng cont k" by (metis not_None_eq)
    with True show ?thesis by simp
  qed
qed

end
