(* ===== verification/Compaction_Rounds.thy ===== *)
theory Compaction_Rounds
  imports Compaction_Correct
begin

text \<open>
  Rounds of compaction: the files a round picks are closed under overlap, each of the two kinds of
  round rewrites them, and \<^verbatim>\<open>Compact\<close> as a whole ends.
\<close>

section \<open>The files a round picks\<close>

lemma overlap_level0_spec:
  assumes "overlap_level0 xs ub = (fs, ub')" "sorted (map lower_bound xs)"
  shows "set fs \<subseteq> set xs" "ub \<le> ub'" "\<forall>f \<in> set fs. upper_bound f \<le> ub'" "\<forall>g \<in> set xs - set fs. ub' < lower_bound g"
    "distinct xs \<Longrightarrow> distinct fs"
proof -
  have "set fs \<subseteq> set xs \<and> ub \<le> ub' \<and> (\<forall>f \<in> set fs. upper_bound f \<le> ub') \<and> (\<forall>g \<in> set xs - set fs. ub' < lower_bound g) \<and>
      (distinct xs \<longrightarrow> distinct fs)"
    using assms
  proof (induction xs arbitrary: ub fs)
    case (Cons x xs)
    show ?case
    proof (cases "lower_bound x \<le> ub")
      case True
      let ?ub = "if upper_bound x > ub then upper_bound x else ub"
      obtain gs where gs: "overlap_level0 xs ?ub = (gs, ub')" "fs = x # gs"
        using Cons.prems(1) True by (auto split: prod.splits)
      have "sorted (map lower_bound xs)" using Cons.prems(2) by simp
      note IH = Cons.IH [OF gs(1) this]
      have "ub \<le> ?ub" "upper_bound x \<le> ?ub" by auto
      then have "ub \<le> ub'" "upper_bound x \<le> ub'" using IH by (meson order_trans)+
      with IH gs(2) show ?thesis by auto
    next
      case False
      then have "fs = []" "ub' = ub" using Cons.prems(1) by simp_all
      moreover have "ub < lower_bound g" if "g \<in> set (x # xs)" for g using False Cons.prems(2) that by auto
      ultimately show ?thesis by simp
    qed
  qed simp
  then show "set fs \<subseteq> set xs" "ub \<le> ub'" "\<forall>f \<in> set fs. upper_bound f \<le> ub'" "\<forall>g \<in> set xs - set fs. ub' < lower_bound g"
    "distinct xs \<Longrightarrow> distinct fs" by blast+
qed

text \<open>The part from the level itself reaches up to \<open>ub\<close>, and the rest of the level is above it.\<close>

lemma picked_level:
  assumes lev: "level_list l fs" and ne: "fs \<noteq> []" and l: "0 \<le> l" and bd: "\<forall>f \<in> set fs. bounded f"
  obtains more ub where "(if l = 0 then FindOverlapFilesLevel0 fs (upper_bound (hd fs)) else ([], upper_bound (hd fs))) = (more, ub)"
    "set (hd fs # more) \<subseteq> set fs" "\<forall>f \<in> set (hd fs # more). lower_bound (hd fs) \<le> lower_bound f \<and> upper_bound f \<le> ub"
    "\<forall>g \<in> set fs - set (hd fs # more). ub < lower_bound g" "distinct (hd fs # more)" "lower_bound (hd fs) \<le> ub"
proof -
  obtain x xs where fs: "fs = x # xs" using ne by (cases fs) auto
  have s: "sorted (map lower_bound (x # xs))" and dx: "distinct (x # xs)" using lev by (auto simp: fs level_list_def distinct_map)
  have x: "lower_bound x \<le> upper_bound x" using bd by (simp add: fs bounded_def)
  show thesis
  proof (cases "l = 0")
    case True
    obtain more ub where ov: "overlap_level0 xs (upper_bound x) = (more, ub)" by fastforce
    note sp = overlap_level0_spec [OF ov]
    have sx: "sorted (map lower_bound xs)" using s by simp
    have "lower_bound x \<le> lower_bound f" if "f \<in> set (x # more)" for f using s sp(1) [OF sx] that by auto
    moreover have "lower_bound x \<le> ub" using x sp(2) [OF sx] by (rule order_trans)
    ultimately show ?thesis using that [of more ub] True sp [OF sx] dx by (auto simp: fs FindOverlapFilesLevel0_def ov)
  next
    case False
    then have "\<forall>g \<in> set xs. upper_bound x < lower_bound g" using lev l by (simp add: fs level_list_def)
    then show ?thesis using that [of "[]" "upper_bound x"] False x by (auto simp: fs)
  qed
qed

text \<open>Files of one level from 1 on are in order.\<close>

lemma level_apart:
  assumes "level_list l fs" "1 \<le> l" "f \<in> set fs" "g \<in> set fs" "f \<noteq> g"
  shows "apart f g"
proof -
  have "sorted_wrt (\<lambda>f g. upper_bound f < lower_bound g) fs" using assms(1,2) by (simp add: level_list_def)
  then show ?thesis using assms(3-5) by (induction fs) (auto simp: apart_def)
qed

lemma apart_between:
  assumes "apart f g" "bounded f" "bounded g"
  shows "lower_bound f < lower_bound g \<Longrightarrow> upper_bound f < lower_bound g" "upper_bound g < upper_bound f \<Longrightarrow> upper_bound g < lower_bound f"
  using assms by (auto simp: apart_def bounded_def)

lemma hull:
  assumes "finite S" "S \<noteq> {}" "(\<forall>f \<in> S. upper_bound f < lower_bound g) \<or> (\<forall>f \<in> S. upper_bound g < lower_bound f)"
  shows "upper_bound g < Min (lower_bound ` S) \<or> Max (upper_bound ` S) < lower_bound g"
  using assms by auto

lemma pick_files_selection:
  assumes ok: "eng_ok host iter eng cont" and l: "0 \<le> l" and ne: "lm_at (level_files eng) l \<noteq> []"
  shows "selection l eng (pick_files (level_files eng) l)" "hd (lm_at (level_files eng) l) \<in> set (pick_files (level_files eng) l)"
proof -
  let ?m = "level_files eng" and ?F = "pick_files (level_files eng) l"
  let ?fs = "lm_at ?m l"
  have lev: "level_list j (lm_at ?m j)" for j using ok by (simp add: eng_ok_levels levels_ok_def)
  have all: "f \<in> set (all_files eng) \<and> level_id f = j \<and> bounded f" if "f \<in> set (lm_at ?m j)" for f j
    using at_level [OF ok that] eng_file(4) [OF ok] by simp
  then have bd: "\<forall>f \<in> set ?fs. bounded f" by blast
  obtain more ub where p: "(if l = 0 then FindOverlapFilesLevel0 ?fs (upper_bound (hd ?fs)) else ([], upper_bound (hd ?fs))) = (more, ub)"
    "set (hd ?fs # more) \<subseteq> set ?fs" "\<forall>f \<in> set (hd ?fs # more). lower_bound (hd ?fs) \<le> lower_bound f \<and> upper_bound f \<le> ub"
    "\<forall>g \<in> set ?fs - set (hd ?fs # more). ub < lower_bound g" "distinct (hd ?fs # more)" "lower_bound (hd ?fs) \<le> ub"
    using picked_level [OF lev ne l bd] by blast
  let ?A = "hd ?fs # more" and ?lo = "lower_bound (hd ?fs)"
  define B where "B = filter (\<lambda>f. lower_bound f \<le> ub \<and> upper_bound f \<ge> ?lo) (lm_at ?m (l + 1))"
  have B: "(case map_of ?m (l + 1) of None \<Rightarrow> [] | Some fs \<Rightarrow> FindOverlapFilesBasedOnBound fs ?lo ub) = B"
    by (auto simp: B_def lm_at_def FindOverlapFilesBasedOnBound_def split: option.split)
  have F: "?F = ?A @ B" unfolding pick_files_def Let_def p(1) by (simp add: B)
  show "hd ?fs \<in> set ?F" by (simp add: F)
  have A_in: "f \<in> set (all_files eng) \<and> level_id f = l \<and> bounded f" if "f \<in> set ?A" for f using all p(2) that by blast
  have B_in: "f \<in> set (all_files eng) \<and> level_id f = l + 1 \<and> bounded f \<and> f \<in> set (lm_at ?m (l + 1))" if "f \<in> set B" for f
    using all that by (auto simp: B_def)
  have "distinct B" using lev [of "l + 1"] by (simp add: B_def level_list_def distinct_map)
  moreover have "f \<notin> set B" if "f \<in> set ?A" for f using A_in [OF that] B_in [of f] by auto
  ultimately have dF: "distinct ?F" using p(5) unfolding F distinct_append by blast
  have sub: "set ?F \<subseteq> set (all_files eng)" using A_in B_in by (auto simp: F)
  then have "inj_on file_id (set ?F)" using same_file [OF ok] by (meson inj_onI subsetD)
  with dF have ids: "distinct (map file_id ?F)" by (simp add: distinct_map)
  have c1: "apart f g" if "f \<in> set ?F" "g \<in> set (all_files eng) - set ?F" "level_id f = l" "level_id g = l" for f g
  proof -
    have "f \<notin> set B" using B_in [of f] that(3) by auto
    then have f: "f \<in> set ?A" using that(1) unfolding F set_append by blast
    have "g \<in> set ?fs" using eng_file(2) [OF ok, of g] that(2,4) by auto
    moreover have "g \<notin> set ?A" using that(2) unfolding F set_append by blast
    ultimately have "ub < lower_bound g" using p(4) by blast
    moreover have "upper_bound f \<le> ub" using p(3) f by blast
    ultimately show ?thesis by (auto simp: apart_def)
  qed
  have c2: "(\<forall>f \<in> set ?F. upper_bound f < lower_bound g) \<or> (\<forall>f \<in> set ?F. upper_bound g < lower_bound f)"
    if g: "g \<in> set (all_files eng) - set ?F" "level_id g = l + 1" for g
  proof -
    have gl: "g \<in> set (lm_at ?m (l + 1))" "bounded g" using eng_file [OF ok, of g] g by auto
    have ap: "apart f g" if "f \<in> set B" for f
      using level_apart [OF lev [of "l + 1"] _ _ gl(1), of f] B_in [OF that] g(1) l that by (auto simp: F)
    have "ub < lower_bound g \<or> upper_bound g < ?lo" using g(1) gl(1) by (auto simp: F B_def)
    then show ?thesis
    proof
      assume hi: "ub < lower_bound g"
      have "upper_bound f < lower_bound g" if "f \<in> set B" for f
        using apart_between(1) [OF ap [OF that]] B_in [OF that] gl(2) hi that by (auto simp: B_def)
      moreover have "upper_bound f < lower_bound g" if "f \<in> set ?A" for f using p(3) that hi by (meson le_less_trans)
      ultimately show ?thesis by (auto simp: F)
    next
      assume lo: "upper_bound g < ?lo"
      have "upper_bound g < lower_bound f" if "f \<in> set B" for f
        using apart_between(2) [OF ap [OF that]] B_in [OF that] gl(2) lo that by (auto simp: B_def)
      moreover have "upper_bound g < lower_bound f" if "f \<in> set ?A" for f using p(3) that lo by (meson less_le_trans)
      ultimately show ?thesis by (auto simp: F)
    qed
  qed
  have "\<exists>lo hi. (\<forall>f \<in> set ?F. lo \<le> lower_bound f \<and> upper_bound f \<le> hi) \<and>
      (\<forall>g \<in> set (all_files eng) - set ?F. level_id g = l + 1 \<longrightarrow> upper_bound g < lo \<or> hi < lower_bound g)"
    using c2 hull [of "set ?F"] by (intro exI [of _ "Min (lower_bound ` set ?F)"] exI [of _ "Max (upper_bound ` set ?F)"]) (auto simp: F)
  moreover have "\<forall>f \<in> set ?F. level_id f = l \<or> level_id f = l + 1" using A_in B_in by (auto simp: F)
  ultimately show "selection l eng ?F" unfolding selection_def using sub ids c1 by blast
qed


section \<open>One round\<close>

definition eng_count :: "StorageEngine \<Rightarrow> (int \<Rightarrow> kv list) \<Rightarrow> nat" where
  "eng_count eng cont = (\<Sum>f \<in> set (all_files eng). length (cont (file_id f)))"

definition eng_size :: "StorageEngine \<Rightarrow> (int \<Rightarrow> kv list) \<Rightarrow> nat" where
  "eng_size eng cont = (\<Sum>f \<in> set (all_files eng). length (entries_of (cont (file_id f))))"

text \<open>Files of the data folder that the engine does not know.\<close>

definition leftover :: "StorageEngine \<Rightarrow> bytes set" where
  "leftover eng = {path. data_folder eng path \<noteq> None} - paths (all_files eng)"

definition round_post :: "host \<Rightarrow> iteration \<Rightarrow> int \<Rightarrow> StorageEngine \<Rightarrow> (int \<Rightarrow> kv list) \<Rightarrow> StorageEngine \<Rightarrow> (int \<Rightarrow> kv list) \<Rightarrow> File list \<Rightarrow> File list \<Rightarrow>
    (kv \<Rightarrow> bool) \<Rightarrow> bool" where
  "round_post host iter l eng cont eng' cont' F N P \<longleftrightarrow>
    eng_ok host iter eng' cont' \<and> disk_ok host iter eng' cont' \<and> replacement host iter l eng cont F N cont' P \<and>
    set (all_files eng') = (set (all_files eng) - set F) \<union> set N \<and> set N \<inter> set (all_files eng) = {} \<and>
    (\<forall>f \<in> set F. files_map eng' (file_id f) = None) \<and> leftover eng' \<subseteq> leftover eng \<and>
    level0_files_number_limit eng' = level0_files_number_limit eng \<and>
    last_file_id eng \<le> last_file_id eng' \<and> last_file_id eng' \<le> last_file_id eng + int (eng_count eng cont) \<and>
    (\<Sum>f \<in> set N. length (cont' (file_id f))) \<le> (\<Sum>f \<in> set F. length (cont (file_id f))) \<and>
    (\<Sum>f \<in> set N. length (entries_of (cont' (file_id f)))) \<le> (\<Sum>f \<in> set F. length (entries_of (cont (file_id f))))"

lemma sum_distinct: "distinct xs \<Longrightarrow> (\<Sum>x \<in> set xs. g x) = sum_list (map g xs)"
  by (simp add: sum_list_distinct_conv_sum_set)

lemma totals_of_files:
  assumes "distinct F" "set F \<subseteq> set (all_files eng)"
  shows "total_count (map (\<lambda>f. cont (file_id f)) F) = (\<Sum>f \<in> set F. length (cont (file_id f)))"
    "total_size (map (\<lambda>f. cont (file_id f)) F) = (\<Sum>f \<in> set F. length (entries_of (cont (file_id f))))"
    "(\<Sum>f \<in> set F. length (cont (file_id f))) \<le> eng_count eng cont" "(\<Sum>f \<in> set F. length (entries_of (cont (file_id f)))) \<le> eng_size eng cont"
proof -
  show "total_count (map (\<lambda>f. cont (file_id f)) F) = (\<Sum>f \<in> set F. length (cont (file_id f)))"
    "total_size (map (\<lambda>f. cont (file_id f)) F) = (\<Sum>f \<in> set F. length (entries_of (cont (file_id f))))"
    using assms(1) by (simp_all add: total_count_def total_size_def o_def sum_distinct)
  show "(\<Sum>f \<in> set F. length (cont (file_id f))) \<le> eng_count eng cont"
    "(\<Sum>f \<in> set F. length (entries_of (cont (file_id f)))) \<le> eng_size eng cont"
    unfolding eng_count_def eng_size_def by (rule sum_mono2; use assms(2) in simp)+
qed

lemma new_totals:
  assumes rw: "rewritten host iter l eng cont F eng1 N chunks P out"
  shows "(\<Sum>f \<in> set N. length (new_cont cont N chunks (file_id f))) = length (concat chunks)"
    "(\<Sum>f \<in> set N. length (entries_of (new_cont cont N chunks (file_id f)))) = length (entries_of (concat chunks))"
proof -
  note d = rewrittenD [OF rw]
  have len: "length chunks = length N" using list_all2_lengthD [OF d(4)] by simp
  then have eq: "map (\<lambda>f. new_cont cont N chunks (file_id f)) N = chunks"
    using new_cont_new [OF len d(7)] by (simp add: list_eq_iff_nth_eq)
  have dist: "distinct N" using d(7) by (simp add: distinct_map)
  have sizes: "length (entries_of (concat cs)) = sum_list (map (\<lambda>c. length (entries_of c)) cs)" for cs
    by (induction cs) (simp_all add: entries_of_def)
  have "(\<Sum>f \<in> set N. length (new_cont cont N chunks (file_id f))) = sum_list (map length (map (\<lambda>f. new_cont cont N chunks (file_id f)) N))"
    by (simp add: sum_distinct [OF dist] o_def)
  then show "(\<Sum>f \<in> set N. length (new_cont cont N chunks (file_id f))) = length (concat chunks)" unfolding eq by (simp add: length_concat)
  have "(\<Sum>f \<in> set N. length (entries_of (new_cont cont N chunks (file_id f)))) =
      sum_list (map (\<lambda>c. length (entries_of c)) (map (\<lambda>f. new_cont cont N chunks (file_id f)) N))"
    by (simp add: sum_distinct [OF dist] o_def)
  then show "(\<Sum>f \<in> set N. length (entries_of (new_cont cont N chunks (file_id f)))) = length (entries_of (concat chunks))"
    unfolding eq sizes .
qed

text \<open>The files taken are gone from the map of ids and from the folder.\<close>

lemma enter_other: "i \<notin> file_id ` set N \<Longrightarrow> files_map (fold add_to_maps N eng) i = files_map eng i"
  by (induction N arbitrary: eng) (auto simp: add_to_maps_def)

lemma removed_id: "files_map eng i = None \<or> i \<in> file_id ` set F \<Longrightarrow> files_map (fold remove_from_maps F eng) i = None"
  by (induction F arbitrary: eng) (auto simp: remove_from_maps_def)

lemma rewritten_gone:
  assumes ok: "eng_ok host iter eng cont" and sel: "selection l eng F" and l: "0 \<le> l" and rw: "rewritten host iter l eng cont F eng1 N chunks P out"
    and gone: "b \<or> (\<forall>path \<in> paths F. data_folder eng1 path = None)" and all: "set (all_files eng') = (set (all_files eng) - set F) \<union> set N"
    and eng': "eng' = UpdateMapAfterCompaction N F b eng1"
  shows "\<forall>f \<in> set F. files_map eng' (file_id f) = None" "leftover eng' \<subseteq> leftover eng"
proof -
  note d = rewrittenD [OF rw]
  have F: "set F \<subseteq> set (all_files eng)" using sel by (simp add: selection_def)
  have "file_id f \<notin> file_id ` set N" if "f \<in> set F" for f
    using that F new_ids [OF rw] by blast
  then show "\<forall>f \<in> set F. files_map eng' (file_id f) = None" by (auto simp: eng' UpdateMap_parts enter_other removed_id)
  note df = replaced_levels(5) [OF ok sel l rw]
  have "data_folder eng' path = (if b \<and> path \<in> paths F then None else data_folder eng1 path)" for path
    using df by (auto simp: eng' UpdateMapAfterCompaction_def Let_def fold_delete paths_def)
  then have no: "path \<notin> paths F" if "data_folder eng' path \<noteq> None" for path using that gone by (auto split: if_splits)
  have same: "data_folder eng' path = data_folder eng path" if "path \<notin> paths N" "path \<notin> paths F" for path
    using that d(8) df by (simp add: eng' UpdateMap_parts)
  have sub: "paths N \<subseteq> paths (all_files eng')" "paths (all_files eng) \<subseteq> paths (all_files eng') \<union> paths F" using all by (auto simp: paths_def)
  show "leftover eng' \<subseteq> leftover eng"
  proof
    fix path assume "path \<in> leftover eng'"
    then have p: "data_folder eng' path \<noteq> None" "path \<notin> paths (all_files eng')" by (simp_all add: leftover_def)
    then have "path \<notin> paths F" "path \<notin> paths N" using no sub(1) by blast+
    then show "path \<in> leftover eng" using same [of path] p sub(2) by (auto simp: leftover_def)
  qed
qed

lemma rewritten_round:
  assumes ok: "eng_ok host iter eng cont" and disk: "disk_except host iter F eng cont" and sel: "selection l eng F" and l: "0 \<le> l" "l + 1 < 2 ^ 31"
    and rw: "rewritten host iter l eng cont F eng1 N chunks P out"
    and last: "last_file_id eng1 \<le> last_file_id eng + int (eng_count eng cont)"
    and out: "length out \<le> total_count (map (\<lambda>f. cont (file_id f)) F)" "length (entries_of out) \<le> total_size (map (\<lambda>f. cont (file_id f)) F)"
    and gone: "b \<or> (\<forall>path \<in> paths F. data_folder eng1 path = None)"
  shows "round_post host iter l eng cont (UpdateMapAfterCompaction N F b eng1) (new_cont cont N chunks) F N P"
proof -
  note d = rewrittenD [OF rw] and rep = replaced_ok(1-3) [OF ok disk sel l rw, where b = b] replaced_ok(4) [OF ok disk sel l rw] and lev = replaced_levels [OF ok sel l(1) rw]
  have F: "distinct F" "set F \<subseteq> set (all_files eng)" using sel by (simp_all add: selection_def distinct_map)
  note tot = totals_of_files [OF F, of cont]
  have "length (concat chunks) \<le> length out" unfolding d(9) by simp
  moreover have "length (entries_of (concat chunks)) \<le> length (entries_of out)" unfolding d(9) by (rule entries_of_filter)
  ultimately have "(\<Sum>f \<in> set N. length (new_cont cont N chunks (file_id f))) \<le> (\<Sum>f \<in> set F. length (cont (file_id f)))"
    "(\<Sum>f \<in> set N. length (entries_of (new_cont cont N chunks (file_id f)))) \<le> (\<Sum>f \<in> set F. length (entries_of (cont (file_id f))))"
    using new_totals [OF rw] out tot(1,2) by simp_all
  moreover have "set N \<inter> set (all_files eng) = {}"
    using new_ids [OF rw] by blast
  moreover have "replacement host iter l eng cont F N (new_cont cont N chunks) P"
    by (rule rewritten_replacement [OF ok sel rw rep(4)])
  moreover note rewritten_gone [OF ok sel l(1) rw gone rep(3) refl]
  ultimately show ?thesis using rep(1-3) d(3) last lev(6,7) by (simp add: round_post_def UpdateMap_parts)
qed

text \<open>The outcome of a merge or a move before the maps are updated; \<open>b\<close> is whether the old files are still to be removed.\<close>

definition staging :: "host \<Rightarrow> iteration \<Rightarrow> int \<Rightarrow> StorageEngine \<Rightarrow> (int \<Rightarrow> kv list) \<Rightarrow> File list \<Rightarrow> StorageEngine \<Rightarrow> File list \<Rightarrow>
    kv list list \<Rightarrow> (kv \<Rightarrow> bool) \<Rightarrow> kv list \<Rightarrow> bool \<Rightarrow> bool" where
  "staging host iter l eng cont F eng1 N chunks P out b \<longleftrightarrow> rewritten host iter l eng cont F eng1 N chunks P out \<and>
    last_file_id eng1 \<le> last_file_id eng + int (eng_count eng cont) \<and> (\<forall>f \<in> set N. last_file_id eng < file_id f) \<and>
    length out \<le> total_count (map (\<lambda>f. cont (file_id f)) F) \<and> length (entries_of out) \<le> total_size (map (\<lambda>f. cont (file_id f)) F) \<and>
    (b \<or> (\<forall>path \<in> paths F. data_folder eng1 path = None))"

lemma staging_round:
  assumes "eng_ok host iter eng cont" "disk_ok host iter eng cont" "selection l eng F" "0 \<le> l" "l + 1 < 2 ^ 31"
    and "staging host iter l eng cont F eng1 N chunks P out b"
  shows "round_post host iter l eng cont (UpdateMapAfterCompaction N F b eng1) (new_cont cont N chunks) F N P"
  using rewritten_round [OF assms(1) disk_ok_except [OF assms(2)] assms(3-5)] assms(6) unfolding staging_def by blast

text \<open>The merge rewrites the files it is given.\<close>

lemma NWay_staging:
  assumes ok: "eng_ok host iter eng cont" and it: "iterates iter" and sel: "selection l eng F"
    and l: "0 \<le> l" "l + 1 < 2 ^ 31" and size: "eng_size eng cont < 2 ^ 28" and last: "last_file_id eng + int (eng_count eng cont) < 10 ^ 8"
  shows "\<exists>N eng1 chunks out. NWayCompaction host iter buffer_size eng F l = Some (N, eng1) \<and>
    staging host iter l eng cont F eng1 N chunks (\<lambda>e. snd e \<noteq> TombValue) out True"
proof -
  let ?cs = "map (\<lambda>f. cont (file_id f)) F"
  have F: "distinct F" "set F \<subseteq> set (all_files eng)" "distinct (map file_id F)" using sel by (simp_all add: selection_def distinct_map)
  note tot = totals_of_files [OF F(1,2), of cont]
  have "list_all2 (holds_image host iter) F ?cs"
    using F(2) eng_file(1) [OF ok] by (auto simp: list_all2_map2 list_all2_same file_ok_def)
  moreover have "total_count ?cs \<le> eng_count eng cont" "total_size ?cs < 2 ^ 28" using tot size by linarith+
  ultimately have ins: "merge_inputs host iter (l + 1) eng F ?cs"
    using it F(3) last l ok unfolding merge_inputs_def eng_ok_def by simp
  obtain N eng1 chunks out where m: "NWayCompaction host iter buffer_size eng F l = Some (N, eng1)"
    "produced host iter (l + 1) eng eng1 N chunks" "concat chunks = live out" "sorted_wrt (<) (map fst out)"
    "\<forall>e. e \<in> set out \<longleftrightarrow> winner F ?cs e" "length out \<le> total_count ?cs" "length (entries_of out) \<le> total_size ?cs"
    using NWayCompaction_correct [OF ins, of buffer_size] by blast
  have fresh: "last_file_id eng < file_id f" "0 \<le> file_id f" if "f \<in> set N" for f
    using m(2) that ok by (fastforce simp: produced_def eng_ok_def)+
  have "file_id f \<notin> file_id ` set (all_files eng)" if "f \<in> set N" for f
    using fresh [OF that] eng_file(1) [OF ok] by (force simp: file_ok_def)
  with fresh have rw: "rewritten host iter l eng cont F eng1 N chunks (\<lambda>e. snd e \<noteq> TombValue) out"
    using m(2-5) unfolding rewritten_def produced_def live_def paths_def by auto
  have "length N \<le> length (concat chunks)" by (rule chunks_count [OF m(2)])
  then have "length N \<le> eng_count eng cont" using m(3,6) tot(1,3) by (simp add: live_def) (meson length_filter_le order_trans)
  then have "last_file_id eng1 \<le> last_file_id eng + int (eng_count eng cont)" using m(2) by (simp add: produced_def)
  then show ?thesis using m(1,6,7) rw fresh unfolding staging_def by blast
qed

text \<open>Moving one file rewrites it as it is.\<close>

lemma move_staging:
  assumes ok: "eng_ok host iter eng cont" and disk: "disk_ok host iter eng cont" and f: "f \<in> set (all_files eng)"
    and l: "0 \<le> l" "l + 1 < 2 ^ 31" and fl: "level_id f = l" and last: "last_file_id eng + int (eng_count eng cont) < 10 ^ 8"
  shows "\<exists>N eng1 chunks out. move_files [f] eng = Some (N, eng1) \<and> staging host iter l eng cont [f] eng1 N chunks (\<lambda>e. True) out False"
proof -
  let ?es = "cont (file_id f)" and ?fid = "last_file_id eng + 1"
  note fo = eng_file(1) [OF ok f]
  have im: "holds_image host iter f ?es" and id: "0 \<le> file_id f" "file_id f \<le> last_file_id eng" using fo by (simp_all add: file_ok_def)
  have es: "content_ok ?es" "length (file_image host iter ?es) < 2 ^ 32" using im by (simp_all add: holds_image_def)
  have od: "on_disk host iter (data_folder eng) f ?es" using disk f by (simp add: disk_ok_def)
  have tot: "length ?es \<le> eng_count eng cont" using totals_of_files(3) [of "[f]" eng cont] f by simp
  have es1: "1 \<le> length ?es" using es(1) by (cases ?es) (simp_all add: content_ok_def)
  then have fid: "0 \<le> ?fid" "?fid < 10 ^ 8" using tot last id by linarith+
  obtain name where name: "FileName (l + 1) ?fid = Some name" using FileName_fits(1) [OF fid(1), of "l + 1"] fid(2) by simp
  have diff: "file_name f \<noteq> name" using FileName_inj [of l "file_id f" "file_name f" "l + 1" ?fid] od name l id fl by (auto simp: on_disk_def)
  define eng1 where "eng1 = eng\<lparr>last_file_id := ?fid,
    data_folder := (data_folder eng)(FilePath (file_name f) := None, FilePath name := Some (file_image host iter ?es))\<rparr>"
  have ren: "rename_file (FilePath (file_name f)) (FilePath name) (data_folder eng) = data_folder eng1"
    using od by (simp add: rename_file_def on_disk_def eng1_def)
  obtain g where g: "File_new (data_folder eng1) name = Some g" "holds_image host iter g ?es" "level_id g = l + 1" "file_id g = ?fid" "file_name g = name"
    using File_new_image [OF name _ l(2) fid(1) _ es, of "data_folder eng1"] l(1) by (auto simp: eng1_def)
  have move: "move_files [f] eng = Some ([g], eng1)"
    using fid(2) name g(1) fl ren by (simp add: Let_def eng1_def)
  have "winner [f] (map (\<lambda>f. cont (file_id f)) [f]) e \<longleftrightarrow> e \<in> set ?es" for e by (auto simp: winner_def)
  moreover have "?fid \<notin> file_id ` set (all_files eng)" using eng_file(1) [OF ok] by (force simp: file_ok_def)
  ultimately have "rewritten host iter l eng cont [f] eng1 [g] [?es] (\<lambda>e. True) ?es"
    using g es(1) name diff fid(1) by (auto simp: rewritten_def on_disk_def paths_def eng1_def content_ok_def)
  moreover have "last_file_id eng1 \<le> last_file_id eng + int (eng_count eng cont)" using tot es1 by (simp add: eng1_def)
  moreover have "\<forall>path \<in> paths [f]. data_folder eng1 path = None" using diff by (simp add: paths_def eng1_def FilePath_inj)
  ultimately have "staging host iter l eng cont [f] eng1 [g] [?es] (\<lambda>e. True) ?es False"
    using g(4) by (simp add: staging_def total_count_def total_size_def)
  then show ?thesis using move by blast
qed

lemma pick_single:
  assumes "length (pick_files m l) = 1"
  shows "pick_files m l = [hd (lm_at m l)]"
  using assms by (auto simp: pick_files_def Let_def split: prod.splits)

lemma compact_round_ok:
  assumes ok: "eng_ok host iter eng cont" and disk: "disk_ok host iter eng cont" and it: "iterates iter"
    and l: "0 \<le> l" "l + 1 < 2 ^ 31" and ne: "lm_at (level_files eng) l \<noteq> []"
    and size: "eng_size eng cont < 2 ^ 28" and last: "last_file_id eng + int (eng_count eng cont) < 10 ^ 8"
  shows "\<exists>eng' cont' N P. compact_round host iter buffer_size eng l = Some eng' \<and>
    round_post host iter l eng cont eng' cont' (pick_files (level_files eng) l) N P \<and>
    (length (pick_files (level_files eng) l) \<noteq> 1 \<longrightarrow> P = (\<lambda>e. snd e \<noteq> TombValue))"
proof -
  let ?F = "pick_files (level_files eng) l"
  note sel = pick_files_selection [OF ok l(1) ne]
  show ?thesis
  proof (cases "length ?F = 1")
    case True
    then have F: "?F = [hd (lm_at (level_files eng) l)]" by (rule pick_single)
    have "level_id (hd (lm_at (level_files eng) l)) = l" using at_level(2) [OF ok] hd_in_set [OF ne] by blast
    moreover have "hd (lm_at (level_files eng) l) \<in> set (all_files eng)" using at_level(1) [OF ok] hd_in_set [OF ne] by blast
    ultimately obtain N eng1 chunks out where m: "move_files ?F eng = Some (N, eng1)" "staging host iter l eng cont ?F eng1 N chunks (\<lambda>e. True) out False"
      using move_staging [OF ok disk _ l _ last] unfolding F by blast
    then have "compact_round host iter buffer_size eng l = Some (UpdateMapAfterCompaction N ?F False eng1)"
      using True by (simp add: compact_round_def TrivialMove_def Let_def)
    with staging_round [OF ok disk sel(1) l m(2)] True show ?thesis by blast
  next
    case False
    obtain N eng1 chunks out where n: "NWayCompaction host iter buffer_size eng ?F l = Some (N, eng1)"
      "staging host iter l eng cont ?F eng1 N chunks (\<lambda>e. snd e \<noteq> TombValue) out True"
      using NWay_staging [OF ok it sel(1) l size last, of buffer_size] by blast
    then have "compact_round host iter buffer_size eng l = Some (UpdateMapAfterCompaction N ?F True eng1)"
      using False by (simp add: compact_round_def Let_def)
    with staging_round [OF ok disk sel(1) l n(2)] show ?thesis by blast
  qed
qed


section \<open>Compaction ends\<close>

text \<open>Every round moves entries one level down, so that this sum decreases.\<close>

definition potential :: "int \<Rightarrow> StorageEngine \<Rightarrow> (int \<Rightarrow> kv list) \<Rightarrow> nat" where
  "potential K eng cont = (\<Sum>f \<in> set (all_files eng). length (cont (file_id f)) * nat (K - level_id f))"

lemma round_sum:
  assumes r: "round_post host iter l eng cont eng' cont' F N P"
  shows "(\<Sum>f \<in> set (all_files eng'). g f (cont' (file_id f))) + (\<Sum>f \<in> set F. g f (cont (file_id f))) =
    (\<Sum>f \<in> set (all_files eng). g f (cont (file_id f))) + (\<Sum>f \<in> set N. g f (cont' (file_id f)) :: nat)"
proof -
  let ?S = "set (all_files eng)"
  have rep: "replacement host iter l eng cont F N cont' P" and all: "set (all_files eng') = (?S - set F) \<union> set N" and dj: "set N \<inter> ?S = {}"
    using r by (simp_all add: round_post_def)
  have F: "set F \<subseteq> ?S" using replacementD(2) [OF rep] by (simp add: selection_def)
  have "(\<Sum>f \<in> set (all_files eng'). g f (cont' (file_id f))) = (\<Sum>f \<in> ?S - set F. g f (cont' (file_id f))) + (\<Sum>f \<in> set N. g f (cont' (file_id f)))"
    unfolding all using dj by (intro sum.union_disjoint) auto
  moreover have "(\<Sum>f \<in> ?S - set F. g f (cont' (file_id f))) = (\<Sum>f \<in> ?S - set F. g f (cont (file_id f)))"
    using replacementD(3) [OF rep] by (intro sum.cong) auto
  moreover have "(\<Sum>f \<in> ?S. g f (cont (file_id f))) = (\<Sum>f \<in> ?S - set F. g f (cont (file_id f))) + (\<Sum>f \<in> set F. g f (cont (file_id f)))"
    using sum.subset_diff [OF F, of "\<lambda>f. g f (cont (file_id f))"] by simp
  ultimately show ?thesis by simp
qed

lemma round_totals:
  assumes r: "round_post host iter l eng cont eng' cont' F N P" and f: "f \<in> set F" "level_id f = l" and K: "l < K"
  shows "eng_count eng' cont' \<le> eng_count eng cont" "eng_size eng' cont' \<le> eng_size eng cont" "potential K eng' cont' < potential K eng cont"
proof -
  have rep: "replacement host iter l eng cont F N cont' P" using r by (simp add: round_post_def)
  note d = replacementD [OF rep]
  show "eng_count eng' cont' \<le> eng_count eng cont" "eng_size eng' cont' \<le> eng_size eng cont"
    using round_sum [OF r, of "\<lambda>f es. length es"] round_sum [OF r, of "\<lambda>f es. length (entries_of es)"] r
    by (simp_all add: round_post_def eng_count_def eng_size_def)
  let ?c = "nat (K - (l + 1))" and ?n = "\<lambda>f. length (cont (file_id f))"
  have "(\<Sum>f \<in> set N. length (cont' (file_id f)) * nat (K - level_id f)) = (\<Sum>f \<in> set N. length (cont' (file_id f))) * ?c"
    using d(5) by (simp add: sum_distrib_right)
  also have "\<dots> \<le> (\<Sum>f \<in> set F. ?n f) * ?c" using r by (intro mult_le_mono1) (simp add: round_post_def)
  also have "\<dots> = (\<Sum>f \<in> set F. ?n f * ?c)" by (simp add: sum_distrib_right)
  also have "\<dots> < (\<Sum>f \<in> set F. ?n f * nat (K - level_id f))"
  proof (rule sum_strict_mono_ex1)
    show "\<forall>g \<in> set F. ?n g * ?c \<le> ?n g * nat (K - level_id g)" using d(2) by (auto simp: selection_def)
    have "f \<in> set (all_files eng)" using d(2) f(1) by (auto simp: selection_def)
    then have "content_ok (cont (file_id f))" using eng_file(1) [OF d(1)] by (simp add: file_ok_def holds_image_def)
    then have "0 < ?n f" by (simp add: content_ok_def)
    then show "\<exists>g \<in> set F. ?n g * ?c < ?n g * nat (K - level_id g)" using f K by (intro bexI [of _ f]) auto
  qed simp
  finally show "potential K eng' cont' < potential K eng cont"
    using round_sum [OF r, of "\<lambda>f es. length es * nat (K - level_id f)"] by (simp add: potential_def)
qed

text \<open>The number of files of a level.\<close>

lemma level_length:
  assumes "eng_ok host iter eng cont"
  shows "length (lm_at (level_files eng) j) = card {f \<in> set (all_files eng). level_id f = j}"
proof -
  have "level_list j (lm_at (level_files eng) j)" using assms by (simp add: eng_ok_levels levels_ok_def)
  then have "distinct (lm_at (level_files eng) j)" by (simp add: level_list_def distinct_map)
  moreover have "set (lm_at (level_files eng) j) = {f \<in> set (all_files eng). level_id f = j}"
    using at_level [OF assms] eng_file(2) [OF assms] by blast
  ultimately show ?thesis by (metis distinct_card)
qed

lemma files_le_count:
  assumes "eng_ok host iter eng cont"
  shows "length (lm_at (level_files eng) j) \<le> eng_count eng cont"
proof -
  have "card {f \<in> set (all_files eng). level_id f = j} \<le> card (set (all_files eng))" by (intro card_mono) auto
  also have "\<dots> = (\<Sum>f \<in> set (all_files eng). 1)" by simp
  also have "\<dots> \<le> eng_count eng cont"
    unfolding eng_count_def
  proof (rule sum_mono)
    fix f assume "f \<in> set (all_files eng)"
    then have "content_ok (cont (file_id f))" using eng_file(1) [OF assms] by (simp add: file_ok_def holds_image_def)
    then show "1 \<le> length (cont (file_id f))" by (simp add: content_ok_def Suc_le_eq)
  qed
  finally show ?thesis by (simp add: level_length [OF assms])
qed

text \<open>The levels with more files than their limit.\<close>

definition over :: "StorageEngine \<Rightarrow> int set" where
  "over eng = {j. size_gt (length (lm_at (level_files eng) j)) (level0_files_number_limit eng * 10 ^ nat j)}"

lemma round_over:
  assumes r: "round_post host iter l eng cont eng' cont' F N P"
  shows "over eng' \<subseteq> over eng \<union> {l, l + 1}"
proof -
  have rep: "replacement host iter l eng cont F N cont' P" and ok': "eng_ok host iter eng' cont'"
    and all: "set (all_files eng') = (set (all_files eng) - set F) \<union> set N" using r by (simp_all add: round_post_def)
  note d = replacementD [OF rep]
  have F: "\<forall>f \<in> set F. level_id f = l \<or> level_id f = l + 1" using d(2) by (simp add: selection_def)
  have "length (lm_at (level_files eng') j) = length (lm_at (level_files eng) j)" if "j \<noteq> l" "j \<noteq> l + 1" for j
  proof -
    have "{f \<in> set (all_files eng'). level_id f = j} = {f \<in> set (all_files eng). level_id f = j}" unfolding all using F d(5) that by auto
    then show ?thesis by (simp add: level_length [OF ok'] level_length [OF d(1)])
  qed
  then show ?thesis using r by (auto simp: over_def round_post_def)
qed

end
