(* ===== verification/Compaction_Total.thy ===== *)
theory Compaction_Total
  imports Compaction_Rounds
begin

text \<open>
  \<^verbatim>\<open>Compact\<close> as a whole: it ends, it keeps the invariant of the engine and the values of all live keys, and it
  brings every level back under its limit.
\<close>

section \<open>The recursion\<close>

text \<open>
  \<open>C\<close> bounds the number of entries.  A round at level \<open>l\<close> needs more than \<open>10^l\<close> files, so with \<open>C \<le> 10^K\<close> rounds
  happen above level \<open>K\<close> only, and there are at most \<open>potential\<close> many, each using at most \<open>C\<close> file ids.
\<close>

definition compact_pre :: "host \<Rightarrow> iteration \<Rightarrow> nat \<Rightarrow> nat \<Rightarrow> StorageEngine \<Rightarrow> (int \<Rightarrow> kv list) \<Rightarrow> bool" where
  "compact_pre host iter C K eng cont \<longleftrightarrow> eng_ok host iter eng cont \<and> disk_ok host iter eng cont \<and>
    1 \<le> level0_files_number_limit eng \<and> eng_size eng cont < 2 ^ 28 \<and> eng_count eng cont \<le> C \<and> C \<le> 10 ^ K \<and> K < 2 ^ 30 \<and>
    last_file_id eng + int (C * potential (int K) eng cont) < 10 ^ 8"

definition keeps_live :: "StorageEngine \<Rightarrow> (int \<Rightarrow> kv list) \<Rightarrow> StorageEngine \<Rightarrow> (int \<Rightarrow> kv list) \<Rightarrow> bool" where
  "keeps_live eng cont eng' cont' \<longleftrightarrow> (\<forall>k. eng_lookup eng cont k \<noteq> Some TombValue \<longrightarrow> eng_lookup eng' cont' k = eng_lookup eng cont k)"

text \<open>What a round, and so the whole of \<^verbatim>\<open>Compact\<close>, keeps or does not increase.\<close>

definition settles :: "nat \<Rightarrow> nat \<Rightarrow> StorageEngine \<Rightarrow> (int \<Rightarrow> kv list) \<Rightarrow> StorageEngine \<Rightarrow> (int \<Rightarrow> kv list) \<Rightarrow> bool" where
  "settles C K eng cont eng' cont' \<longleftrightarrow> keeps_live eng cont eng' cont' \<and> level0_files_number_limit eng' = level0_files_number_limit eng \<and>
    leftover eng' \<subseteq> leftover eng \<and> potential (int K) eng' cont' \<le> potential (int K) eng cont \<and>
    eng_count eng' cont' \<le> eng_count eng cont \<and> eng_size eng' cont' \<le> eng_size eng cont \<and>
    last_file_id eng' + int (C * potential (int K) eng' cont') \<le> last_file_id eng + int (C * potential (int K) eng cont)"

lemma settles_refl: "settles C K eng cont eng cont"
  by (simp add: settles_def keeps_live_def)

lemma settles_trans: "settles C K e1 c1 e2 c2 \<Longrightarrow> settles C K e2 c2 e3 c3 \<Longrightarrow> settles C K e1 c1 e3 c3"
  unfolding settles_def keeps_live_def by (auto intro: order_trans)

lemma limit_ge: "(10 :: int) ^ n \<le> lim * 10 ^ n" if "1 \<le> lim"
  using mult_right_mono [OF that, of "10 ^ n"] by (simp only: mult_1) simp

text \<open>A level over its limit is not deep.\<close>

lemma over_level:
  assumes pre: "compact_pre host iter C K eng cont" and o: "l \<in> over eng" and l: "0 \<le> l"
  shows "lm_at (level_files eng) l \<noteq> []" "l < int K" "level0_files_number_limit eng * 10 ^ nat l < int C"
proof -
  have ok: "eng_ok host iter eng cont" and lim: "1 \<le> level0_files_number_limit eng" and C: "eng_count eng cont \<le> C" "C \<le> 10 ^ K"
    using pre by (simp_all add: compact_pre_def)
  let ?n = "length (lm_at (level_files eng) l)" and ?lim = "level0_files_number_limit eng * 10 ^ nat l"
  have gt: "?lim < int ?n" "0 \<le> ?lim" using o by (simp_all add: over_def size_gt_def)
  then show "lm_at (level_files eng) l \<noteq> []" by auto
  have "int ?n \<le> int C" using files_le_count [OF ok, of l] C(1) by simp
  with gt show "?lim < int C" by simp
  moreover have "int C \<le> 10 ^ K" using C(2) by (metis of_nat_le_iff of_nat_numeral of_nat_power)
  moreover note limit_ge [OF lim, of "nat l"]
  ultimately have "(10 :: int) ^ nat l < 10 ^ K" by linarith
  then show "l < int K" by simp
qed

lemma round_pre:
  assumes pre: "compact_pre host iter C K eng cont" and it: "iterates iter" and o: "l \<in> over eng" and l: "0 \<le> l"
  shows "\<exists>eng' cont'. compact_round host iter buffer_size eng l = Some eng' \<and> compact_pre host iter C K eng' cont' \<and>
    settles C K eng cont eng' cont' \<and> potential (int K) eng' cont' < potential (int K) eng cont \<and> over eng' \<subseteq> over eng \<union> {l, l + 1} \<and> int C \<le> 10 ^ 8"
proof -
  let ?K = "int K"
  note ov = over_level [OF pre o l]
  have ok: "eng_ok host iter eng cont" and disk: "disk_ok host iter eng cont" and size: "eng_size eng cont < 2 ^ 28" and C: "eng_count eng cont \<le> C"
    and K: "K < 2 ^ 30" and last: "last_file_id eng + int (C * potential ?K eng cont) < 10 ^ 8"
    using pre by (simp_all add: compact_pre_def)
  let ?F = "pick_files (level_files eng) l" and ?f = "hd (lm_at (level_files eng) l)"
  have f: "?f \<in> set ?F" "?f \<in> set (all_files eng)" "level_id ?f = l"
    using pick_files_selection(2) [OF ok l ov(1)] at_level [OF ok] hd_in_set [OF ov(1)] by blast+
  have "content_ok (cont (file_id ?f))" using eng_file(1) [OF ok f(2)] by (simp add: file_ok_def holds_image_def)
  then have "0 < length (cont (file_id ?f)) * nat (?K - level_id ?f)" using f(3) ov(2) by (simp add: content_ok_def)
  then have pos: "1 \<le> potential ?K eng cont" unfolding potential_def using f(2) by (metis (mono_tags, lifting) List.finite_set Suc_le_eq One_nat_def sum_pos2 zero_le)
  have "C * 1 \<le> C * potential ?K eng cont" using pos by (intro mult_le_mono2) simp_all
  then have lC: "last_file_id eng + int C < 10 ^ 8" using last by linarith
  then have C8: "int C \<le> 10 ^ 8" using ok by (simp add: eng_ok_def)
  obtain eng' cont' N P where r: "compact_round host iter buffer_size eng l = Some eng'" "round_post host iter l eng cont eng' cont' ?F N P"
    using compact_round_ok [OF ok disk it l _ ov(1) size, of buffer_size] lC C K ov(2) by auto
  note tot = round_totals [OF r(2) f(1,3), of ?K]
  have post: "eng_ok host iter eng' cont'" "disk_ok host iter eng' cont'" "level0_files_number_limit eng' = level0_files_number_limit eng"
    "last_file_id eng' \<le> last_file_id eng + int (eng_count eng cont)" "leftover eng' \<subseteq> leftover eng" using r(2) by (simp_all add: round_post_def)
  have lt: "potential ?K eng' cont' < potential ?K eng cont" using tot(3) ov(2) by simp
  have "C * (potential ?K eng' cont' + 1) \<le> C * potential ?K eng cont" using lt by (intro mult_le_mono2) simp_all
  then have "C * potential ?K eng' cont' + C \<le> C * potential ?K eng cont" by (simp add: distrib_left)
  then have le: "last_file_id eng' + int (C * potential ?K eng' cont') \<le> last_file_id eng + int (C * potential ?K eng cont)" using post(4) C by linarith
  have cs: "eng_count eng' cont' \<le> eng_count eng cont" "eng_size eng' cont' \<le> eng_size eng cont" using tot(1,2) ov(2) by auto
  then have "compact_pre host iter C K eng' cont'" using post pre le last unfolding compact_pre_def by simp
  moreover have "keeps_live eng cont eng' cont'" using r(2) replaced_lookup(1) unfolding keeps_live_def round_post_def by blast
  then have "settles C K eng cont eng' cont'" using post(3,5) lt le cs by (simp add: settles_def)
  ultimately show ?thesis using r(1) lt round_over [OF r(2)] C8 by blast
qed

lemma Compact_total:
  assumes "compact_pre host iter C K eng cont" "iterates iter" "0 \<le> l" "level0_files_number_limit eng * 10 ^ nat l < 2 ^ 31"
  shows "\<exists>eng' cont'. Compact host iter buffer_size eng l = Some eng' \<and> compact_pre host iter C K eng' cont' \<and> settles C K eng cont eng' cont' \<and>
    (over eng \<subseteq> {l, l + 1} \<longrightarrow> over eng' \<subseteq> {l + 1}) \<and> (over eng \<subseteq> {l} \<longrightarrow> over eng' = {})"
  using assms
proof (induction "potential (int K) eng cont" arbitrary: eng cont l rule: less_induct)
  case less
  let ?lim = "level0_files_number_limit eng"
  have "(10 :: int) ^ nat l \<le> ?lim * 10 ^ nat l" by (rule limit_ge) (use less.prems(1) in \<open>simp add: compact_pre_def\<close>)
  moreover have "(0 :: int) \<le> 10 ^ nat l" by simp
  ultimately have "int_ok (10 ^ nat l)" "int_ok (?lim * 10 ^ nat l)" using less.prems(4) unfolding int_ok_def by linarith+
  then have lim: "level_limit eng l = Some (?lim * 10 ^ nat l)" by (simp add: level_limit_def)
  show ?case
  proof (cases "l \<in> over eng")
    case False
    then have "Compact host iter buffer_size eng l = Some eng" by (subst Compact.simps) (simp add: lim over_def)
    then show ?thesis using less.prems(1) False settles_refl by blast
  next
    case True
    obtain eng1 cont1 where 1: "compact_round host iter buffer_size eng l = Some eng1" "compact_pre host iter C K eng1 cont1"
      "settles C K eng cont eng1 cont1" "potential (int K) eng1 cont1 < potential (int K) eng cont" "over eng1 \<subseteq> over eng \<union> {l, l + 1}" "int C \<le> 10 ^ 8"
      using round_pre [OF less.prems(1,2) True less.prems(3)] by blast
    have lim1: "level0_files_number_limit eng1 = ?lim" using 1(3) by (simp add: settles_def)
    obtain eng2 cont2 where 2: "Compact host iter buffer_size eng1 l = Some eng2" "compact_pre host iter C K eng2 cont2"
      "settles C K eng1 cont1 eng2 cont2" "over eng1 \<subseteq> {l, l + 1} \<longrightarrow> over eng2 \<subseteq> {l + 1}"
      using less.hyps [OF 1(4,2) less.prems(2,3)] less.prems(4) lim1 by auto
    have lim2: "level0_files_number_limit eng2 = ?lim" and pot2: "potential (int K) eng2 cont2 < potential (int K) eng cont"
      using 2(3) lim1 1(4) by (simp_all add: settles_def)
    have "?lim * 10 ^ nat (l + 1) = 10 * (?lim * 10 ^ nat l)" using less.prems(3) by (simp add: nat_add_distrib)
    also have "\<dots> < 2 ^ 31" using over_level(3) [OF less.prems(1) True less.prems(3)] 1(6) by simp
    finally have "level0_files_number_limit eng2 * 10 ^ nat (l + 1) < 2 ^ 31" unfolding lim2 .
    then obtain eng3 cont3 where 3: "Compact host iter buffer_size eng2 (l + 1) = Some eng3" "compact_pre host iter C K eng3 cont3"
      "settles C K eng2 cont2 eng3 cont3" "over eng2 \<subseteq> {l + 1} \<longrightarrow> over eng3 = {}"
      using less.hyps [OF pot2 2(2) less.prems(2), of "l + 1"] less.prems(3) by auto
    have "Compact host iter buffer_size eng l = Some eng3"
      using True 1(1) 2(1) 3(1) by (subst Compact.simps) (simp add: lim over_def)
    moreover have "settles C K eng cont eng3 cont3" by (rule settles_trans [OF 1(3) settles_trans [OF 2(3) 3(3)]])
    moreover have "over eng \<subseteq> {l, l + 1} \<longrightarrow> over eng3 = {}" using 1(5) 2(4) 3(4) by blast
    ultimately show ?thesis using 3(2) by auto
  qed
qed

end
