(* ===== verification/Compaction_Thread.thy ===== *)
theory Compaction_Thread
  imports Database Compaction
begin

text \<open>
  \<^verbatim>\<open>db/data_base.cpp\<close> with both background threads: the compaction thread (\<^verbatim>\<open>ProcessingLoopCompact\<close>, and \<^verbatim>\<open>Compact\<close> of
  \<^verbatim>\<open>db/storage_engine.cpp\<close> with its steps apart), interleaved with clients and the flush thread.

  \<^verbatim>\<open>Compact\<close> copies the level map under the read lock and decides on the copy; it merges or moves the
  chosen files without a lock; and it exchanges them in the maps under the write lock.  These are its three
  steps; between them lookups see the old files and the flush thread may open, write and add files of level 0.  The two recursive calls
  at the end of a round are a stack of levels still to visit.  The merge reads files that do not change and takes file
  ids; it is one step.
\<close>

section \<open>The thread\<close>

datatype compact_pc =
    CWait
  | CLevels "int list"
  | CPicked int "File list" "int list"
  | CStaged int "File list" "File list" bool "int list"
  | CDone

text \<open>As in the flush thread, a step in the waiting state is a turn of the loop after its wait returned.\<close>

definition compact_thread_step :: "host \<Rightarrow> iteration \<Rightarrow> DataBase \<Rightarrow> compact_pc \<Rightarrow> (DataBase \<times> compact_pc) option" where
  "compact_thread_step host iter db pc =
    (let eng = db_engine db in
     case pc of
       CWait \<Rightarrow> Some (db, if is_stop db then CDone else CLevels [0])
     | CLevels [] \<Rightarrow> Some (db, CWait)
     | CLevels (level # levels) \<Rightarrow>
         do { limit \<leftarrow> level_limit eng level;
              if \<not> size_gt (length (lm_at (level_files eng) level)) limit then Some (db, CLevels levels)
              else Some (db, CPicked level (pick_files (level_files eng) level) levels) }
     | CPicked level compact_files levels \<Rightarrow>
         if length compact_files = 1
         then do { (compacted_files, eng1) \<leftarrow> move_files compact_files eng;
                   Some (db\<lparr>db_engine := eng1\<rparr>, CStaged level compact_files compacted_files False levels) }
         else do { (compacted_files, eng1) \<leftarrow> NWayCompaction host iter (BufferSize (db_buffer db)) eng compact_files level;
                   Some (db\<lparr>db_engine := eng1\<rparr>, CStaged level compact_files compacted_files True levels) }
     | CStaged level compact_files compacted_files need_remove_file levels \<Rightarrow>
         Some (db\<lparr>db_engine := UpdateMapAfterCompaction compacted_files compact_files need_remove_file eng\<rparr>,
               CLevels (level # (level + 1) # levels))
     | CDone \<Rightarrow> Some (db, CDone))"

text \<open>The thread on its own.\<close>

fun compact_thread_run :: "host \<Rightarrow> iteration \<Rightarrow> nat \<Rightarrow> DataBase \<times> compact_pc \<Rightarrow> (DataBase \<times> compact_pc) option" where
  "compact_thread_run host iter 0 s = Some s"
| "compact_thread_run host iter (Suc n) s =
    do { s1 \<leftarrow> compact_thread_step host iter (fst s) (snd s); compact_thread_run host iter n s1 }"


section \<open>Runs of all threads\<close>

datatype sys_op = Op db_op | CompactStep

fun sys_step :: "host \<Rightarrow> iteration \<Rightarrow> sys_op \<Rightarrow> DataBase \<times> compact_pc \<Rightarrow> (db_output \<times> DataBase \<times> compact_pc) option" where
  "sys_step host iter (Op op) s = do { (out, db) \<leftarrow> db_step host iter op (fst s); Some (out, db, snd s) }"
| "sys_step host iter CompactStep s = do { s1 \<leftarrow> compact_thread_step host iter (fst s) (snd s); Some (Done, s1) }"

fun sys_run :: "host \<Rightarrow> iteration \<Rightarrow> sys_op list \<Rightarrow> DataBase \<times> compact_pc \<Rightarrow> (db_output list \<times> DataBase \<times> compact_pc) option" where
  "sys_run host iter [] s = Some ([], s)"
| "sys_run host iter (op # ops) s =
    do { (out, s1) \<leftarrow> sys_step host iter op s; (outs, s2) \<leftarrow> sys_run host iter ops s1; Some (out # outs, s2) }"

text \<open>What the specification of the database says: compaction is not there.\<close>

fun sys_spec_step :: "u32 \<Rightarrow> sys_op \<Rightarrow> db_spec \<Rightarrow> db_output \<times> db_spec" where
  "sys_spec_step limit (Op op) a = ds_step limit op a"
| "sys_spec_step limit CompactStep a = (Done, a)"

fun sys_spec :: "u32 \<Rightarrow> sys_op list \<Rightarrow> db_spec \<Rightarrow> db_output list \<times> db_spec" where
  "sys_spec limit [] a = ([], a)"
| "sys_spec limit (op # ops) a =
    (let (out, a1) = sys_spec_step limit op a; (outs, a2) = sys_spec limit ops a1 in (out # outs, a2))"

text \<open>A lookup agrees with the specification unless the key is deleted there.\<close>

fun agrees :: "db_output \<Rightarrow> db_output \<Rightarrow> bool" where
  "agrees (Got r) (Got r') \<longleftrightarrow> r' = Some TombValue \<or> r = r'"
| "agrees Done Done \<longleftrightarrow> True"
| "agrees _ _ \<longleftrightarrow> False"

fun client_ops :: "sys_op list \<Rightarrow> db_op list" where
  "client_ops [] = []"
| "client_ops (Op op # ops) = op # client_ops ops"
| "client_ops (CompactStep # ops) = client_ops ops"


section \<open>The thread on its own is \<^verbatim>\<open>Compact\<close>\<close>

lemma compact_thread_run_add:
  "compact_thread_run host iter (m + n) s = do { s1 \<leftarrow> compact_thread_run host iter m s; compact_thread_run host iter n s1 }"
  by (induction m arbitrary: s) (auto split: bind_splits)

text \<open>A round is three steps.\<close>

lemma thread_round:
  assumes limit: "level_limit (db_engine db) level = Some limit" "size_gt (length (lm_at (level_files (db_engine db)) level)) limit"
    and run: "compact_round host iter (BufferSize (db_buffer db)) (db_engine db) level = Some eng'"
  shows "compact_thread_run host iter 3 (db, CLevels (level # levels)) = Some (db\<lparr>db_engine := eng'\<rparr>, CLevels (level # (level + 1) # levels))"
  using assms unfolding compact_round_def TrivialMove_def Let_def numeral_3_eq_3 compact_thread_run.simps
  by (auto simp: compact_thread_step_def Let_def split: if_splits bind_splits)

definition thread_reaches :: "host \<Rightarrow> iteration \<Rightarrow> u32 \<Rightarrow> StorageEngine \<Rightarrow> int \<Rightarrow> StorageEngine \<Rightarrow> bool" where
  "thread_reaches host iter bsize eng level eng' \<longleftrightarrow>
    (\<forall>db levels. db_engine db = eng \<longrightarrow> bsize = BufferSize (db_buffer db) \<longrightarrow>
      (\<exists>n. compact_thread_run host iter n (db, CLevels (level # levels)) = Some (db\<lparr>db_engine := eng'\<rparr>, CLevels levels)))"

lemma thread_reachesD:
  assumes "thread_reaches host iter bsize eng level eng'" "bsize = BufferSize (db_buffer db)"
  shows "\<exists>n. compact_thread_run host iter n (db\<lparr>db_engine := eng\<rparr>, CLevels (level # levels)) = Some (db\<lparr>db_engine := eng'\<rparr>, CLevels levels)"
  using assms(1) [unfolded thread_reaches_def, rule_format, of "db\<lparr>db_engine := eng\<rparr>" levels] assms(2) by simp

lemma thread_reaches_here:
  assumes "level_limit eng level = Some limit" "\<not> size_gt (length (lm_at (level_files eng) level)) limit"
  shows "thread_reaches host iter bsize eng level eng"
  unfolding thread_reaches_def using assms by (intro allI impI exI [of _ 1]) (auto simp: compact_thread_step_def Let_def)

lemma thread_reaches_round:
  assumes "level_limit eng level = Some limit" "size_gt (length (lm_at (level_files eng) level)) limit"
    and round: "compact_round host iter bsize eng level = Some eng1"
    and rest: "thread_reaches host iter bsize eng1 level eng2" "thread_reaches host iter bsize eng2 (level + 1) eng3"
  shows "thread_reaches host iter bsize eng level eng3"
  unfolding thread_reaches_def
proof (intro allI impI)
  fix db :: DataBase and levels assume db: "db_engine db = eng" "bsize = BufferSize (db_buffer db)"
  let ?s = "\<lambda>e. db\<lparr>db_engine := e\<rparr>"
  have 1: "compact_thread_run host iter 3 (db, CLevels (level # levels)) = Some (?s eng1, CLevels (level # (level + 1) # levels))"
    using thread_round [of db level limit host iter eng1 levels] assms(1-3) db by simp
  obtain m where 2: "compact_thread_run host iter m (?s eng1, CLevels (level # (level + 1) # levels)) = Some (?s eng2, CLevels ((level + 1) # levels))"
    using thread_reachesD [OF rest(1) db(2)] by blast
  obtain n where 3: "compact_thread_run host iter n (?s eng2, CLevels ((level + 1) # levels)) = Some (?s eng3, CLevels levels)"
    using thread_reachesD [OF rest(2) db(2)] by blast
  have "compact_thread_run host iter (3 + (m + n)) (db, CLevels (level # levels)) = Some (?s eng3, CLevels levels)"
    by (simp only: compact_thread_run_add 1 2 3 Option.bind.simps)
  then show "\<exists>n. compact_thread_run host iter n (db, CLevels (level # levels)) = Some (?s eng3, CLevels levels)" ..
qed

lemma thread_reaches_Compact:
  assumes "Compact host iter bsize eng level = Some eng'"
  shows "thread_reaches host iter bsize eng level eng'"
  using _ assms
proof (rule Compact.raw_induct [of thread_reaches])
  fix f host iter bsize eng level eng'
  assume IH: "\<And>host iter bsize eng level eng'. f host iter bsize eng level = Some eng' \<Longrightarrow> thread_reaches host iter bsize eng level eng'"
    and body: "do { limit \<leftarrow> level_limit eng level;
         if \<not> size_gt (length (lm_at (level_files eng) level)) limit then Some eng
         else do { eng1 \<leftarrow> compact_round host iter bsize eng level; eng2 \<leftarrow> f host iter bsize eng1 level; f host iter bsize eng2 (level + 1) } } = Some eng'"
  obtain limit where limit: "level_limit eng level = Some limit" using body by (cases "level_limit eng level") auto
  show "thread_reaches host iter bsize eng level eng'"
  proof (cases "size_gt (length (lm_at (level_files eng) level)) limit")
    case False
    with body limit thread_reaches_here [OF limit False] show ?thesis by simp
  next
    case True
    then obtain eng1 eng2 where "compact_round host iter bsize eng level = Some eng1" "f host iter bsize eng1 level = Some eng2"
      "f host iter bsize eng2 (level + 1) = Some eng'" using body limit by (auto split: bind_splits)
    with thread_reaches_round [OF limit True] IH show ?thesis by blast
  qed
qed



section \<open>Properties\<close>



end
