(* ===== verification/Staged_Correct.thy ===== *)
theory Staged_Correct
  imports Compaction_Total Compaction_Thread
begin

text \<open>
  What the compaction thread relies on between its steps, and that the flush thread keeps it: files that were
  chosen or rewritten stay so while a new file is opened, written and added to level 0.
\<close>

section \<open>A compaction under way\<close>

text \<open>The new files are written and the maps are still the old ones; \<open>b\<close> is whether the old files are still to be removed.\<close>

definition staged :: "host \<Rightarrow> iteration \<Rightarrow> int \<Rightarrow> StorageEngine \<Rightarrow> (int \<Rightarrow> kv list) \<Rightarrow> File list \<Rightarrow> File list \<Rightarrow> bool \<Rightarrow> bool" where
  "staged host iter l eng cont F N b \<longleftrightarrow>
    (\<exists>chunks P out. rewritten host iter l eng cont F eng N chunks P out \<and>
      length out \<le> total_count (map (\<lambda>f. cont (file_id f)) F) \<and> length (entries_of out) \<le> total_size (map (\<lambda>f. cont (file_id f)) F) \<and>
      (b \<or> (\<forall>path \<in> paths F. data_folder eng path = None)))"

definition levels_inv :: "StorageEngine \<Rightarrow> int list \<Rightarrow> bool" where
  "levels_inv eng levels \<longleftrightarrow> 1 \<le> level0_files_number_limit eng \<and>
    (\<forall>l \<in> set levels. 0 \<le> l \<and> level0_files_number_limit eng * 10 ^ nat l < 2 ^ 31)"

definition compact_inv :: "host \<Rightarrow> iteration \<Rightarrow> StorageEngine \<Rightarrow> (int \<Rightarrow> kv list) \<Rightarrow> compact_pc \<Rightarrow> bool" where
  "compact_inv host iter eng cont pc \<longleftrightarrow>
    (case pc of
       CWait \<Rightarrow> levels_inv eng [0]
     | CLevels levels \<Rightarrow> levels_inv eng (0 # levels)
     | CPicked l F levels \<Rightarrow> levels_inv eng (0 # l # (l + 1) # levels) \<and> selection l eng F \<and> (\<exists>f \<in> set F. level_id f = l)
     | CStaged l F N b levels \<Rightarrow> levels_inv eng (0 # l # (l + 1) # levels) \<and> selection l eng F \<and> (\<exists>f \<in> set F. level_id f = l) \<and>
         staged host iter l eng cont F N b
     | CDone \<Rightarrow> False)"

definition taken_files :: "compact_pc \<Rightarrow> File list" where
  "taken_files pc = (case pc of CStaged l F N b levels \<Rightarrow> F | _ \<Rightarrow> [])"

definition new_files :: "compact_pc \<Rightarrow> File list" where
  "new_files pc = (case pc of CStaged l F N b levels \<Rightarrow> N | _ \<Rightarrow> [])"

lemma levels_small:
  assumes "levels_inv eng levels" "l \<in> set levels"
  shows "0 \<le> l" "l < 2 ^ 31" "level_limit eng l = Some (level0_files_number_limit eng * 10 ^ nat l)"
proof -
  let ?lim = "level0_files_number_limit eng"
  have lim: "1 \<le> ?lim" "0 \<le> l" "?lim * 10 ^ nat l < 2 ^ 31" using assms by (auto simp: levels_inv_def)
  then have p: "(10 :: int) ^ nat l < 2 ^ 31" using limit_ge [OF lim(1), of "nat l"] by linarith
  moreover have "n < 10 ^ n" for n :: nat by (induction n) auto
  then have "int (nat l) < int (10 ^ nat l)" unfolding of_nat_less_iff .
  then have "l < 10 ^ nat l" using lim(2) by simp
  ultimately show "l < 2 ^ 31" "0 \<le> l" using lim(2) by simp_all
  have "(0 :: int) \<le> 10 ^ nat l" "0 \<le> ?lim * 10 ^ nat l" using lim(1) by simp_all
  then have "int_ok (10 ^ nat l)" "int_ok (?lim * 10 ^ nat l)" using p lim(3) unfolding int_ok_def by linarith+
  then show "level_limit eng l = Some (?lim * 10 ^ nat l)" by (simp add: level_limit_def)
qed

lemma levels_inv_cong: "level0_files_number_limit eng' = level0_files_number_limit eng \<Longrightarrow> levels_inv eng' = levels_inv eng"
  by (simp add: levels_inv_def fun_eq_iff)

lemma selection_cong: "set (all_files eng') = set (all_files eng) \<Longrightarrow> selection l eng' F \<longleftrightarrow> selection l eng F"
  by (simp add: selection_def)

lemma rewritten_self:
  assumes "rewritten host iter l eng cont F eng1 N chunks P out"
  shows "rewritten host iter l eng1 cont F eng1 N chunks P out"
proof -
  have "all_files eng1 = all_files eng" using rewrittenD(1) [OF assms] by (simp add: all_files_def)
  with assms show ?thesis by (simp add: rewritten_def)
qed

lemma staging_staged: "staging host iter l eng cont F eng1 N chunks P out b \<Longrightarrow> staged host iter l eng1 cont F N b"
  unfolding staging_def staged_def using rewritten_self by blast


section \<open>The flush thread opens and writes a file\<close>

text \<open>One path of the folder changes, that of file \<open>fid\<close> of level 0; the maps do not.\<close>

definition touched :: "StorageEngine \<Rightarrow> int \<Rightarrow> StorageEngine \<Rightarrow> bool" where
  "touched eng fid eng' \<longleftrightarrow> level_files eng' = level_files eng \<and> files_map eng' = files_map eng \<and>
    level0_files_number_limit eng' = level0_files_number_limit eng \<and> last_file_id eng \<le> last_file_id eng' \<and> 0 \<le> fid \<and>
    (\<exists>name bs. FileName 0 fid = Some name \<and> data_folder eng' = (data_folder eng)(FilePath name := Some bs))"

lemma touched_path:
  assumes "touched eng fid eng'" "FileName (level_id f) (file_id f) = Some (file_name f)" "0 \<le> level_id f" "level_id f < 2 ^ 31" "0 \<le> file_id f" "file_id f \<noteq> fid"
  shows "data_folder eng' (FilePath (file_name f)) = data_folder eng (FilePath (file_name f))"
  using assms FileName_inj [of "level_id f" "file_id f" "file_name f" 0 fid] by (auto simp: touched_def FilePath_inj)

lemma touched_disk:
  assumes "touched eng fid eng'" "eng_ok host iter eng cont" "disk_except host iter F eng cont" "\<forall>f \<in> set (all_files eng). file_id f \<noteq> fid"
  shows "disk_except host iter F eng' cont"
proof -
  have "all_files eng' = all_files eng" using assms(1) by (simp add: touched_def all_files_def)
  moreover have "data_folder eng' (FilePath (file_name f)) = data_folder eng (FilePath (file_name f))" if "f \<in> set (all_files eng)" for f
    using touched_path [OF assms(1)] eng_file(1,3) [OF assms(2) that] assms(3,4) that by (auto simp: disk_except_def file_ok_def)
  ultimately show ?thesis using assms(3) by (simp add: disk_except_def on_disk_def)
qed

lemma touched_staged:
  assumes t: "touched eng fid eng'" and ok: "eng_ok host iter eng cont" and disk: "disk_except host iter F eng cont" and sel: "selection l eng F"
    and l: "0 \<le> l" "l + 1 < 2 ^ 31" and st: "staged host iter l eng cont F N b"
    and fid: "\<forall>f \<in> set (all_files eng). file_id f \<noteq> fid" "fid \<notin> file_id ` set N"
  shows "staged host iter l eng' cont F N b"
proof -
  obtain chunks P out where rw: "rewritten host iter l eng cont F eng N chunks P out"
    and sizes: "length out \<le> total_count (map (\<lambda>f. cont (file_id f)) F)" "length (entries_of out) \<le> total_size (map (\<lambda>f. cont (file_id f)) F)"
    and gone: "b \<or> (\<forall>path \<in> paths F. data_folder eng path = None)"
    using st by (auto simp: staged_def)
  note d = rewrittenD [OF rw]
  have all: "all_files eng' = all_files eng" and last: "last_file_id eng \<le> last_file_id eng'" using t by (simp_all add: touched_def all_files_def)
  have F: "set F \<subseteq> set (all_files eng)" using sel by (simp add: selection_def)
  have new: "data_folder eng' (FilePath (file_name f)) = data_folder eng (FilePath (file_name f))" if f: "f \<in> set N" for f
  proof (rule touched_path [OF t])
    show "file_id f \<noteq> fid" using fid(2) f by blast
  qed (use new_file_cont(2) [OF rw f] d(6) [OF f] l in \<open>auto simp: on_disk_def\<close>)
  have "list_all2 (on_disk host iter (data_folder eng')) N chunks"
    using d(5) by (rule list.rel_mono_strong) (simp add: on_disk_def new)
  then have rw': "rewritten host iter l eng' cont F eng' N chunks P out"
    using rw last unfolding rewritten_def all by force
  have "data_folder eng' (FilePath (file_name f)) = data_folder eng (FilePath (file_name f))" if "f \<in> set F" for f
    using touched_path [OF t] eng_file(1,3) [OF ok, of f] F that disk fid(1) by (fastforce simp: disk_except_def file_ok_def)
  then have "b \<or> (\<forall>path \<in> paths F. data_folder eng' path = None)" using gone by (auto simp: paths_def)
  with rw' sizes show ?thesis by (auto simp: staged_def)
qed

lemma touched_compact_inv:
  assumes t: "touched eng fid eng'" and ok: "eng_ok host iter eng cont" and disk: "disk_except host iter (taken_files pc) eng cont"
    and inv: "compact_inv host iter eng cont pc"
    and fid: "\<forall>f \<in> set (all_files eng). file_id f \<noteq> fid" "fid \<notin> file_id ` set (new_files pc)"
  shows "compact_inv host iter eng' cont pc"
proof -
  have lev: "levels_inv eng' = levels_inv eng" using t by (intro levels_inv_cong) (simp add: touched_def)
  have sel: "selection l eng' F \<longleftrightarrow> selection l eng F" for l F using t by (intro selection_cong) (simp add: touched_def all_files_def)
  show ?thesis
  proof (cases pc)
    case (CStaged l F N b levels)
    then have "levels_inv eng (0 # l # (l + 1) # levels)" "selection l eng F" "staged host iter l eng cont F N b" using inv by (simp_all add: compact_inv_def)
    moreover from this(1) have "0 \<le> l" "l + 1 < 2 ^ 31" using levels_small(1) [of eng _ l] levels_small(2) [of eng _ "l + 1"] by simp_all
    ultimately have "staged host iter l eng' cont F N b"
      using touched_staged [OF t ok, of F l N b] disk fid CStaged by (simp add: taken_files_def new_files_def)
    with inv CStaged show ?thesis by (simp add: compact_inv_def lev sel)
  qed (use inv in \<open>simp_all add: compact_inv_def lev sel\<close>)
qed


section \<open>The flush thread adds a file\<close>

definition entered :: "host \<Rightarrow> iteration \<Rightarrow> StorageEngine \<Rightarrow> int \<Rightarrow> kv list \<Rightarrow> File \<Rightarrow> StorageEngine \<Rightarrow> bool" where
  "entered host iter eng fid es f eng' \<longleftrightarrow> pending host iter eng fid (file_name f) es \<and> level_id f = 0 \<and> file_id f = fid \<and>
    set (all_files eng') = insert f (set (all_files eng)) \<and> data_folder eng' = data_folder eng \<and>
    last_file_id eng' = last_file_id eng \<and> level0_files_number_limit eng' = level0_files_number_limit eng"

lemma entered_disk:
  assumes "entered host iter eng fid es f eng'" "disk_except host iter F eng cont"
  shows "disk_except host iter F eng' (cont(fid := es))"
  using assms by (auto simp: entered_def disk_except_def on_disk_def pending_def)

lemma entered_selection:
  assumes e: "entered host iter eng fid es f eng'" and sel: "selection l eng F" and l: "0 \<le> l"
  shows "selection l eng' F"
proof -
  have all: "set (all_files eng') = insert f (set (all_files eng))" and f: "level_id f = 0" "file_id f = fid"
    and old: "\<And>g. g \<in> set (all_files eng) \<Longrightarrow> file_id g \<noteq> fid" "\<And>g. g \<in> set (all_files eng) \<Longrightarrow> level_id g = 0 \<Longrightarrow> file_id g < fid"
    using e by (auto simp: entered_def pending_def)
  have F: "set F \<subseteq> set (all_files eng)" using sel by (simp add: selection_def)
  have "apart g h \<or> better h g" if g: "g \<in> set F" "level_id g = l" and h: "h \<in> set (all_files eng') - set F" "level_id h = l" for g h
  proof (cases "h = f")
    case True
    with g h f have "file_id g < file_id h" using old(2) [of g] F by auto
    then show ?thesis using g h by (simp add: better_def)
  next
    case False
    then have "h \<in> set (all_files eng) - set F" using h(1) all by auto
    then show ?thesis using sel g h(2) unfolding selection_def by blast
  qed
  moreover obtain lo hi where r: "\<forall>f \<in> set F. lo \<le> lower_bound f \<and> upper_bound f \<le> hi"
    "\<forall>g \<in> set (all_files eng) - set F. level_id g = l + 1 \<longrightarrow> upper_bound g < lo \<or> hi < lower_bound g"
    using sel by (auto simp: selection_def)
  have "\<forall>g \<in> set (all_files eng') - set F. level_id g = l + 1 \<longrightarrow> upper_bound g < lo \<or> hi < lower_bound g"
    using r(2) f(1) l all by auto
  ultimately show ?thesis using sel r(1) F all unfolding selection_def by blast
qed

lemma entered_staged:
  assumes e: "entered host iter eng fid es f eng'" and sel: "selection l eng F" and st: "staged host iter l eng cont F N b"
    and fid: "fid \<notin> file_id ` set N"
  shows "staged host iter l eng' (cont(fid := es)) F N b"
proof -
  let ?c = "cont(fid := es)"
  obtain chunks P out where rw: "rewritten host iter l eng cont F eng N chunks P out"
    and sizes: "length out \<le> total_count (map (\<lambda>f. cont (file_id f)) F)" "length (entries_of out) \<le> total_size (map (\<lambda>f. cont (file_id f)) F)"
    and gone: "b \<or> (\<forall>path \<in> paths F. data_folder eng path = None)"
    using st by (auto simp: staged_def)
  have all: "set (all_files eng') = insert f (set (all_files eng))" and f: "file_id f = fid" and same: "data_folder eng' = data_folder eng" "last_file_id eng' = last_file_id eng"
    and old: "\<forall>g \<in> set (all_files eng). file_id g \<noteq> fid"
    using e by (auto simp: entered_def pending_def)
  have "set F \<subseteq> set (all_files eng)" using sel by (simp add: selection_def)
  then have cont: "map (\<lambda>f. ?c (file_id f)) F = map (\<lambda>f. cont (file_id f)) F" using old by auto
  have ids: "file_id g \<notin> file_id ` set (all_files eng')" if "g \<in> set N" for g
  proof -
    have "file_id g \<noteq> fid" using fid that by blast
    then show ?thesis using rewrittenD(6) [OF rw that] f by (auto simp: all)
  qed
  have "rewritten host iter l eng' ?c F eng' N chunks P out"
    using rw ids unfolding rewritten_def cont same by force
  then show ?thesis using sizes gone unfolding staged_def cont same by blast
qed

lemma entered_compact_inv:
  assumes e: "entered host iter eng fid es f eng'" and inv: "compact_inv host iter eng cont pc" and fid: "fid \<notin> file_id ` set (new_files pc)"
  shows "compact_inv host iter eng' (cont(fid := es)) pc"
proof -
  have lev: "levels_inv eng' = levels_inv eng" using e by (intro levels_inv_cong) (simp add: entered_def)
  have sel: "selection l eng' F" if "levels_inv eng (0 # l # (l + 1) # levels)" "selection l eng F" for l F levels
    using entered_selection [OF e that(2)] levels_small(1) [OF that(1), of l] by simp
  show ?thesis
  proof (cases pc)
    case (CStaged l F N b levels)
    then show ?thesis using inv sel [of l levels F] entered_staged [OF e, of l F cont N b] fid lev by (simp add: compact_inv_def new_files_def)
  qed (use inv sel lev in \<open>auto simp: compact_inv_def\<close>)
qed

lemma entered_totals:
  assumes "entered host iter eng fid es f eng'"
  shows "eng_count eng' (cont(fid := es)) = eng_count eng cont + length es" "eng_size eng' (cont(fid := es)) = eng_size eng cont + length (entries_of es)"
proof -
  have all: "set (all_files eng') = insert f (set (all_files eng))" and f: "file_id f = fid" "f \<notin> set (all_files eng)"
    and old: "\<And>g. g \<in> set (all_files eng) \<Longrightarrow> file_id g \<noteq> fid"
    using assms by (auto simp: entered_def pending_def)
  have "(\<Sum>g \<in> set (all_files eng'). h ((cont(fid := es)) (file_id g))) = (\<Sum>g \<in> set (all_files eng). h (cont (file_id g))) + h es" for h :: "kv list \<Rightarrow> nat"
  proof -
    have "(\<Sum>g \<in> set (all_files eng). h ((cont(fid := es)) (file_id g))) = (\<Sum>g \<in> set (all_files eng). h (cont (file_id g)))"
      using old by (intro sum.cong) auto
    then show ?thesis using f by (simp add: all)
  qed
  from this [of length] this [of "\<lambda>es. length (entries_of es)"]
  show "eng_count eng' (cont(fid := es)) = eng_count eng cont + length es" "eng_size eng' (cont(fid := es)) = eng_size eng cont + length (entries_of es)"
    by (simp_all add: eng_count_def eng_size_def)
qed

lemma entered_over:
  assumes e: "entered host iter eng fid es f eng'" and ok: "eng_ok host iter eng cont" "eng_ok host iter eng' cont'"
  shows "over eng' \<subseteq> over eng \<union> {0}"
proof -
  have "length (lm_at (level_files eng') j) = length (lm_at (level_files eng) j)" if "j \<noteq> 0" for j
  proof -
    have "{g \<in> set (all_files eng'). level_id g = j} = {g \<in> set (all_files eng). level_id g = j}" using e that by (auto simp: entered_def)
    then show ?thesis by (simp add: level_length [OF ok(1)] level_length [OF ok(2)])
  qed
  then show ?thesis using e by (auto simp: over_def entered_def)
qed


section \<open>The exchange of the files\<close>

lemma remove_other: "i \<notin> file_id ` set F \<Longrightarrow> files_map (fold remove_from_maps F eng) i = files_map eng i"
  by (induction F arbitrary: eng) (auto simp: remove_from_maps_def)

lemma exchange_keeps:
  "last_file_id (UpdateMapAfterCompaction N F b eng) = last_file_id eng"
  "path \<notin> paths F \<Longrightarrow> data_folder (UpdateMapAfterCompaction N F b eng) path = data_folder eng path"
  "i \<notin> file_id ` set F \<Longrightarrow> i \<notin> file_id ` set N \<Longrightarrow> files_map (UpdateMapAfterCompaction N F b eng) i = files_map eng i"
proof -
  have r: "last_file_id (fold remove_from_maps F eng) = last_file_id eng" "data_folder (fold remove_from_maps F eng) = data_folder eng" for eng
    by (induction F arbitrary: eng) (simp_all add: remove_from_maps_def)
  have a: "last_file_id (fold add_to_maps N eng) = last_file_id eng" "data_folder (fold add_to_maps N eng) = data_folder eng" for eng
    by (induction N arbitrary: eng) (simp_all add: add_to_maps_def)
  show "last_file_id (UpdateMapAfterCompaction N F b eng) = last_file_id eng" by (simp add: UpdateMap_parts r a)
  show "data_folder (UpdateMapAfterCompaction N F b eng) path = data_folder eng path" if "path \<notin> paths F" using that by (simp add: UpdateMap_parts r a)
  show "files_map (UpdateMapAfterCompaction N F b eng) i = files_map eng i" if "i \<notin> file_id ` set F" "i \<notin> file_id ` set N"
    using that by (simp add: UpdateMap_parts enter_other remove_other)
qed

lemma staged_exchange:
  assumes ok: "eng_ok host iter eng cont" and disk: "disk_except host iter F eng cont" and sel: "selection l eng F" and l: "0 \<le> l" "l + 1 < 2 ^ 31"
    and st: "staged host iter l eng cont F N b"
  shows "\<exists>cont' P. round_post host iter l eng cont (UpdateMapAfterCompaction N F b eng) cont' F N P \<and> (\<forall>i. i \<notin> file_id ` set N \<longrightarrow> cont' i = cont i)"
proof -
  obtain chunks P out where rw: "rewritten host iter l eng cont F eng N chunks P out"
    and sizes: "length out \<le> total_count (map (\<lambda>f. cont (file_id f)) F)" "length (entries_of out) \<le> total_size (map (\<lambda>f. cont (file_id f)) F)"
    "b \<or> (\<forall>path \<in> paths F. data_folder eng path = None)"
    using st by (auto simp: staged_def)
  have "new_cont cont N chunks i = cont i" if "i \<notin> file_id ` set N" for i
    using that list_all2_lengthD [OF rewrittenD(4) [OF rw]] by (intro new_cont_old) simp_all
  with rewritten_round [OF ok disk sel l rw _ sizes] show ?thesis by auto
qed

end
