(* ===== verification/Threads_Correct.thy ===== *)
theory Threads_Correct
  imports Staged_Correct Database_Correct
begin

text \<open>
  The database with both background threads.  \<open>sys_inv\<close> extends the invariant of the database by what the
  compaction thread relies on; client operations, steps of the flush thread and steps of the compaction thread keep it.
\<close>

section \<open>The invariant\<close>

definition flush_id :: "flush_pc \<Rightarrow> int option" where
  "flush_id pc =
    (case pc of FTop \<Rightarrow> None | FWait \<Rightarrow> None | FOpened fid name \<Rightarrow> Some fid | FWritten fid name ko \<Rightarrow> Some fid
     | FCleared fid name ko \<Rightarrow> Some fid | FCached fid name \<Rightarrow> Some fid | FDone \<Rightarrow> None)"

text \<open>The cache knows only ids that were given, and none of the new files.\<close>

definition cache_fresh :: "StorageEngine \<Rightarrow> File list \<Rightarrow> LRUCache \<Rightarrow> bool" where
  "cache_fresh eng N c \<longleftrightarrow> (\<forall>i. lru_tables c i \<noteq> None \<longrightarrow> i \<le> last_file_id eng \<and> i \<notin> file_id ` set N)"

text \<open>The entries that are not in files of the engine.\<close>

definition buffered :: "db_spec \<Rightarrow> kv list" where
  "buffered a = spec_income (ds_buffer a) @ concat (case spec_flush (ds_buffer a) of None \<Rightarrow> [] | Some es \<Rightarrow> [es]) @
    concat (case ds_limbo a of None \<Rightarrow> [] | Some es \<Rightarrow> [es])"

text \<open>The levels that may be over their limit: level 0, and those the thread has still to visit.\<close>

definition busy :: "compact_pc \<Rightarrow> int set" where
  "busy pc =
    (case pc of CWait \<Rightarrow> {0} | CLevels levels \<Rightarrow> insert 0 (set levels) | CPicked l F levels \<Rightarrow> {0, l} \<union> set levels
     | CStaged l F N b levels \<Rightarrow> {0, l} \<union> set levels | CDone \<Rightarrow> {0})"

definition sys_inv :: "host \<Rightarrow> iteration \<Rightarrow> int \<Rightarrow> u32 \<Rightarrow> int \<Rightarrow> int \<Rightarrow> nat \<Rightarrow> DataBase \<Rightarrow> compact_pc \<Rightarrow> db_spec \<Rightarrow> (int \<Rightarrow> kv list) \<Rightarrow> bool" where
  "sys_inv host iter fl limit c n m db pc a cont \<longleftrightarrow> db_inv host iter limit c n db a cont \<and>
    compact_inv host iter (db_engine db) cont pc \<and> disk_except host iter (taken_files pc) (db_engine db) cont \<and>
    (\<forall>fid. flush_id (flush_thread db) = Some fid \<longrightarrow> fid \<notin> file_id ` set (new_files pc)) \<and>
    cache_fresh (db_engine db) (new_files pc) (db_cache db) \<and>
    eng_count (db_engine db) cont + length (buffered a) \<le> m \<and>
    int (eng_size (db_engine db) cont + length (entries_of (buffered a))) \<le> c \<and> over (db_engine db) \<subseteq> busy pc \<and>
    level0_files_number_limit (db_engine db) = fl"

lemma sys_invD:
  assumes "sys_inv host iter fl limit c n m db pc a cont"
  shows "db_inv host iter limit c n db a cont" "compact_inv host iter (db_engine db) cont pc" "disk_except host iter (taken_files pc) (db_engine db) cont"
    "flush_id (flush_thread db) = Some fid \<Longrightarrow> fid \<notin> file_id ` set (new_files pc)" "cache_fresh (db_engine db) (new_files pc) (db_cache db)"
    "eng_count (db_engine db) cont + length (buffered a) \<le> m" "int (eng_size (db_engine db) cont + length (entries_of (buffered a))) \<le> c"
    "over (db_engine db) \<subseteq> busy pc" "level0_files_number_limit (db_engine db) = fl"
  using assms by (simp_all add: sys_inv_def)

lemma sys_inv_mono: "sys_inv host iter fl limit c n m db pc a cont \<Longrightarrow> n \<le> n' \<Longrightarrow> sys_inv host iter fl limit c n' m db pc a cont"
  using db_inv_mono by (auto simp: sys_inv_def)

lemma new_ids_given: "compact_inv host iter eng cont pc \<Longrightarrow> f \<in> set (new_files pc) \<Longrightarrow> file_id f \<le> last_file_id eng"
  using rewrittenD(6) by (auto simp: compact_inv_def new_files_def staged_def split: compact_pc.splits)

lemma new_ids_other:
  assumes "compact_inv host iter eng cont pc" "f \<in> set (all_files eng)"
  shows "file_id f \<notin> file_id ` set (new_files pc)"
proof (cases pc)
  case (CStaged l F N b levels)
  then obtain chunks P out where "rewritten host iter l eng cont F eng N chunks P out" using assms(1) by (auto simp: compact_inv_def staged_def)
  from new_ids [OF this assms(2)] CStaged show ?thesis by (simp add: new_files_def)
qed (simp_all add: new_files_def)


section \<open>The cache\<close>

lemma not_cached:
  assumes "\<And>t. lru.coherent (T(i := Some t)) c"
  shows "lru_tables c i = None"
proof (rule ccontr)
  assume "lru_tables c i \<noteq> None"
  then obtain t where t: "lru_tables c i = Some t" by blast
  obtain t' :: key_table where "t' \<noteq> t" by (metis fun_upd_same fun_upd_eqD option.distinct(1))
  moreover have "(T(i := Some t')) i = Some t" using assms [of t'] t unfolding lru.coherent_def by (metis fun_upd_same option.distinct(1))
  ultimately show False by simp
qed

lemma coherent_fresh: "lru.coherent T c \<Longrightarrow> lru_tables c i = None \<Longrightarrow> lru.coherent (T(i := Some t)) c"
  by (auto simp: lru.coherent_def)

text \<open>A search remembers tables of the files it visits only.\<close>

lemma search_files_fresh:
  assumes "iterates iter" "\<forall>f \<in> set files. file_ok host iter eng cont f \<and> T (file_id f) = Some (file_table (cont (file_id f)))"
    and "lru.coherent T c" "search_files host eng k files c = Some (r, c')" "i \<notin> file_id ` set files" "lru_tables c i = None"
  shows "lru_tables c' i = None"
proof (rule not_cached)
  fix t
  have "\<forall>f \<in> set files. file_ok host iter eng cont f \<and> (T(i := Some t)) (file_id f) = Some (file_table (cont (file_id f)))"
    using assms(2,5) by auto
  from search_files_correct [OF assms(1) this coherent_fresh [OF assms(3,6)], of k] assms(4)
  show "lru.coherent (T(i := Some t)) c'" by auto
qed


section \<open>Client operations\<close>

lemma put_key_length: "sorted_wrt (<) (map fst es) \<Longrightarrow> length (put_key fst e es) \<le> Suc (length es)"
  by (induction es) (auto simp: put_key_Cons)

lemma buffered_add:
  assumes sim: "sim limit c hs (ds_buffer a)"
  shows "length (buffered (a\<lparr>ds_buffer := ds_add limit k v (ds_buffer a)\<rparr>)) \<le> Suc (length (buffered a))"
    "length (entries_of (buffered (a\<lparr>ds_buffer := ds_add limit k v (ds_buffer a)\<rparr>))) \<le> length (entry_of (k, v)) + length (entries_of (buffered a))"
proof -
  note s = sim_sorted [OF sim] and idle = sim_idle [OF sim]
  show "length (buffered (a\<lparr>ds_buffer := ds_add limit k v (ds_buffer a)\<rparr>)) \<le> Suc (length (buffered a))"
    using put_key_length [OF s, of "(k, v)"] idle by (simp add: buffered_def ds_add_def Let_def)
  show "length (entries_of (buffered (a\<lparr>ds_buffer := ds_add limit k v (ds_buffer a)\<rparr>))) \<le> length (entry_of (k, v)) + length (entries_of (buffered a))"
    using put_key_entries [OF s, of "(k, v)"] idle by (simp add: buffered_def ds_add_def Let_def entries_of_append)
qed

lemma sys_add:
  assumes inv: "sys_inv host iter fl limit c n m db pc a cont" and k: "str ''00000'' \<le> k"
    and room: "c + op_cost (BAdd Put k (stored_value t v)) < 2 ^ 31"
  shows "\<exists>db'. DB_Add db t k v = Some db' \<and> sys_inv host iter fl limit (c + op_cost (BAdd Put k (stored_value t v))) n (Suc m) db' pc
    (a\<lparr>ds_buffer := ds_add limit k (stored_value t v) (ds_buffer a)\<rparr>) cont"
proof -
  let ?v = "stored_value t v" and ?a = "a\<lparr>ds_buffer := ds_add limit k (stored_value t v) (ds_buffer a)\<rparr>"
  note d = sys_invD [OF inv]
  obtain db' where db': "DB_Add db t k v = Some db'" "db_inv host iter limit (c + op_cost (BAdd Put k ?v)) n db' ?a cont"
    using db_inv_add [OF d(1) k room] by blast
  have same: "db_engine db' = db_engine db" "db_cache db' = db_cache db" "flush_thread db' = flush_thread db"
    using db'(1) by (auto simp: DB_Add_def Let_def split: bind_splits)
  have sim: "sim limit c (db_heap db, db_buffer db) (ds_buffer a)" using d(1) by (simp add: db_inv_def)
  note b = buffered_add [OF sim, of k ?v]
  have "int (length (entry_of (k, ?v))) \<le> op_cost (BAdd Put k ?v)" by (simp add: entry_of_def kBlockSize_def)
  then have "int (eng_size (db_engine db') cont + length (entries_of (buffered ?a))) \<le> c + op_cost (BAdd Put k ?v)"
    using d(7) b(2) unfolding same by linarith
  moreover have "eng_count (db_engine db') cont + length (buffered ?a) \<le> Suc m" using d(6) b(1) unfolding same by linarith
  ultimately show ?thesis using db' d(2-5,8,9) by (simp add: sys_inv_def same)
qed

lemma sys_get_buffers:
  assumes inv: "sys_inv host iter fl limit c n m db pc a cont" and k: "length (wrap_key k) < 2 ^ 31"
  shows "\<exists>db'. DB_GetBuffers db k = Some (ds_get_buffers a k, db') \<and> sys_inv host iter fl limit c n m db' pc a cont"
proof -
  note d = sys_invD [OF inv]
  obtain h where "DB_GetBuffers db k = Some (ds_get_buffers a k, db\<lparr>db_heap := h\<rparr>)" "db_inv host iter limit c n (db\<lparr>db_heap := h\<rparr>) a cont"
    using db_inv_get_buffers [OF d(1) k] by blast
  with d(2-9) show ?thesis by (simp add: sys_inv_def)
qed

lemma sys_get_files:
  assumes inv: "sys_inv host iter fl limit c n m db pc a cont" and it: "iterates iter"
  shows "\<exists>db'. DB_GetFiles host db k = Some (ds_get_files a k, db') \<and> sys_inv host iter fl limit c n m db' pc a cont"
proof -
  let ?files = "concat (GetContainsFiles (db_engine db) k)"
  note d = sys_invD [OF inv]
  have ok: "eng_ok host iter (db_engine db) cont"
    and coh: "lru.coherent (expected_tables (db_engine db) (flush_thread db) (ds_limbo a) cont) (db_cache db)" using d(1) by (simp_all add: db_inv_def)
  obtain c' where c': "DB_GetFiles host db k = Some (ds_get_files a k, db\<lparr>db_cache := c'\<rparr>)" "db_inv host iter limit c n (db\<lparr>db_cache := c'\<rparr>) a cont"
    using db_inv_get_files [OF d(1) it] by blast
  then have search: "search_files host (db_engine db) k ?files (db_cache db) = Some (ds_get_files a k, c')"
    by (auto simp: DB_GetFiles_def split: bind_splits dest: arg_cong [where f = db_cache])
  have given: "file_id f \<le> last_file_id (db_engine db) \<and> file_id f \<notin> file_id ` set (new_files pc)" if "f \<in> set ?files" for f
    using eng_file(1) [OF ok visited_files [OF that]] new_ids_other [OF d(2) visited_files [OF that]] by (simp add: file_ok_def)
  have none: "lru_tables c' i = None" if i: "\<not> (i \<le> last_file_id (db_engine db) \<and> i \<notin> file_id ` set (new_files pc))" for i
  proof -
    have "lru_tables (db_cache db) i = None" using d(5) i by (auto simp: cache_fresh_def)
    moreover have "i \<notin> file_id ` set ?files" using given i by blast
    ultimately show ?thesis using search_files_fresh [OF it visited_tables [OF d(1)] coh] search by blast
  qed
  have "cache_fresh (db_engine db) (new_files pc) c'"
    unfolding cache_fresh_def by (intro allI impI) (rule ccontr, drule none, simp)
  then show ?thesis using c' d(2-4,6-9) by (simp add: sys_inv_def)
qed

lemma sys_get:
  assumes inv: "sys_inv host iter fl limit c n m db pc a cont" and it: "iterates iter" and k: "length (wrap_key k) < 2 ^ 31"
  shows "\<exists>db'. DB_Get host db k = Some (ds_get a k, db') \<and> sys_inv host iter fl limit c n m db' pc a cont"
proof -
  have stop: "\<not> is_stop db" using sys_invD(1) [OF inv] by (simp add: db_inv_def)
  obtain db1 where 1: "DB_GetBuffers db k = Some (ds_get_buffers a k, db1)" "sys_inv host iter fl limit c n m db1 pc a cont"
    using sys_get_buffers [OF inv k] by blast
  obtain db2 where "DB_GetFiles host db1 k = Some (ds_get_files a k, db2)" "sys_inv host iter fl limit c n m db2 pc a cont"
    using sys_get_files [OF 1(2) it] by blast
  with stop 1 show ?thesis by (cases "ds_get_buffers a k") (simp_all add: DB_Get_def ds_get_parts)
qed

lemma sys_clear_cache:
  assumes inv: "sys_inv host iter fl limit c n m db pc a cont"
  shows "\<exists>db'. DB_ClearCache db = Some db' \<and> sys_inv host iter fl limit c n m db' pc a cont"
proof -
  note d = sys_invD [OF inv]
  obtain db' where db': "DB_ClearCache db = Some db'" "db_inv host iter limit c n db' a cont" using db_inv_clear_cache [OF d(1)] by blast
  have same: "db_engine db' = db_engine db" "flush_thread db' = flush_thread db"
    using db'(1) by (auto simp: DB_ClearCache_def split: bind_splits)
  have "lru_inv (db_cache db)" using d(1) by (simp add: db_inv_def lru.coherent_def)
  then obtain c' where c': "Cache_Clear (db_cache db) = Some c'" "cached c' []" using Cache_Clear_correct by (auto simp: lru_inv_def)
  then have "db_cache db' = c'" using db'(1) by (auto simp: DB_ClearCache_def)
  then have "cache_fresh (db_engine db) (new_files pc) (db_cache db')" using cached_tables(1) [OF c'(2)] by (simp add: cache_fresh_def)
  then show ?thesis using db' d(2-4,6-9) by (simp add: sys_inv_def same)
qed


section \<open>Steps of the flush thread\<close>

text \<open>What a step does to the engine: nothing, one path of the folder, or a new file of level 0.\<close>

definition flush_effect :: "host \<Rightarrow> iteration \<Rightarrow> DataBase \<Rightarrow> db_spec \<Rightarrow> (int \<Rightarrow> kv list) \<Rightarrow> (int \<Rightarrow> kv list) \<Rightarrow> DataBase \<Rightarrow> bool" where
  "flush_effect host iter db a cont cont' db' \<longleftrightarrow>
    (db_engine db' = db_engine db \<and> cont' = cont \<and> (flush_id (flush_thread db') = None \<or> flush_id (flush_thread db') = flush_id (flush_thread db)) \<and>
      length (buffered (ds_flush_step a)) = length (buffered a) \<and> length (entries_of (buffered (ds_flush_step a))) = length (entries_of (buffered a))) \<or>
    (\<exists>fid. touched (db_engine db) fid (db_engine db') \<and> cont' = cont \<and> (\<forall>f \<in> set (all_files (db_engine db)). file_id f \<noteq> fid) \<and>
      flush_id (flush_thread db') = Some fid \<and> (flush_id (flush_thread db) = Some fid \<or> last_file_id (db_engine db) < fid) \<and>
      fid \<le> last_file_id (db_engine db') \<and> buffered (ds_flush_step a) = buffered a) \<or>
    (\<exists>fid es f. entered host iter (db_engine db) fid es f (db_engine db') \<and> cont' = cont(fid := es) \<and> flush_id (flush_thread db) = Some fid \<and>
      flush_id (flush_thread db') = None \<and> buffered a = buffered (ds_flush_step a) @ es)"

lemma flush_effect_holds:
  assumes inv: "db_inv host iter limit c n db a cont" and run: "flush_thread_step host iter db = Some db'"
  shows "flush_effect host iter db a cont (next_cont (flush_thread db) a cont) db'"
proof -
  note d = phase_D [OF inv]
  show ?thesis
  proof (cases "flush_thread db")
    case FTop
    with d(1,4) run show ?thesis
      by (auto simp: flush_effect_def next_cont_def flush_thread_step_def phase_of_def ds_flush_step_def Let_def flush_id_def buffered_def)
  next
    case FWait
    then have ph: "ds_phase a = PWait" using d(1) by (simp add: phase_of_def)
    show ?thesis
    proof (cases "db' = db")
      case True
      then show ?thesis using FWait ph by (auto simp: flush_effect_def next_cont_def flush_id_def ds_flush_step_def Let_def buffered_def)
    next
      case False
      then obtain fid name eng where new: "NewWritableFile (db_engine db) 0 = Some (fid, name, eng)" and db': "db' = db\<lparr>db_engine := eng, flush_thread := FOpened fid name\<rparr>"
        using run FWait d(4) by (auto simp: flush_thread_step_def split: if_splits bind_splits)
      have eng: "fid = last_file_id (db_engine db) + 1" "FileName 0 fid = Some name"
        "eng = (db_engine db)\<lparr>last_file_id := fid, data_folder := (data_folder (db_engine db))(FilePath name \<mapsto> [])\<rparr>"
        using new by (auto simp: NewWritableFile_def Let_def split: if_splits bind_splits)
      have "-1 \<le> last_file_id (db_engine db)" using d(5) by (simp add: eng_ok_def)
      then have t: "touched (db_engine db) fid (db_engine db')" using eng by (auto simp: touched_def db')
      moreover have "\<forall>f \<in> set (all_files (db_engine db)). file_id f \<noteq> fid" using d(5) eng(1) by (force simp: eng_ok_def file_ok_def)
      ultimately show ?thesis using FWait ph eng
        by (auto simp: flush_effect_def next_cont_def flush_id_def db' ds_flush_step_def Let_def buffered_def)
    qed
  next
    case (FOpened fid name)
    then have ph: "ds_phase a = POpened" and op: "opened (db_engine db) fid name" using d(1,2) by (simp_all add: phase_of_def thread_inv_def)
    obtain img ko where db': "db' = db\<lparr>db_engine := write_file (db_engine db) name img, flush_thread := FWritten fid name ko\<rparr>"
      using run FOpened by (auto simp: flush_thread_step_def split: bind_splits)
    have "touched (db_engine db) fid (db_engine db')" using op by (auto simp: touched_def opened_def db' write_file_def)
    then show ?thesis using FOpened ph op
      by (auto simp: flush_effect_def next_cont_def flush_id_def db' ds_flush_step_def Let_def buffered_def opened_def write_file_def)
  next
    case (FWritten fid name ko)
    with d(1,2) run show ?thesis
      by (auto simp: flush_effect_def next_cont_def flush_thread_step_def phase_of_def ds_flush_step_def Let_def flush_id_def buffered_def thread_inv_def split: prod.splits)
  next
    case (FCleared fid name ko)
    with d(1,2) run show ?thesis
      by (auto simp: flush_effect_def next_cont_def flush_thread_step_def phase_of_def ds_flush_step_def Let_def flush_id_def buffered_def split: bind_splits)
  next
    case (FCached fid name)
    then obtain es where t: "ds_phase a = PCached" "ds_limbo a = Some es" and p: "pending host iter (db_engine db) fid name es"
      using d(1,2) by (auto simp: phase_of_def thread_inv_def)
    obtain eng where db': "AddFile (db_engine db) name = Some eng" "db' = db\<lparr>db_engine := eng, flush_thread := FTop\<rparr>"
      using run FCached by (auto simp: flush_thread_step_def split: bind_splits)
    from AddFile_pending [OF d(5) p] db' obtain f where "entered host iter (db_engine db) fid es f (db_engine db')"
      using p by (auto simp: entered_def)
    then show ?thesis using FCached t
      by (auto simp: flush_effect_def next_cont_def flush_id_def db'(2) ds_flush_step_def Let_def buffered_def)
  next
    case FDone
    with d(2) show ?thesis by (simp add: thread_inv_def)
  qed
qed


text \<open>The cache after a step.\<close>

lemma flush_cache:
  assumes inv: "db_inv host iter limit c n db a cont" and run: "flush_thread_step host iter db = Some db'"
    and i: "lru_tables (db_cache db') i \<noteq> None"
  shows "lru_tables (db_cache db) i \<noteq> None \<or> flush_id (flush_thread db) = Some i \<and> i \<le> last_file_id (db_engine db)"
proof (cases "\<exists>fid name ko. flush_thread db = FCleared fid name ko")
  case True
  then obtain fid name ko where pc: "flush_thread db = FCleared fid name ko" by blast
  then obtain es where "pending host iter (db_engine db) fid name es" using phase_D(2) [OF inv] by (auto simp: thread_inv_def)
  then have fid: "fid \<le> last_file_id (db_engine db)" by (simp add: pending_def)
  have "lru_inv (db_cache db)" using inv by (simp add: db_inv_def lru.coherent_def)
  from lru.put_law [OF this, of fid ko] obtain c' where c': "Cache_Set (db_cache db) fid ko = Some c'"
    "\<forall>k'. k' \<noteq> fid \<longrightarrow> lru_tables c' k' = None \<or> lru_tables c' k' = lru_tables (db_cache db) k'" by blast
  then have "db_cache db' = c'" using run pc by (auto simp: flush_thread_step_def)
  then show ?thesis using c'(2) i fid pc by (cases "i = fid") (auto simp: flush_id_def)
next
  case False
  then have "db_cache db' = db_cache db" using run by (auto simp: flush_thread_step_def split: flush_pc.splits bind_splits if_splits prod.splits)
  with i show ?thesis by simp
qed

lemma sys_flush:
  assumes inv: "sys_inv host iter fl limit c n m db pc a cont" and it: "iterates iter" and room: "c < 2 ^ 28" "n < 10 ^ 8"
  shows "\<exists>db' cont'. flush_thread_step host iter db = Some db' \<and> sys_inv host iter fl limit c (n + 1) m db' pc (ds_flush_step a) cont'"
proof -
  let ?eng = "db_engine db" and ?c = "next_cont (flush_thread db) a cont"
  note d = sys_invD [OF inv]
  have ok: "eng_ok host iter ?eng cont" using d(1) by (simp add: db_inv_def)
  obtain db' where db': "flush_thread_step host iter db = Some db'" "db_inv host iter limit c (n + 1) db' (ds_flush_step a) ?c"
    using flush_step_ok [OF d(1) it room(1)] room(2) by (auto simp: step_ok_def)
  have le: "last_file_id ?eng \<le> last_file_id (db_engine db')"
    using flush_effect_holds [OF d(1) db'(1)] by (auto simp: flush_effect_def touched_def entered_def)
  have "i \<le> last_file_id (db_engine db') \<and> i \<notin> file_id ` set (new_files pc)" if "lru_tables (db_cache db') i \<noteq> None" for i
    using flush_cache [OF d(1) db'(1) that] d(4) [of i] d(5) le by (auto simp: cache_fresh_def dest: order_trans)
  then have fresh: "cache_fresh (db_engine db') (new_files pc) (db_cache db')" by (simp add: cache_fresh_def)
  consider (same) "db_engine db' = ?eng" "?c = cont" "flush_id (flush_thread db') = None \<or> flush_id (flush_thread db') = flush_id (flush_thread db)"
      "length (buffered (ds_flush_step a)) = length (buffered a)" "length (entries_of (buffered (ds_flush_step a))) = length (entries_of (buffered a))"
    | (touch) fid where "touched ?eng fid (db_engine db')" "?c = cont" "\<forall>f \<in> set (all_files ?eng). file_id f \<noteq> fid" "flush_id (flush_thread db') = Some fid"
      "flush_id (flush_thread db) = Some fid \<or> last_file_id ?eng < fid" "buffered (ds_flush_step a) = buffered a"
    | (enter) fid es f where "entered host iter ?eng fid es f (db_engine db')" "?c = cont(fid := es)" "flush_id (flush_thread db) = Some fid"
      "flush_id (flush_thread db') = None" "buffered a = buffered (ds_flush_step a) @ es"
    using flush_effect_holds [OF d(1) db'(1)] unfolding flush_effect_def by blast
  then have "sys_inv host iter fl limit c (n + 1) m db' pc (ds_flush_step a) ?c"
  proof cases
    case same
    then show ?thesis using d db'(2) fresh by (auto simp: sys_inv_def)
  next
    case touch
    have fid: "fid \<notin> file_id ` set (new_files pc)" using touch(5) d(4) new_ids_given [OF d(2)] by force
    have all: "all_files (db_engine db') = all_files ?eng" using touch(1) by (simp add: touched_def all_files_def)
    have "eng_count (db_engine db') = eng_count ?eng" "eng_size (db_engine db') = eng_size ?eng" by (simp_all add: eng_count_def eng_size_def fun_eq_iff all)
    moreover have "over (db_engine db') = over ?eng" using touch(1) by (simp add: over_def touched_def)
    moreover have "level0_files_number_limit (db_engine db') = fl" using touch(1) d(9) by (simp add: touched_def)
    ultimately show ?thesis using d(6-8) db'(2) fresh fid touch(2,4,6) touched_compact_inv [OF touch(1) ok d(3,2) touch(3) fid] touched_disk [OF touch(1) ok d(3) touch(3)]
      by (simp add: sys_inv_def)
  next
    case enter
    have fid: "fid \<notin> file_id ` set (new_files pc)" using d(4) enter(3) by blast
    have "eng_ok host iter (db_engine db') ?c" using db'(2) by (simp add: db_inv_def)
    then have "over (db_engine db') \<subseteq> over ?eng \<union> {0}" by (rule entered_over [OF enter(1) ok])
    moreover have "0 \<in> busy pc" by (cases pc) (simp_all add: busy_def)
    ultimately have "over (db_engine db') \<subseteq> busy pc" using d(8) by blast
    moreover have "level0_files_number_limit (db_engine db') = fl" using enter(1) d(9) by (simp add: entered_def)
    ultimately show ?thesis
      using d(6,7) db'(2) fresh enter(2,4) entered_compact_inv [OF enter(1) d(2) fid] entered_disk [OF enter(1) d(3)] entered_totals [OF enter(1), of cont]
      by (simp add: sys_inv_def enter(5) entries_of_append)
  qed
  with db'(1) show ?thesis by blast
qed


section \<open>Steps of the compaction thread\<close>

text \<open>The path of the file the flush thread works on is not one of a file with another id.\<close>

lemma level0_path:
  assumes "FileName 0 fid = Some name" "0 \<le> fid"
    and "\<forall>f \<in> set fs. FileName (level_id f) (file_id f) = Some (file_name f) \<and> 0 \<le> level_id f \<and> level_id f < 2 ^ 31 \<and> 0 \<le> file_id f \<and> file_id f \<noteq> fid"
  shows "FilePath name \<notin> paths fs"
proof
  assume "FilePath name \<in> paths fs"
  then obtain f where f: "f \<in> set fs" "name = file_name f" by (auto simp: paths_def FilePath_inj)
  then show False using FileName_inj [OF assms(1), of "level_id f" "file_id f"] assms(2) bspec [OF assms(3) f(1)] by simp
qed

lemma thread_inv_engine:
  assumes t: "thread_inv host iter eng pc a" and last: "last_file_id eng \<le> last_file_id eng'"
    and all: "\<forall>f \<in> set (all_files eng'). f \<in> set (all_files eng) \<or> 0 < level_id f \<and> flush_id pc \<noteq> Some (file_id f)"
    and path: "\<And>fid name. flush_id pc = Some fid \<Longrightarrow> FileName 0 fid = Some name \<Longrightarrow> 0 \<le> fid \<Longrightarrow> data_folder eng' (FilePath name) = data_folder eng (FilePath name)"
    and a: "ds_limbo a' = ds_limbo a" "ds_buffer a' = ds_buffer a"
  shows "thread_inv host iter eng' pc a'"
proof -
  have op: "opened eng' fid name" if "opened eng fid name" "flush_id pc = Some fid" for fid name
    using that last all by (fastforce simp: opened_def)
  have pe: "pending host iter eng' fid name es" if "pending host iter eng fid name es" "flush_id pc = Some fid" for fid name es
    using that last all path [OF that(2), of name] by (fastforce simp: pending_def)
  show ?thesis using t op pe by (cases pc) (auto simp: thread_inv_def flush_id_def a)
qed

text \<open>An opened or written file is not yet one of the engine, and its id is among those given.\<close>

lemma flush_id_fresh:
  assumes "thread_inv host iter eng pc a" "flush_id pc = Some fid"
  shows "\<forall>f \<in> set (all_files eng). file_id f \<noteq> fid" "fid \<le> last_file_id eng"
  using assms by (auto simp: thread_inv_def flush_id_def opened_def pending_def split: flush_pc.splits)

lemma disk_except_paths:
  assumes "eng_ok host iter eng cont" "disk_except host iter F eng cont" "set fs \<subseteq> set (all_files eng)" "\<forall>f \<in> set (all_files eng). file_id f \<noteq> fid"
    and "FileName 0 fid = Some name" "0 \<le> fid"
  shows "FilePath name \<notin> paths fs"
proof (rule level0_path [OF assms(5,6)], intro ballI)
  fix f assume "f \<in> set fs"
  then have f: "f \<in> set (all_files eng)" using assms(3) by blast
  then show "FileName (level_id f) (file_id f) = Some (file_name f) \<and> 0 \<le> level_id f \<and> level_id f < 2 ^ 31 \<and> 0 \<le> file_id f \<and> file_id f \<noteq> fid"
    using eng_file(1,3) [OF assms(1) f] assms(2,4) by (simp add: disk_except_def file_ok_def)
qed

lemma rewritten_paths:
  assumes rw: "rewritten host iter l eng cont F eng1 N chunks P out" and l: "0 \<le> l" "l + 1 < 2 ^ 31" and "fid \<notin> file_id ` set N"
    and "FileName 0 fid = Some name" "0 \<le> fid"
  shows "FilePath name \<notin> paths N"
proof (rule level0_path [OF assms(5,6)], intro ballI)
  fix f assume f: "f \<in> set N"
  then have "file_id f \<noteq> fid" using assms(4) by blast
  then show "FileName (level_id f) (file_id f) = Some (file_name f) \<and> 0 \<le> level_id f \<and> level_id f < 2 ^ 31 \<and> 0 \<le> file_id f \<and> file_id f \<noteq> fid"
    using new_file_cont(2) [OF rw f] rewrittenD(6) [OF rw f] l by (simp add: on_disk_def)
qed

text \<open>Deciding on a level.\<close>

lemma sys_levels:
  assumes inv: "sys_inv host iter fl limit c n m db (CLevels (l # levels)) a cont" and m: "int m < 10 ^ 8"
  shows "\<exists>pc'. compact_thread_step host iter db (CLevels (l # levels)) = Some (db, pc') \<and> sys_inv host iter fl limit c n m db pc' a cont \<and>
    (pc' = CLevels levels \<or> (\<exists>F. pc' = CPicked l F levels))"
proof -
  let ?eng = "db_engine db"
  let ?lim = "level0_files_number_limit ?eng" and ?F = "pick_files (level_files ?eng) l"
  note d = sys_invD [OF inv]
  have lev: "levels_inv ?eng (0 # l # levels)" using d(2) by (simp add: compact_inv_def)
  then have l: "0 \<le> l" "level_limit ?eng l = Some (?lim * 10 ^ nat l)" using levels_small [OF lev, of l] by simp_all
  have ok: "eng_ok host iter ?eng cont" using d(1) by (simp add: db_inv_def)
  show ?thesis
  proof (cases "size_gt (length (lm_at (level_files ?eng) l)) (?lim * 10 ^ nat l)")
    case False
    then have "l \<notin> over ?eng" by (simp add: over_def)
    then have "over ?eng \<subseteq> insert 0 (set levels)" using d(8) by (auto simp: busy_def)
    then show ?thesis using inv l(2) False by (auto simp: compact_thread_step_def sys_inv_def compact_inv_def levels_inv_def taken_files_def new_files_def busy_def)
  next
    case True
    then have ne: "lm_at (level_files ?eng) l \<noteq> []" and gt: "?lim * 10 ^ nat l < int (length (lm_at (level_files ?eng) l))" by (auto simp: size_gt_def)
    note sel = pick_files_selection [OF ok l(1) ne]
    have "length (lm_at (level_files ?eng) l) \<le> m" using files_le_count [OF ok, of l] d(6) by linarith
    then have "?lim * 10 ^ nat l < 10 ^ 8" using gt m by linarith
    moreover have "?lim * 10 ^ nat (l + 1) = 10 * (?lim * 10 ^ nat l)" using l(1) by (simp add: nat_add_distrib)
    ultimately have "levels_inv ?eng (0 # l # (l + 1) # levels)" using lev l(1) by (simp add: levels_inv_def)
    moreover have "level_id (hd (lm_at (level_files ?eng) l)) = l" using at_level(2) [OF ok] hd_in_set [OF ne] by blast
    ultimately have "sys_inv host iter fl limit c n m db (CPicked l ?F levels) a cont"
      using inv sel by (auto simp: sys_inv_def compact_inv_def taken_files_def new_files_def busy_def)
    then show ?thesis using True l(2) by (simp add: compact_thread_step_def)
  qed
qed


text \<open>The merge or the move.\<close>

lemma sys_stage:
  assumes inv: "sys_inv host iter fl limit c n m db (CPicked l F levels) a cont"
    and st: "staging host iter l (db_engine db) cont F eng1 N chunks P out b"
  shows "sys_inv host iter fl limit c (n + int m) m (db\<lparr>db_engine := eng1\<rparr>) (CStaged l F N b levels) a cont"
proof -
  let ?eng = "db_engine db"
  note d = sys_invD [OF inv]
  have ci: "levels_inv ?eng (0 # l # (l + 1) # levels)" "selection l ?eng F" "\<exists>f \<in> set F. level_id f = l" using d(2) by (simp_all add: compact_inv_def)
  have l: "0 \<le> l" "l + 1 < 2 ^ 31" using levels_small(1) [OF ci(1), of l] levels_small(2) [OF ci(1), of "l + 1"] by simp_all
  have ok: "eng_ok host iter ?eng cont" and ti: "thread_inv host iter ?eng (flush_thread db) a" using d(1) by (simp_all add: db_inv_def)
  have disk: "disk_except host iter F ?eng cont" using d(3) by (simp add: taken_files_def disk_except_Nil disk_ok_except)
  have rw: "rewritten host iter l ?eng cont F eng1 N chunks P out" and last1: "last_file_id eng1 \<le> last_file_id ?eng + int (eng_count ?eng cont)"
    and new: "\<forall>f \<in> set N. last_file_id ?eng < file_id f" using st by (simp_all add: staging_def)
  note r = rewrittenD [OF rw] and same = same_maps [OF rewrittenD(1,2) [OF rw]]
  have not_new: "i \<notin> file_id ` set N" if "i \<le> last_file_id ?eng" for i using new that by auto
  have F: "set F \<subseteq> set (all_files ?eng)" using ci(2) by (simp add: selection_def)
  have "data_folder eng1 (FilePath name) = data_folder ?eng (FilePath name)"
    if f: "flush_id (flush_thread db) = Some fid" "FileName 0 fid = Some name" "0 \<le> fid" for fid name
  proof -
    note fr = flush_id_fresh [OF ti f(1)]
    show ?thesis using r(8) disk_except_paths [OF ok disk F fr(1) f(2,3)] rewritten_paths [OF rw l not_new [OF fr(2)] f(2,3)] by blast
  qed
  then have ti1: "thread_inv host iter eng1 (flush_thread db) a"
    using thread_inv_engine [OF ti r(3)] same(1) by simp
  have "last_file_id eng1 < n + int m" using d(1,6) last1 by (simp add: db_inv_def)
  moreover have "expected_tables eng1 = expected_tables ?eng" by (intro ext) (simp only: expected_tables_def same(3))
  ultimately have "db_inv host iter limit c (n + int m) (db\<lparr>db_engine := eng1\<rparr>) a cont"
    using d(1) ti1 same(2) same(4) [OF ok r(3)] by (simp add: db_inv_def)
  moreover have "compact_inv host iter eng1 cont (CStaged l F N b levels)"
    using ci staging_staged [OF st] selection_cong [of eng1 ?eng] same(1) levels_inv_cong [OF r(13)] by (simp add: compact_inv_def)
  moreover have "disk_except host iter F eng1 cont" by (rule rewritten_disk [OF ok disk ci(2) l rw])
  moreover have "cache_fresh eng1 N (db_cache db)" using d(5) not_new r(3) by (auto simp: cache_fresh_def intro: order_trans)
  moreover have "fid \<notin> file_id ` set N" if "flush_id (flush_thread db) = Some fid" for fid using not_new flush_id_fresh(2) [OF ti that] by blast
  moreover have "eng_count eng1 cont = eng_count ?eng cont" "eng_size eng1 cont = eng_size ?eng cont" by (simp_all add: eng_count_def eng_size_def same(1))
  moreover have "over eng1 = over ?eng" by (simp add: over_def r(1,13))
  ultimately show ?thesis using d(6-9) r(13) by (simp add: sys_inv_def taken_files_def new_files_def busy_def)
qed

lemma staging_all_files: "staging host iter l eng cont F eng1 N chunks P out b \<Longrightarrow> all_files eng1 = all_files eng"
  using rewrittenD(1) by (auto simp: staging_def all_files_def)

lemma sys_picked:
  assumes inv: "sys_inv host iter fl limit c n m db (CPicked l F levels) a cont" and it: "iterates iter" and room: "c < 2 ^ 28" "n + int m \<le> 10 ^ 8"
  shows "\<exists>db' N b. compact_thread_step host iter db (CPicked l F levels) = Some (db', CStaged l F N b levels) \<and>
    sys_inv host iter fl limit c (n + int m) m db' (CStaged l F N b levels) a cont \<and> all_files (db_engine db') = all_files (db_engine db)"
proof -
  let ?eng = "db_engine db"
  note d = sys_invD [OF inv]
  have ci: "levels_inv ?eng (0 # l # (l + 1) # levels)" "selection l ?eng F" "\<exists>f \<in> set F. level_id f = l" using d(2) by (simp_all add: compact_inv_def)
  have l: "0 \<le> l" "l + 1 < 2 ^ 31" using levels_small(1) [OF ci(1), of l] levels_small(2) [OF ci(1), of "l + 1"] by simp_all
  have ok: "eng_ok host iter ?eng cont" and lastn: "last_file_id ?eng < n" using d(1) by (simp_all add: db_inv_def)
  have disk: "disk_ok host iter ?eng cont" using d(3) by (simp add: taken_files_def disk_except_Nil)
  have last: "last_file_id ?eng + int (eng_count ?eng cont) < 10 ^ 8" using lastn d(6) room(2) by linarith
  have size: "eng_size ?eng cont < 2 ^ 28" using d(7) room(1) by simp
  show ?thesis
  proof (cases "length F = 1")
    case True
    then obtain f where F: "F = [f]" by (cases F) auto
    then have f: "f \<in> set (all_files ?eng)" "level_id f = l" using ci(2,3) by (simp_all add: selection_def)
    from move_staging [OF ok disk f(1) l f(2) last] obtain N eng1 chunks out where
      "move_files F ?eng = Some (N, eng1)" "staging host iter l ?eng cont F eng1 N chunks (\<lambda>e. True) out False" unfolding F by blast
    with sys_stage [OF inv this(2)] staging_all_files [OF this(2)] True show ?thesis by (auto simp: compact_thread_step_def)
  next
    case False
    from NWay_staging [OF ok it ci(2) l size last, of "BufferSize (db_buffer db)"] obtain N eng1 chunks out where
      "NWayCompaction host iter (BufferSize (db_buffer db)) ?eng F l = Some (N, eng1)"
      "staging host iter l ?eng cont F eng1 N chunks (\<lambda>e. snd e \<noteq> TombValue) out True" by blast
    with sys_stage [OF inv this(2)] staging_all_files [OF this(2)] False show ?thesis by (auto simp: compact_thread_step_def)
  qed
qed

text \<open>The exchange: the specification with the files as they now are; live keys keep their values.\<close>

definition live_rel :: "db_spec \<Rightarrow> db_spec \<Rightarrow> bool" where
  "live_rel a a' \<longleftrightarrow> ds_buffer a' = ds_buffer a \<and> ds_limbo a' = ds_limbo a \<and> ds_phase a' = ds_phase a \<and>
    (\<forall>k. map_of (concat (ds_files a)) k \<noteq> Some TombValue \<longrightarrow> map_of (concat (ds_files a')) k = map_of (concat (ds_files a)) k)"

lemma live_rel_refl: "live_rel a a"
  by (simp add: live_rel_def)

lemma live_rel_trans: "live_rel a b \<Longrightarrow> live_rel b c \<Longrightarrow> live_rel a c"
  by (auto simp: live_rel_def)

lemma exchange_tables:
  assumes r: "round_post host iter l eng cont eng' cont' F N P" and eng': "eng' = UpdateMapAfterCompaction N F b eng"
    and cont': "\<forall>i. i \<notin> file_id ` set N \<longrightarrow> cont' i = cont i"
    and coh: "lru.coherent (expected_tables eng pc limbo cont) c" and fresh: "cache_fresh eng N c"
  shows "lru.coherent (expected_tables eng' pc limbo cont') c"
proof -
  have gone: "tables_of eng' cont' i = None" if "i \<in> file_id ` set F" for i using r that by (auto simp: round_post_def tables_of_def)
  have keep: "tables_of eng' cont' i = tables_of eng cont i" if "i \<notin> file_id ` set F" "i \<notin> file_id ` set N" for i
    using exchange_keeps(3) [OF that, of b eng] cont' that by (simp add: tables_of_def eng')
  have "expected_tables eng' pc limbo cont' i = None \<or> expected_tables eng' pc limbo cont' i = expected_tables eng pc limbo cont i" if "lru_tables c i \<noteq> None" for i
    using that fresh gone [of i] keep [of i] by (auto simp: cache_fresh_def expected_tables_def split: flush_pc.split option.split)
  then show ?thesis using coh unfolding lru.coherent_def by (metis option.distinct(1))
qed

lemma sys_exchange:
  assumes inv: "sys_inv host iter fl limit c n m db (CStaged l F N b levels) a cont"
  shows "\<exists>db' a' cont'. compact_thread_step host iter db (CStaged l F N b levels) = Some (db', CLevels (l # (l + 1) # levels)) \<and>
    sys_inv host iter fl limit c n m db' (CLevels (l # (l + 1) # levels)) a' cont' \<and> live_rel a a' \<and>
    (\<forall>K > l. potential K (db_engine db') cont' < potential K (db_engine db) cont)"
proof -
  let ?eng = "db_engine db"
  define eng' where "eng' = UpdateMapAfterCompaction N F b ?eng"
  note d = sys_invD [OF inv]
  have ci: "levels_inv ?eng (0 # l # (l + 1) # levels)" "selection l ?eng F" "\<exists>f \<in> set F. level_id f = l" "staged host iter l ?eng cont F N b"
    using d(2) by (simp_all add: compact_inv_def)
  have l: "0 \<le> l" "l + 1 < 2 ^ 31" using levels_small(1) [OF ci(1), of l] levels_small(2) [OF ci(1), of "l + 1"] by simp_all
  have ok: "eng_ok host iter ?eng cont" and ti: "thread_inv host iter ?eng (flush_thread db) a" and hold: "files_hold ?eng cont (ds_files a)"
    and coh: "lru.coherent (expected_tables ?eng (flush_thread db) (ds_limbo a) cont) (db_cache db)"
    using d(1) by (simp_all add: db_inv_def)
  have disk: "disk_except host iter F ?eng cont" and fresh: "cache_fresh ?eng N (db_cache db)"
    and fid: "\<And>fid. flush_id (flush_thread db) = Some fid \<Longrightarrow> fid \<notin> file_id ` set N"
    using d(3-5) by (simp_all add: taken_files_def new_files_def)
  obtain cont' P where r: "round_post host iter l ?eng cont eng' cont' F N P" and cont': "\<forall>i. i \<notin> file_id ` set N \<longrightarrow> cont' i = cont i"
    using staged_exchange [OF ok disk ci(2) l ci(4)] unfolding eng'_def by blast
  have post: "eng_ok host iter eng' cont'" "disk_ok host iter eng' cont'" "replacement host iter l ?eng cont F N cont' P"
    "set (all_files eng') = (set (all_files ?eng) - set F) \<union> set N" "level0_files_number_limit eng' = level0_files_number_limit ?eng"
    using r by (simp_all add: round_post_def)
  have last: "last_file_id eng' = last_file_id ?eng" by (simp add: eng'_def exchange_keeps)
  define a' where "a' = a\<lparr>ds_files := map (\<lambda>f. cont' (file_id f)) (concat (map (\<lambda>item. newest_first (snd item)) (level_files eng')))\<rparr>"
  have a': "ds_buffer a' = ds_buffer a" "ds_limbo a' = ds_limbo a" "ds_phase a' = ds_phase a" "buffered a' = buffered a" by (simp_all add: a'_def buffered_def)
  have hold': "files_hold eng' cont' (ds_files a')" by (simp add: files_hold_def eng_lookup_def a'_def)
  have F: "set F \<subseteq> set (all_files ?eng)" using ci(2) by (simp add: selection_def)
  have "data_folder eng' (FilePath name) = data_folder ?eng (FilePath name)"
    if f: "flush_id (flush_thread db) = Some fid" "FileName 0 fid = Some name" "0 \<le> fid" for fid name
    using disk_except_paths [OF ok disk F flush_id_fresh(1) [OF ti f(1)] f(2,3)] by (simp add: eng'_def exchange_keeps)
  moreover have "\<forall>f \<in> set (all_files eng'). f \<in> set (all_files ?eng) \<or> 0 < level_id f \<and> flush_id (flush_thread db) \<noteq> Some (file_id f)"
    using post(4) replacementD(5) [OF post(3)] fid l(1) by auto
  ultimately have ti': "thread_inv host iter eng' (flush_thread db) a'"
    using thread_inv_engine [OF ti] last a' by simp
  have "lru.coherent (expected_tables eng' (flush_thread db) (ds_limbo a') cont') (db_cache db)"
    unfolding a' by (rule exchange_tables [OF r eng'_def cont' coh fresh])
  then have db': "db_inv host iter limit c n (db\<lparr>db_engine := eng'\<rparr>) a' cont'"
    using d(1) post(1) last hold' ti' a' by (simp add: db_inv_def)
  obtain f where f: "f \<in> set F" "level_id f = l" using ci(3) by blast
  have "eng_count eng' cont' \<le> eng_count ?eng cont" "eng_size eng' cont' \<le> eng_size ?eng cont" using round_totals(1,2) [OF r f, of "l + 1"] by simp_all
  moreover have "over eng' \<subseteq> insert 0 (set (l # (l + 1) # levels))" using round_over [OF r] d(8) by (auto simp: busy_def)
  ultimately have "sys_inv host iter fl limit c n m (db\<lparr>db_engine := eng'\<rparr>) (CLevels (l # (l + 1) # levels)) a' cont'"
    using db' d(6,7,9) fresh last ci(1) post(2,5) levels_inv_cong [OF post(5)]
    by (simp add: sys_inv_def compact_inv_def taken_files_def new_files_def disk_except_Nil cache_fresh_def a' busy_def)
  moreover have "live_rel a a'"
    using hold hold' replaced_lookup(1) [OF post(3,1,4)] a' by (auto simp: live_rel_def files_hold_def)
  moreover have "\<forall>K > l. potential K eng' cont' < potential K ?eng cont" using round_totals(3) [OF r f] by blast
  moreover have "compact_thread_step host iter db (CStaged l F N b levels) = Some (db\<lparr>db_engine := eng'\<rparr>, CLevels (l # (l + 1) # levels))"
    by (simp add: compact_thread_step_def eng'_def)
  ultimately show ?thesis by fastforce
qed

text \<open>The steps at the ends of the loop.\<close>

lemma sys_wait:
  assumes "sys_inv host iter fl limit c n m db CWait a cont"
  shows "compact_thread_step host iter db CWait = Some (db, CLevels [0])" "sys_inv host iter fl limit c n m db (CLevels [0]) a cont"
proof -
  have "\<not> is_stop db" using sys_invD(1) [OF assms] by (simp add: db_inv_def)
  then show "compact_thread_step host iter db CWait = Some (db, CLevels [0])" by (simp add: compact_thread_step_def)
  show "sys_inv host iter fl limit c n m db (CLevels [0]) a cont"
    using assms by (auto simp: sys_inv_def compact_inv_def levels_inv_def taken_files_def new_files_def busy_def)
qed

lemma sys_returned:
  assumes "sys_inv host iter fl limit c n m db (CLevels []) a cont"
  shows "compact_thread_step host iter db (CLevels []) = Some (db, CWait)" "sys_inv host iter fl limit c n m db CWait a cont"
  using assms by (auto simp: sys_inv_def compact_inv_def levels_inv_def taken_files_def new_files_def busy_def compact_thread_step_def)

text \<open>Any step of the thread.\<close>

lemma sys_compact:
  assumes inv: "sys_inv host iter fl limit c n m db pc a cont" and it: "iterates iter" and room: "c < 2 ^ 28" "n + int m \<le> 10 ^ 8" "int m < 10 ^ 8"
  shows "\<exists>db' pc' a' cont'. compact_thread_step host iter db pc = Some (db', pc') \<and> sys_inv host iter fl limit c (n + int m) m db' pc' a' cont' \<and> live_rel a a'"
proof -
  have up: "\<exists>db' pc' a' cont'. compact_thread_step host iter db pc = Some (db', pc') \<and> sys_inv host iter fl limit c (n + int m) m db' pc' a' cont' \<and> live_rel a a'"
    if "compact_thread_step host iter db pc = Some (db', pc')" "sys_inv host iter fl limit c n m db' pc' a' cont'" "live_rel a a'" for db' pc' a' cont'
    using that sys_inv_mono [OF that(2), of "n + int m"] by auto
  show ?thesis
  proof (cases pc)
    case CWait
    show ?thesis using up [of db "CLevels [0]" a cont] sys_wait [OF inv [unfolded CWait]] live_rel_refl by (simp add: CWait)
  next
    case (CLevels levels)
    show ?thesis
    proof (cases levels)
      case Nil
      show ?thesis using up [of db CWait a cont] sys_returned [OF inv [unfolded CLevels Nil]] live_rel_refl by (simp add: CLevels Nil)
    next
      case (Cons l ls)
      obtain pc' where "compact_thread_step host iter db pc = Some (db, pc')" "sys_inv host iter fl limit c n m db pc' a cont"
        using sys_levels [OF inv [unfolded CLevels Cons] room(3)] unfolding CLevels Cons by blast
      then show ?thesis by (rule up) (rule live_rel_refl)
    qed
  next
    case (CPicked l F levels)
    then show ?thesis using sys_picked [OF inv [unfolded CPicked] it room(1,2)] live_rel_refl by blast
  next
    case (CStaged l F N b levels)
    obtain db' pc' a' cont' where "compact_thread_step host iter db pc = Some (db', pc')" "sys_inv host iter fl limit c n m db' pc' a' cont'" "live_rel a a'"
      using sys_exchange [OF inv [unfolded CStaged]] unfolding CStaged by blast
    then show ?thesis by (rule up)
  next
    case CDone
    show ?thesis using up [of db CDone a cont] inv live_rel_refl by (simp add: CDone compact_thread_step_def)
  qed
qed


section \<open>The compaction thread comes back to its wait\<close>

text \<open>Levels from 31 on have limits beyond \<^verbatim>\<open>int\<close> and are never visited.\<close>

lemma level_below_31:
  assumes "levels_inv eng levels" "l \<in> set levels"
  shows "l < 31"
proof (rule ccontr)
  assume "\<not> l < 31"
  then have "(10 :: int) ^ 31 \<le> 10 ^ nat l" by (intro power_increasing) simp_all
  also have "\<dots> \<le> level0_files_number_limit eng * 10 ^ nat l" by (rule limit_ge) (use assms in \<open>simp add: levels_inv_def\<close>)
  also have "\<dots> < 2 ^ 31" using assms by (simp add: levels_inv_def)
  finally show False by simp
qed

lemma potential_le: "potential K eng cont \<le> nat K * eng_count eng cont" if "eng_ok host iter eng cont"
proof -
  have "length (cont (file_id f)) * nat (K - level_id f) \<le> nat K * length (cont (file_id f))" if "f \<in> set (all_files eng)" for f
    using eng_file(3) [OF \<open>eng_ok host iter eng cont\<close> that] by (simp add: mult.commute mult_le_mono1 nat_mono)
  then have "potential K eng cont \<le> (\<Sum>f \<in> set (all_files eng). nat K * length (cont (file_id f)))" unfolding potential_def by (rule sum_mono)
  then show ?thesis by (simp add: eng_count_def sum_distrib_left)
qed

fun rank :: "compact_pc \<Rightarrow> nat" where
  "rank CWait = 0"
| "rank (CLevels levels) = 2 + length levels"
| "rank (CPicked l F levels) = 1"
| "rank (CStaged l F N b levels) = 0"
| "rank CDone = 0"

text \<open>Rounds still to come, each with ids for as many files as there are entries.\<close>

definition rounds_left :: "compact_pc \<Rightarrow> StorageEngine \<Rightarrow> (int \<Rightarrow> kv list) \<Rightarrow> nat" where
  "rounds_left pc eng cont = (case pc of CStaged l F N b levels \<Rightarrow> potential 31 eng cont | _ \<Rightarrow> potential 31 eng cont + 1)"

lemma compact_returns:
  assumes "sys_inv host iter fl limit c n m db pc a cont" "iterates iter" "c < 2 ^ 28" "int m < 10 ^ 8" "pc \<noteq> CDone"
    and "n + int m * int (rounds_left pc (db_engine db) cont) \<le> 10 ^ 8" "p = potential 31 (db_engine db) cont" "r = rank pc"
  shows "\<exists>k db' n' a' cont'. compact_thread_run host iter k (db, pc) = Some (db', CWait) \<and> sys_inv host iter fl limit c n' m db' CWait a' cont' \<and> live_rel a a'"
  using assms
proof (induction p arbitrary: r n db pc a cont rule: less_induct)
  case (less p)
  note outer = less.IH
  show ?case using less.prems
  proof (induction r arbitrary: n db pc a cont rule: less_induct)
    case (less r)
    let ?P = "\<lambda>db a pc. \<exists>k db' n' a' cont'. compact_thread_run host iter k (db, pc) = Some (db', CWait) \<and>
        sys_inv host iter fl limit c n' m db' CWait a' cont' \<and> live_rel a a'"
    have then_run: "?P db a pc" if st: "compact_thread_step host iter db pc = Some (db1, pc1)" "live_rel a a1" "?P db1 a1 pc1" for db1 pc1 a1
    proof -
      obtain k db' n' a' cont' where "compact_thread_run host iter k (db1, pc1) = Some (db', CWait)" "sys_inv host iter fl limit c n' m db' CWait a' cont'" "live_rel a1 a'"
        using st(3) by blast
      then show ?thesis using st(1) live_rel_trans [OF st(2)] by (intro exI [of _ "Suc k"]) auto
    qed
    note pr = less.prems(2-4)
    show "?P db a pc"
    proof (cases pc)
      case CWait
      then show ?thesis using less.prems(1) live_rel_refl by (intro exI [of _ 0]) auto
    next
      case (CLevels levels)
      have room: "n + int m * (1 + int p) \<le> 10 ^ 8" using less.prems(6,7) by (simp add: CLevels rounds_left_def)
      show ?thesis
      proof (cases levels)
        case Nil
        note ret = sys_returned [OF less.prems(1) [unfolded CLevels Nil]]
        have "?P db a CWait" using less.IH [OF _ ret(2) pr _ _ less.prems(7) refl] room less.prems(7,8) by (simp add: CLevels rounds_left_def)
        then show ?thesis using then_run [OF _ live_rel_refl] ret(1) by (simp add: CLevels Nil)
      next
        case (Cons l ls)
        obtain pc1 where s: "compact_thread_step host iter db pc = Some (db, pc1)" "sys_inv host iter fl limit c n m db pc1 a cont"
          "pc1 = CLevels ls \<or> (\<exists>F. pc1 = CPicked l F ls)"
          using sys_levels [OF less.prems(1) [unfolded CLevels Cons] pr(3)] unfolding CLevels Cons by blast
        have "rank pc1 < r" "pc1 \<noteq> CDone" "rounds_left pc1 (db_engine db) cont = p + 1" using s(3) less.prems(7,8) by (auto simp: CLevels Cons rounds_left_def)
        then have "?P db a pc1" using less.IH [OF _ s(2) pr _ _ less.prems(7) refl] room by simp
        then show ?thesis by (rule then_run [OF s(1) live_rel_refl])
      qed
    next
      case (CPicked l F levels)
      have room: "n + int m + int m * int p \<le> 10 ^ 8" using less.prems(6,7) by (simp add: CPicked rounds_left_def algebra_simps)
      moreover have "0 \<le> int m * int p" by simp
      ultimately have "n + int m \<le> 10 ^ 8" by linarith
      from sys_picked [OF less.prems(1) [unfolded CPicked] pr(1,2) this] obtain db1 N b where
        s: "compact_thread_step host iter db pc = Some (db1, CStaged l F N b levels)"
          "sys_inv host iter fl limit c (n + int m) m db1 (CStaged l F N b levels) a cont" "all_files (db_engine db1) = all_files (db_engine db)"
        unfolding CPicked by blast
      have p: "p = potential 31 (db_engine db1) cont" using s(3) less.prems(7) by (simp add: potential_def)
      have "?P db1 a (CStaged l F N b levels)"
        using less.IH [OF _ s(2) pr _ _ p refl] room p less.prems(8) by (simp add: CPicked rounds_left_def)
      then show ?thesis by (rule then_run [OF s(1) live_rel_refl])
    next
      case (CStaged l F N b levels)
      obtain db1 a1 cont1 where s: "compact_thread_step host iter db pc = Some (db1, CLevels (l # (l + 1) # levels))"
        "sys_inv host iter fl limit c n m db1 (CLevels (l # (l + 1) # levels)) a1 cont1" "live_rel a a1"
        "\<forall>K > l. potential K (db_engine db1) cont1 < potential K (db_engine db) cont"
        using sys_exchange [OF less.prems(1) [unfolded CStaged]] unfolding CStaged by blast
      have "levels_inv (db_engine db) (0 # l # (l + 1) # levels)" using sys_invD(2) [OF less.prems(1)] by (simp add: CStaged compact_inv_def)
      then have "l < 31" by (rule level_below_31) simp
      then have lt: "potential 31 (db_engine db1) cont1 < p" using s(4) less.prems(7) by simp
      have "int m * int (potential 31 (db_engine db1) cont1 + 1) \<le> int m * int p" using lt by (intro mult_left_mono) simp_all
      then have "n + int m * int (rounds_left (CLevels (l # (l + 1) # levels)) (db_engine db1) cont1) \<le> 10 ^ 8"
        using less.prems(6,7) by (simp add: CStaged rounds_left_def)
      from outer [OF lt s(2) pr _ this refl refl] have "?P db1 a1 (CLevels (l # (l + 1) # levels))" by simp
      then show ?thesis by (rule then_run [OF s(1,3)])
    next
      case CDone
      with less.prems(5) show ?thesis by simp
    qed
  qed
qed

end
