(* ===== verification/Threads_Runs.thy ===== *)
theory Threads_Runs
  imports Threads_Correct Database_Runs
begin

text \<open>
  Runs of the database with clients, the flush thread and the compaction thread in any order.  They refine the
  specification of the database, in which compaction does nothing: a lookup differs only where the specification
  answers with a tombstone, which the merge may have dropped.
\<close>

section \<open>Simulation of runs\<close>

text \<open>The relation between a database and its specification; the files may have lost tombstones.\<close>

definition sys_sim :: "host \<Rightarrow> iteration \<Rightarrow> int \<Rightarrow> u32 \<Rightarrow> int \<Rightarrow> int \<Rightarrow> nat \<Rightarrow> DataBase \<times> compact_pc \<Rightarrow> db_spec \<Rightarrow> bool" where
  "sys_sim host iter fl limit c n m s a \<longleftrightarrow> (\<exists>a' cont. sys_inv host iter fl limit c n m (fst s) (snd s) a' cont \<and> live_rel a a')"

lemma live_rel_get: "live_rel a a' \<Longrightarrow> ds_get a k = Some TombValue \<or> ds_get a' k = ds_get a k"
  by (auto simp: live_rel_def ds_get_def split: option.split)

lemma live_rel_parts: "live_rel a a' \<Longrightarrow> ds_get_buffers a' k = ds_get_buffers a k"
  "live_rel a a' \<Longrightarrow> ds_get_files a k = Some TombValue \<or> ds_get_files a' k = ds_get_files a k"
  by (auto simp: live_rel_def ds_get_buffers_def ds_get_files_def)

lemma live_rel_flush: "live_rel a a' \<Longrightarrow> live_rel (ds_flush_step a) (ds_flush_step a')"
  by (cases "ds_phase a") (auto simp: live_rel_def ds_flush_step_def Let_def map_add_def split: option.split)

lemma live_rel_step:
  assumes "live_rel a a'"
  shows "live_rel (snd (ds_step limit op a)) (snd (ds_step limit op a'))" "agrees (fst (ds_step limit op a')) (fst (ds_step limit op a))"
proof -
  show "live_rel (snd (ds_step limit op a)) (snd (ds_step limit op a'))"
    using assms live_rel_flush [OF assms] by (cases op) (simp_all add: live_rel_def)
  show "agrees (fst (ds_step limit op a')) (fst (ds_step limit op a))" using live_rel_get [OF assms] live_rel_parts [OF assms] by (cases op) auto
qed

text \<open>The number of additions, which bounds the number of entries.\<close>

fun additions :: "db_op list \<Rightarrow> nat" where
  "additions [] = 0"
| "additions (DAdd t k v # ops) = Suc (additions ops)"
| "additions (op # ops) = additions ops"

lemma additions_Cons: "additions (op # ops) = additions [op] + additions ops"
  by (cases op) simp_all

lemma sys_sim_client:
  assumes sim: "sys_sim host iter fl limit c n m s a" and it: "iterates iter" and op: "db_op_ok op"
    and room: "c + db_op_cost op < 2 ^ 28" "n < 10 ^ 8"
  shows "\<exists>out s'. sys_step host iter (Op op) s = Some (out, s') \<and> agrees out (fst (ds_step limit op a)) \<and>
    sys_sim host iter fl limit (c + db_op_cost op) (n + 1) (m + additions [op]) s' (snd (ds_step limit op a))"
proof -
  obtain db pc where s: "s = (db, pc)" by (cases s)
  obtain a' cont where inv: "sys_inv host iter fl limit c n m db pc a' cont" and live: "live_rel a a'" using sim by (auto simp: sys_sim_def s)
  have c: "c < 2 ^ 28" using room(1) db_op_cost_pos [of op] by linarith
  have "\<exists>db' cont'. db_step host iter op db = Some (fst (ds_step limit op a'), db') \<and>
      sys_inv host iter fl limit (c + db_op_cost op) (n + 1) (m + additions [op]) db' pc (snd (ds_step limit op a')) cont'"
  proof (cases op)
    case (DAdd t k v)
    then obtain db' where "DB_Add db t k v = Some db'" "sys_inv host iter fl limit (c + db_op_cost op) n (Suc m) db' pc
        (a'\<lparr>ds_buffer := ds_add limit k (stored_value t v) (ds_buffer a')\<rparr>) cont"
      using sys_add [OF inv, of k t v] op room(1) by auto
    with sys_inv_mono [OF this(2), of "n + 1"] show ?thesis by (auto simp: DAdd)
  next
    case (DGet k)
    then obtain db' where "DB_Get host db k = Some (ds_get a' k, db')" "sys_inv host iter fl limit c n m db' pc a' cont"
      using sys_get [OF inv it, of k] op by auto
    with sys_inv_mono [OF this(2), of "n + 1"] show ?thesis by (auto simp: DGet)
  next
    case (DGetBuffers k)
    then obtain db' where "DB_GetBuffers db k = Some (ds_get_buffers a' k, db')" "sys_inv host iter fl limit c n m db' pc a' cont"
      using sys_get_buffers [OF inv, of k] op by auto
    with sys_inv_mono [OF this(2), of "n + 1"] show ?thesis by (auto simp: DGetBuffers)
  next
    case (DGetFiles k)
    obtain db' where "DB_GetFiles host db k = Some (ds_get_files a' k, db')" "sys_inv host iter fl limit c n m db' pc a' cont"
      using sys_get_files [OF inv it] by blast
    with sys_inv_mono [OF this(2), of "n + 1"] show ?thesis by (auto simp: DGetFiles)
  next
    case DClearCache
    obtain db' where "DB_ClearCache db = Some db'" "sys_inv host iter fl limit c n m db' pc a' cont" using sys_clear_cache [OF inv] by blast
    with sys_inv_mono [OF this(2), of "n + 1"] show ?thesis by (auto simp: DClearCache)
  next
    case DFlushStep
    then show ?thesis using sys_flush [OF inv it c room(2)] by auto
  qed
  then show ?thesis using live_rel_step [OF live, of limit op] by (fastforce simp: sys_sim_def s)
qed

lemma sys_sim_compact:
  assumes sim: "sys_sim host iter fl limit c n m s a" and it: "iterates iter" and room: "c < 2 ^ 28" "n + int m \<le> 10 ^ 8" "int m < 10 ^ 8"
  shows "\<exists>s'. sys_step host iter CompactStep s = Some (Done, s') \<and> sys_sim host iter fl limit c (n + int m) m s' a"
proof -
  obtain db pc where s: "s = (db, pc)" by (cases s)
  obtain a' cont where inv: "sys_inv host iter fl limit c n m db pc a' cont" and live: "live_rel a a'" using sim by (auto simp: sys_sim_def s)
  from sys_compact [OF inv it room] obtain db' pc' a'' cont' where "compact_thread_step host iter db pc = Some (db', pc')"
    "sys_inv host iter fl limit c (n + int m) m db' pc' a'' cont'" "live_rel a' a''" by blast
  with live_rel_trans [OF live this(3)] show ?thesis by (auto simp: sys_sim_def s)
qed

lemma sys_sim_mono: "sys_sim host iter fl limit c n m s a \<Longrightarrow> n \<le> n' \<Longrightarrow> sys_sim host iter fl limit c n' m s a"
  unfolding sys_sim_def using sys_inv_mono by blast

text \<open>\<open>M\<close> bounds the number of entries at any time, and so the ids a step takes.\<close>

lemma sys_sim_run:
  assumes "sys_sim host iter fl limit c n m s a" "iterates iter" "\<forall>op \<in> set (client_ops ops). db_op_ok op"
    and "c + sum_list (map db_op_cost (client_ops ops)) < 2 ^ 28" "m + additions (client_ops ops) \<le> M" "n + int (length ops) * (int M + 1) \<le> 10 ^ 8" "int M < 10 ^ 8"
  shows "\<exists>outs s' c' n' m'. sys_run host iter ops s = Some (outs, s') \<and> list_all2 agrees outs (fst (sys_spec limit ops a)) \<and>
    sys_sim host iter fl limit c' n' m' s' (snd (sys_spec limit ops a)) \<and> c' < 2 ^ 28 \<and> n' \<le> n + int (length ops) * (int M + 1) \<and> m' \<le> M"
  using assms
proof (induction ops arbitrary: c n m s a)
  case Nil
  then show ?case by auto
next
  case (Cons op ops)
  have pos: "0 \<le> sum_list (map db_op_cost (client_ops ops))" by (rule sum_list_nonneg) (auto simp: db_op_cost_pos)
  have n: "n + (int M + 1) + int (length ops) * (int M + 1) \<le> 10 ^ 8" using Cons.prems(6) by (simp add: algebra_simps)
  moreover have "0 \<le> int (length ops) * (int M + 1)" by simp
  ultimately have n1: "n + (int M + 1) \<le> 10 ^ 8" by linarith
  obtain c1 m1 out s1 where 1: "sys_step host iter op s = Some (out, s1)" "agrees out (fst (sys_spec_step limit op a))"
    "sys_sim host iter fl limit c1 (n + (int M + 1)) m1 s1 (snd (sys_spec_step limit op a))"
    "c1 + sum_list (map db_op_cost (client_ops ops)) < 2 ^ 28" "m1 + additions (client_ops ops) \<le> M"
  proof (cases op)
    case (Op dop)
    have "c + db_op_cost dop < 2 ^ 28" "n < 10 ^ 8" "db_op_ok dop" using Cons.prems(3,4) pos n1 Op by simp_all
    from sys_sim_client [OF Cons.prems(1,2) this(3,1,2)] obtain out s1 where "sys_step host iter op s = Some (out, s1)"
      "agrees out (fst (ds_step limit dop a))"
      "sys_sim host iter fl limit (c + db_op_cost dop) (n + 1) (m + additions [dop]) s1 (snd (ds_step limit dop a))" unfolding Op by blast
    moreover from sys_sim_mono [OF this(3), of "n + (int M + 1)"]
    have "sys_sim host iter fl limit (c + db_op_cost dop) (n + (int M + 1)) (m + additions [dop]) s1 (snd (ds_step limit dop a))" by simp
    ultimately show thesis using that Cons.prems(4,5) Op additions_Cons [of dop "client_ops ops"] by (simp add: add.assoc)
  next
    case CompactStep
    have "c < 2 ^ 28" "n + int m \<le> 10 ^ 8" "int m < 10 ^ 8" using Cons.prems(4,5,7) pos n1 CompactStep by simp_all
    from sys_sim_compact [OF Cons.prems(1,2) this] obtain s1 where "sys_step host iter op s = Some (Done, s1)"
      "sys_sim host iter fl limit c (n + int m) m s1 a" unfolding CompactStep by blast
    moreover from sys_sim_mono [OF this(2), of "n + (int M + 1)"]
    have "sys_sim host iter fl limit c (n + (int M + 1)) m s1 a" using Cons.prems(5) CompactStep by simp
    ultimately show thesis using that Cons.prems(4,5) CompactStep by simp
  qed
  have "\<forall>op \<in> set (client_ops ops). db_op_ok op" using Cons.prems(3) by (cases op) simp_all
  from Cons.IH [OF 1(3) Cons.prems(2) this 1(4,5) n Cons.prems(7)] obtain outs s2 c' n' m' where
    "sys_run host iter ops s1 = Some (outs, s2)" "list_all2 agrees outs (fst (sys_spec limit ops (snd (sys_spec_step limit op a))))"
    "sys_sim host iter fl limit c' n' m' s2 (snd (sys_spec limit ops (snd (sys_spec_step limit op a))))"
    "c' < 2 ^ 28" "n' \<le> n + (int M + 1) + int (length ops) * (int M + 1)" "m' \<le> M" by blast
  moreover have "n + (int M + 1) + int (length ops) * (int M + 1) = n + int (length (op # ops)) * (int M + 1)" by (simp add: algebra_simps)
  ultimately show ?case using 1(1,2) by (simp add: Let_def split_def) blast
qed

text \<open>
  The runs the theorems speak of: keys that \<^verbatim>\<open>Flush\<close> accepts, images below 4 GB, and, as a step of the compaction thread takes
  at most as many file ids as there are entries, ids of eight digits.
\<close>

definition sys_runs_ok :: "sys_op list \<Rightarrow> bool" where
  "sys_runs_ok ops \<longleftrightarrow> (\<forall>op \<in> set (client_ops ops). db_op_ok op) \<and> kBlockSize + sum_list (map db_op_cost (client_ops ops)) < 2 ^ 28 \<and>
    length ops * (additions (client_ops ops) + 1) < 10 ^ 8"

lemma sys_start:
  assumes "1 \<le> cache_size" "1 \<le> files_limit" "files_limit < 2 ^ 31"
  shows "\<exists>db. db_start limit files_limit cache_size lit = Some db \<and> sys_sim host iter files_limit limit kBlockSize 0 0 (db, CWait) ds_new"
proof -
  obtain db cont where db: "db_start limit files_limit cache_size lit = Some db" "db_inv host iter limit kBlockSize 0 db ds_new cont"
    using db_start_sim [OF assms(1)] unfolding db_sim_def by blast
  have parts: "level_files (db_engine db) = []" "level0_files_number_limit (db_engine db) = files_limit" "flush_thread db = FTop"
    "db_cache db = LRUCache_new cache_size"
    using db(1) by (auto simp: db_start_def StorageEngine_new_def DataBase_new_def split: bind_splits)
  have "lru_tables (db_cache db) = Map.empty" using cached_tables(1) [OF LRUCache_new_correct [OF assms(1)]] parts(4) by simp
  moreover have "compact_inv host iter (db_engine db) cont CWait" using assms(2,3) by (simp add: compact_inv_def levels_inv_def parts(2))
  moreover have "0 \<le> files_limit * 10 ^ nat j" for j using assms(2) by simp
  then have "over (db_engine db) = {}" by (auto simp: over_def parts lm_at_def size_gt_def not_less)
  ultimately have "sys_inv host iter files_limit limit kBlockSize 0 0 db CWait ds_new cont"
    using db(2) by (simp add: sys_inv_def taken_files_def new_files_def disk_except_def all_files_def parts(1-3) flush_id_def cache_fresh_def
        eng_count_def eng_size_def buffered_def ds_new_def spec_new_def entries_of_def kBlockSize_def)
  then show ?thesis using db(1) live_rel_refl by (auto simp: sys_sim_def)
qed

lemma sys_run_sim:
  assumes "sys_runs_ok ops" "iterates iter" "1 \<le> cache_size" "1 \<le> files_limit" "files_limit < 2 ^ 31"
  shows "\<exists>db0 outs s c n m. db_start limit files_limit cache_size lit = Some db0 \<and> sys_run host iter ops (db0, CWait) = Some (outs, s) \<and>
    list_all2 agrees outs (fst (sys_spec limit ops ds_new)) \<and> sys_sim host iter files_limit limit c n m s (snd (sys_spec limit ops ds_new)) \<and>
    c < 2 ^ 28 \<and> n \<le> int (length ops * (additions (client_ops ops) + 1)) \<and> m \<le> additions (client_ops ops)"
proof -
  let ?M = "additions (client_ops ops)"
  obtain db0 where db0: "db_start limit files_limit cache_size lit = Some db0" "sys_sim host iter files_limit limit kBlockSize 0 0 (db0, CWait) ds_new"
    using sys_start [OF assms(3-5)] by blast
  have lt: "length ops * (?M + 1) < 10 ^ 8" using assms(1) by (simp add: sys_runs_ok_def)
  have "int ?M < 10 ^ 8"
  proof (cases "ops = []")
    case False
    then have "1 * (?M + 1) \<le> length ops * (?M + 1)" by (intro mult_le_mono1) (simp add: Suc_le_eq)
    with lt show ?thesis by simp
  qed simp
  moreover have n: "0 + int (length ops) * (int ?M + 1) = int (length ops * (?M + 1))" by (simp add: distrib_left)
  have "int (length ops * (?M + 1)) < int (10 ^ 8)" using lt by (simp only: of_nat_less_iff)
  then have "0 + int (length ops) * (int ?M + 1) \<le> 10 ^ 8" unfolding n by simp
  moreover have "\<forall>op \<in> set (client_ops ops). db_op_ok op" "kBlockSize + sum_list (map db_op_cost (client_ops ops)) < 2 ^ 28" "0 + ?M \<le> ?M"
    using assms(1) by (simp_all add: sys_runs_ok_def)
  ultimately show ?thesis using sys_sim_run [OF db0(2) assms(2), of ops ?M] db0(1) unfolding n by blast
qed


section \<open>What the specification holds\<close>

lemma sys_spec_client: "snd (sys_spec limit ops a) = snd (ds_run limit (client_ops ops) a)"
proof (induction ops arbitrary: a)
  case (Cons op ops)
  then show ?case by (cases op) (simp_all add: Let_def split_def)
qed simp

text \<open>Runs in which no entry is the tombstone text: nothing is deleted.\<close>

fun deletes :: "db_op \<Rightarrow> bool" where
  "deletes (DAdd t k v) \<longleftrightarrow> stored_value t v = TombValue"
| "deletes _ \<longleftrightarrow> False"

definition no_tombs :: "db_spec \<Rightarrow> bool" where
  "no_tombs a \<longleftrightarrow> TombValue \<notin> snd ` set (buffered a @ concat (ds_files a))"

lemma ds_get_in: "ds_get a k = Some v \<Longrightarrow> v \<in> snd ` set (buffered a @ concat (ds_files a))"
  by (force simp: ds_get_def buffered_def lookup_def dest: map_of_SomeD split: option.splits)

lemma ds_parts_in:
  "ds_get_buffers a k = Some v \<Longrightarrow> v \<in> snd ` set (buffered a @ concat (ds_files a))"
  "ds_get_files a k = Some v \<Longrightarrow> v \<in> snd ` set (buffered a @ concat (ds_files a))"
  by (force simp: ds_get_buffers_def buffered_def lookup_def dest: map_of_SomeD split: option.splits)
    (force simp: ds_get_files_def dest: map_of_SomeD)

lemma put_key_in: "x \<in> set (put_key f e es) \<Longrightarrow> x = e \<or> x \<in> set es"
  by (auto simp: put_key_def dest: set_takeWhileD set_dropWhileD)

lemma no_tombs_step:
  assumes "no_tombs a" "\<not> deletes op"
  shows "no_tombs (snd (ds_step limit op a))" "fst (ds_step limit op a) \<noteq> Got (Some TombValue)"
proof -
  show "fst (ds_step limit op a) \<noteq> Got (Some TombValue)" using ds_get_in [of a _ TombValue] ds_parts_in [of a _ TombValue] assms(1)
    by (cases op) (auto simp: no_tombs_def)
  show "no_tombs (snd (ds_step limit op a))"
  proof (cases op)
    case (DAdd t k v)
    have "set (buffered (snd (ds_step limit op a))) \<subseteq> insert (k, stored_value t v) (set (buffered a))"
      by (auto simp: DAdd buffered_def ds_add_def Let_def dest!: put_key_in split: option.splits)
    moreover have "ds_files (snd (ds_step limit op a)) = ds_files a" by (simp add: DAdd)
    ultimately show ?thesis using assms by (auto simp: DAdd no_tombs_def simp del: ds_step.simps)
  next
    case DFlushStep
    then show ?thesis using assms(1)
      by (cases "ds_phase a") (auto simp: no_tombs_def buffered_def ds_flush_step_def Let_def split: option.splits)
  qed (use assms in simp_all)
qed

lemma no_tombs_run:
  assumes "no_tombs a" "\<forall>op \<in> set (client_ops ops). \<not> deletes op"
  shows "Got (Some TombValue) \<notin> set (fst (sys_spec limit ops a))"
  using assms
proof (induction ops arbitrary: a)
  case (Cons op ops)
  then show ?case
  proof (cases op)
    case (Op dop)
    then show ?thesis using Cons no_tombs_step [of a dop limit] by (auto simp: Let_def split_def)
  next
    case CompactStep
    then show ?thesis using Cons by (auto simp: Let_def split_def)
  qed
qed simp

lemma agrees_exact:
  assumes "list_all2 agrees xs ys" "Got (Some TombValue) \<notin> set ys"
  shows "xs = ys"
  using assms
proof (induction rule: list_all2_induct)
  case (Cons x xs y ys)
  then show ?case by (cases x; cases y) auto
qed simp


section \<open>Steps of the compaction thread in a run\<close>

lemma sys_run_append: "sys_run host iter (xs @ ys) s =
    do { (outs1, s1) \<leftarrow> sys_run host iter xs s; (outs2, s2) \<leftarrow> sys_run host iter ys s1; Some (outs1 @ outs2, s2) }"
proof (induction xs arbitrary: s)
  case Nil
  then show ?case by (cases "sys_run host iter ys s") auto
next
  case (Cons op xs)
  then show ?case by (auto split: bind_splits)
qed

lemma sys_run_compact:
  "compact_thread_run host iter k s = Some s' \<Longrightarrow> sys_run host iter (replicate k CompactStep) s = Some (replicate k Done, s')"
  by (induction k arbitrary: s) (auto split: bind_splits)

text \<open>The same equation without \<open>let\<close>, for evaluation.\<close>

lemma sys_spec_run: "sys_spec limit (op # ops) a =
    (case sys_spec_step limit op a of (out, a1) \<Rightarrow> (case sys_spec limit ops a1 of (outs, a2) \<Rightarrow> (out # outs, a2)))"
  by simp


section \<open>Properties\<close>

text \<open>
  C2: The database with both background threads.  Every sequence of client operations, steps of the flush thread and steps of the
  compaction thread, in any order, runs from an empty data folder without undefined behaviour and without a failed
  assertion; files may be added while a compaction is choosing, merging or about to exchange files.  Every lookup
  returns what the specification without compaction returns, unless that is the tombstone of a deleted key; in runs that
  delete nothing the outputs are the same.
\<close>

theorem threads_refine:
  assumes "sys_runs_ok ops" "iterates iter" "1 \<le> cache_size" "1 \<le> files_limit" "files_limit < 2 ^ 31"
  shows "\<exists>db0 outs db pc. db_start limit files_limit cache_size lit = Some db0 \<and> sys_run host iter ops (db0, CWait) = Some (outs, db, pc) \<and>
    list_all2 agrees outs (fst (sys_spec limit ops ds_new)) \<and>
    ((\<forall>op \<in> set (client_ops ops). \<not> deletes op) \<longrightarrow> outs = fst (sys_spec limit ops ds_new))"
proof -
  obtain db0 outs s where run: "db_start limit files_limit cache_size lit = Some db0" "sys_run host iter ops (db0, CWait) = Some (outs, s)"
    "list_all2 agrees outs (fst (sys_spec limit ops ds_new))"
    using sys_run_sim [OF assms] by blast
  have "no_tombs ds_new" by (simp add: no_tombs_def ds_new_def spec_new_def buffered_def)
  then have "outs = fst (sys_spec limit ops ds_new)" if "\<forall>op \<in> set (client_ops ops). \<not> deletes op"
    using agrees_exact [OF run(3) no_tombs_run] that by blast
  with run show ?thesis by (cases s) auto
qed

theorem threads_refine_witness:
  "\<exists>db0 db pc. db_start 0 1 2 Null = Some db0 \<and>
    sys_run LittleHost sorted_iter
      (map Op [DFlushStep, DAdd Put [60] [7], DFlushStep, DFlushStep, DFlushStep, DFlushStep, DFlushStep, DFlushStep, DAdd Put [60] [8]] @
       [CompactStep, Op DFlushStep, CompactStep, Op DFlushStep, Op DFlushStep, Op DFlushStep, Op DFlushStep, CompactStep, CompactStep, CompactStep,
        CompactStep, Op (DGet [60]), CompactStep, CompactStep, Op (DGet [60])]) (db0, CWait) =
      Some ([Done, Done, Done, Done, Done, Done, Done, Done, Done, Done, Done, Done, Done, Done, Done, Done, Done, Done, Done, Done,
        Got (Some [8]), Done, Done, Got (Some [8])], db, pc)"
proof -
  let ?ops = "map Op [DFlushStep, DAdd Put [60] [7], DFlushStep, DFlushStep, DFlushStep, DFlushStep, DFlushStep, DFlushStep, DAdd Put [60] [8]] @
       [CompactStep, Op DFlushStep, CompactStep, Op DFlushStep, Op DFlushStep, Op DFlushStep, Op DFlushStep, CompactStep, CompactStep, CompactStep,
        CompactStep, Op (DGet [60]), CompactStep, CompactStep, Op (DGet [60])]"
  have len: "length (entry_bytes [60] [7]) = 4" "length (entry_bytes [60] [8]) = 4" "length (wrap_key [60]) = 2"
    by (simp_all add: entry_bytes_def wrap_key_def EncodeVarint32_def)
  have "sys_runs_ok ?ops" using len by (simp add: sys_runs_ok_def str_def kBlockSize_def stored_value_def)
  moreover have "\<forall>op \<in> set (client_ops ?ops). \<not> deletes op" by (simp add: stored_value_def TombValue_def str_def)
  moreover have "fst (sys_spec 0 ?ops ds_new) = [Done, Done, Done, Done, Done, Done, Done, Done, Done, Done, Done, Done, Done, Done, Done, Done, Done, Done, Done, Done,
        Got (Some [8]), Done, Done, Got (Some [8])]"
    by (simp add: sys_spec_run flush_at add_at len ds_new_def spec_new_def stored_value_def ds_get_def lookup_def
        del: sys_spec.simps(2))
  ultimately show ?thesis using threads_refine [OF _ iterates_sorted_iter, of ?ops 2 1 0 Null LittleHost] by fastforce
qed


text \<open>
  C3: Reads return the latest write with both threads running.  After every run of clients and threads a lookup returns the value of the
  last \<^verbatim>\<open>Add\<close> of the key, from a buffer, the cache or a file of any level, unless the key is deleted or the flush
  thread is between \<^verbatim>\<open>ClearFlushBuffer\<close> and \<^verbatim>\<open>AddFile\<close>.
\<close>

theorem threads_read_latest:
  assumes "sys_runs_ok ops" "iterates iter" "1 \<le> cache_size" "1 \<le> files_limit" "files_limit < 2 ^ 31"
    and "length (wrap_key k) < 2 ^ 31" "latest (client_ops ops) k \<noteq> Some TombValue"
  shows "\<exists>db0 outs db pc. db_start limit files_limit cache_size lit = Some db0 \<and> sys_run host iter ops (db0, CWait) = Some (outs, db, pc) \<and>
    (in_window (flush_thread db) \<or> (\<exists>db'. DB_Get host db k = Some (latest (client_ops ops) k, db')))"
proof -
  let ?a = "snd (sys_spec limit ops ds_new)"
  obtain db0 outs db pc c n m where run: "db_start limit files_limit cache_size lit = Some db0" "sys_run host iter ops (db0, CWait) = Some (outs, db, pc)"
    "sys_sim host iter files_limit limit c n m (db, pc) ?a"
    using sys_run_sim [OF assms(1-5), of limit lit host] by (metis prod.collapse)
  then obtain a' cont where inv: "sys_inv host iter files_limit limit c n m db pc a' cont" and live: "live_rel ?a a'" by (auto simp: sys_sim_def)
  have "DB_Get host db k = Some (latest (client_ops ops) k, db')" if "\<not> in_window (flush_thread db)" "DB_Get host db k = Some (ds_get a' k, db')" for db'
  proof -
    have "phase_of (flush_thread db) = Some (ds_phase ?a)" using phase_D(1) [OF sys_invD(1) [OF inv]] live by (simp add: live_rel_def)
    then have "\<not> window (ds_phase ?a)" using window_phase that(1) by blast
    then have "ds_get ?a k = latest (client_ops ops) k" using ds_run_latest unfolding sys_spec_client by blast
    then show ?thesis using that(2) live_rel_get [OF live, of k] assms(7) by simp
  qed
  moreover obtain db' where "DB_Get host db k = Some (ds_get a' k, db')" using sys_get [OF inv assms(2,6)] by blast
  ultimately show ?thesis using run(1,2) by blast
qed

theorem threads_read_latest_witness:
  "\<exists>db0 outs db pc. db_start 0 1 2 Null = Some db0 \<and>
    sys_run LittleHost sorted_iter [Op (DAdd Put [60] [7]), CompactStep, Op (DAdd Put [61] [8]), Op DFlushStep] (db0, CWait) = Some (outs, db, pc) \<and>
    (in_window (flush_thread db) \<or> (\<exists>db'. DB_Get LittleHost db [60] = Some (Some [7], db')))"
proof -
  let ?ops = "[Op (DAdd Put [60] [7]), CompactStep, Op (DAdd Put [61] [8]), Op DFlushStep]"
  have len: "length (entry_bytes [60] [7]) = 4" "length (entry_bytes [61] [8]) = 4" "length (wrap_key [60]) = 2"
    by (simp_all add: entry_bytes_def wrap_key_def EncodeVarint32_def)
  have "sys_runs_ok ?ops" using len by (simp add: sys_runs_ok_def str_def kBlockSize_def stored_value_def)
  moreover have l: "latest (client_ops ?ops) [60] = Some [7]" by (simp add: stored_value_def)
  moreover have "Some [7] \<noteq> Some TombValue" by (simp add: TombValue_def str_def)
  ultimately show ?thesis
    using threads_read_latest [OF _ iterates_sorted_iter, of ?ops 2 1 "[60]" 0 Null LittleHost, unfolded l] len(3) by simp
qed

text \<open>
  C16: The compaction thread comes back.  After every run, wherever the thread is, further steps of it alone bring it back to its
  wait, and then every level from 1 on holds at most \<^verbatim>\<open>level0_files_number_limit_ * 10^level\<close> files.
\<close>

theorem compaction_thread_returns:
  assumes "sys_runs_ok ops" "iterates iter" "1 \<le> cache_size" "1 \<le> files_limit" "files_limit < 2 ^ 31"
    and "length ops * (additions (client_ops ops) + 1) + additions (client_ops ops) * (31 * additions (client_ops ops) + 1) < 10 ^ 8"
  shows "\<exists>db0 outs k db. db_start limit files_limit cache_size lit = Some db0 \<and>
    sys_run host iter (ops @ replicate k CompactStep) (db0, CWait) = Some (outs, db, CWait) \<and>
    (\<forall>l \<ge> 1. int (length (lm_at (level_files (db_engine db)) l)) \<le> files_limit * 10 ^ nat l)"
proof -
  let ?M = "additions (client_ops ops)"
  obtain db0 outs db pc c n m where run: "db_start limit files_limit cache_size lit = Some db0" "sys_run host iter ops (db0, CWait) = Some (outs, db, pc)"
    "sys_sim host iter files_limit limit c n m (db, pc) (snd (sys_spec limit ops ds_new))" "c < 2 ^ 28" "n \<le> int (length ops * (?M + 1))" "m \<le> ?M"
    using sys_run_sim [OF assms(1-5), of limit lit host] by (metis prod.collapse)
  then obtain a' cont where inv: "sys_inv host iter files_limit limit c n m db pc a' cont" by (auto simp: sys_sim_def)
  note d = sys_invD [OF inv]
  have "pc \<noteq> CDone" using d(2) by (auto simp: compact_inv_def)
  moreover have "rounds_left pc (db_engine db) cont \<le> 31 * ?M + 1"
  proof -
    have "eng_ok host iter (db_engine db) cont" using d(1) by (simp add: db_inv_def)
    then have "potential 31 (db_engine db) cont \<le> 31 * eng_count (db_engine db) cont" using potential_le [of host iter _ cont 31] by simp
    also have "\<dots> \<le> 31 * ?M" using d(6) run(6) by simp
    finally show ?thesis by (simp add: rounds_left_def split: compact_pc.split)
  qed
  then have "m * rounds_left pc (db_engine db) cont \<le> ?M * (31 * ?M + 1)" using run(6) by (intro mult_le_mono) simp_all
  then have tot: "length ops * (?M + 1) + m * rounds_left pc (db_engine db) cont \<le> 10 ^ 8" using assms(6) by linarith
  have "int (length ops * (?M + 1) + m * rounds_left pc (db_engine db) cont) \<le> int (10 ^ 8)" using tot by (simp only: of_nat_le_iff)
  then have "n + int m * int (rounds_left pc (db_engine db) cont) \<le> 10 ^ 8" using run(5) by simp
  moreover have "?M * 1 \<le> ?M * (31 * ?M + 1)" by (intro mult_le_mono2) simp
  then have "m < 10 ^ 8" using assms(6) run(6) by linarith
  then have "int m < 10 ^ 8" by simp
  ultimately obtain k db' n' a'' cont' where k: "compact_thread_run host iter k (db, pc) = Some (db', CWait)" "sys_inv host iter files_limit limit c n' m db' CWait a'' cont'"
    using compact_returns [OF inv assms(2) run(4) _ _ _ refl refl] by blast
  have "sys_run host iter (ops @ replicate k CompactStep) (db0, CWait) = Some (outs @ replicate k Done, db', CWait)"
    using run(2) sys_run_compact [OF k(1)] by (simp add: sys_run_append)
  moreover have "int (length (lm_at (level_files (db_engine db')) l)) \<le> files_limit * 10 ^ nat l" if "1 \<le> l" for l
  proof -
    have "l \<notin> over (db_engine db')" using sys_invD(8) [OF k(2)] that by (auto simp: busy_def)
    then show ?thesis using sys_invD(9) [OF k(2)] assms(4) by (simp add: over_def size_gt_def)
  qed
  ultimately show ?thesis using run(1) by blast
qed


theorem compaction_thread_returns_witness:
  "\<exists>db0 outs k db. db_start 0 1 2 Null = Some db0 \<and>
    sys_run LittleHost sorted_iter (map Op [DFlushStep, DAdd Put [60] [7], DFlushStep] @ [CompactStep] @ replicate k CompactStep) (db0, CWait) = Some (outs, db, CWait) \<and>
    (\<forall>l \<ge> 1. int (length (lm_at (level_files (db_engine db)) l)) \<le> 1 * 10 ^ nat l)"
proof -
  let ?ops = "map Op [DFlushStep, DAdd Put [60] [7], DFlushStep] @ [CompactStep]"
  have len: "length (entry_bytes [60] [7]) = 4" by (simp add: entry_bytes_def wrap_key_def EncodeVarint32_def)
  have "sys_runs_ok ?ops" using len by (simp add: sys_runs_ok_def str_def kBlockSize_def stored_value_def)
  from compaction_thread_returns [OF this iterates_sorted_iter, of 2 1 0 Null LittleHost] show ?thesis by simp
qed

end
