(* ===== verification/Server_Runs.thy ===== *)
theory Server_Runs
  imports Server Threads_Runs
begin

text \<open>
  The server as a whole: the database that \<^verbatim>\<open>main\<close> of \<^verbatim>\<open>db/server_main.cpp\<close> sets up, any number of connections that send
  requests, and the two background threads, in any order.  A request is parsed and answered as one turn of its
  connection; each connection has the receive buffer of its task.
\<close>

section \<open>The server\<close>

definition CACHE_NUM :: int where
  "CACHE_NUM = 100"

definition LEVEL0_FILE_NUM_LIMIT :: int where
  "LEVEL0_FILE_NUM_LIMIT = 4"

definition main_database :: "ptr \<Rightarrow> DataBase option" where
  "main_database lit = db_start (push_bit 20 4) LEVEL0_FILE_NUM_LIMIT CACHE_NUM lit"

datatype turn = Message nat bytes | FlushTurn | CompactTurn

type_synonym serving = "(nat \<Rightarrow> bytes) \<times> DataBase \<times> compact_pc"

text \<open>The replies of a turn, or the end of the process.\<close>

fun serve_turn :: "host \<Rightarrow> iteration \<Rightarrow> turn \<Rightarrow> serving \<Rightarrow> (bytes list \<times> serving) parsed option" where
  "serve_turn host iter (Message conn msg) (bufs, db, pc) =
    do { let buf = recv_into (bufs conn) msg;
         r \<leftarrow> parse_request buf (length msg);
         case r of
           Exit \<Rightarrow> Some Exit
         | Parsed req \<Rightarrow> do { (reply, db1) \<leftarrow> answer host req db; Some (Parsed ([reply], bufs(conn := buf), db1, pc)) } }"
| "serve_turn host iter FlushTurn (bufs, db, pc) =
    do { db1 \<leftarrow> flush_thread_step host iter db; Some (Parsed ([], bufs, db1, pc)) }"
| "serve_turn host iter CompactTurn (bufs, db, pc) =
    do { (db1, pc1) \<leftarrow> compact_thread_step host iter db pc; Some (Parsed ([], bufs, db1, pc1)) }"

fun serve :: "host \<Rightarrow> iteration \<Rightarrow> turn list \<Rightarrow> serving \<Rightarrow> (bytes list \<times> bool \<times> serving) option" where
  "serve host iter [] s = Some ([], True, s)"
| "serve host iter (turn # turns) s =
    do { r \<leftarrow> serve_turn host iter turn s;
         case r of
           Exit \<Rightarrow> Some ([], False, s)
         | Parsed (replies, s1) \<Rightarrow>
             do { (replies', alive, s2) \<leftarrow> serve host iter turns s1; Some (replies @ replies', alive, s2) } }"


section \<open>What the clients do\<close>

datatype client_turn = Request nat OrderType bytes bytes | Flushing | Compacting

fun turn_of :: "client_turn \<Rightarrow> turn" where
  "turn_of (Request conn t k v) = Message conn (encode_request t k v)"
| "turn_of Flushing = FlushTurn"
| "turn_of Compacting = CompactTurn"

fun turn_op :: "client_turn \<Rightarrow> sys_op" where
  "turn_op (Request conn t k v) = Op (request_op (t, k, v))"
| "turn_op Flushing = Op DFlushStep"
| "turn_op Compacting = CompactStep"

text \<open>A request fits the receive buffer.\<close>

fun turn_fits :: "client_turn \<Rightarrow> bool" where
  "turn_fits (Request conn t k v) \<longleftrightarrow> length (encode_request t k v) \<le> 1400 \<and> length v < 2 ^ 32"
| "turn_fits _ \<longleftrightarrow> True"

fun replies_of :: "client_turn list \<Rightarrow> db_output list \<Rightarrow> bytes list" where
  "replies_of (Request conn t k v # turns) (out # outs) = reply_of out # replies_of turns outs"
| "replies_of (_ # turns) (out # outs) = replies_of turns outs"
| "replies_of _ _ = []"

lemma serve_turn_step:
  assumes "turn_fits turn"
  shows "\<exists>bufs'. serve_turn host iter (turn_of turn) (bufs, db, pc) =
    do { (out, s) \<leftarrow> sys_step host iter (turn_op turn) (db, pc); Some (Parsed (replies_of [turn] [out], bufs', s)) }"
proof (cases turn)
  case (Request conn t k v)
  have "length k \<le> length (encode_request t k v)" by (simp add: encode_request_def)
  then have "length k < 2 ^ 32" "length v < 2 ^ 32" using assms Request by auto
  note p = parse_encoded [OF this, of "bufs conn" t]
  show ?thesis
    unfolding Request
    by (rule exI [of _ "bufs(conn := recv_into (bufs conn) (encode_request t k v))"])
      (auto simp: Let_def p answer_step [of host t k v db iter] split: option.splits bind_splits)
next
  case Compacting
  then show ?thesis by (intro exI [of _ bufs]) (auto split: bind_splits)
qed (auto split: bind_splits)

lemma serve_run:
  assumes "\<forall>turn \<in> set turns. turn_fits turn" "sys_run host iter (map turn_op turns) (db, pc) = Some (outs, s)"
  shows "\<exists>bufs'. serve host iter (map turn_of turns) (bufs, db, pc) = Some (replies_of turns outs, True, bufs', s)"
  using assms
proof (induction turns arbitrary: bufs db pc outs)
  case (Cons turn turns)
  from Cons.prems(2) obtain out db1 pc1 outs' where run: "sys_step host iter (turn_op turn) (db, pc) = Some (out, db1, pc1)"
    "sys_run host iter (map turn_op turns) (db1, pc1) = Some (outs', s)" "outs = out # outs'"
    by (auto split: bind_splits)
  obtain bufs1 where 1: "serve_turn host iter (turn_of turn) (bufs, db, pc) = Some (Parsed (replies_of [turn] [out], bufs1, db1, pc1))"
    using serve_turn_step [of turn host iter bufs db pc] Cons.prems(1) run(1) by auto
  obtain bufs2 where "serve host iter (map turn_of turns) (bufs1, db1, pc1) = Some (replies_of turns outs', True, bufs2, s)"
    using Cons.IH [OF _ run(2)] Cons.prems(1) by auto
  moreover have "replies_of [turn] [out] @ replies_of turns outs' = replies_of (turn # turns) outs" unfolding run(3) by (cases turn) simp_all
  ultimately show ?case using 1 by auto
qed simp


section \<open>Properties\<close>



end
