(* ===== verification/Lookup_Runs.thy ===== *)
theory Lookup_Runs
  imports Threads_Runs
begin

text \<open>
  Lookups in two parts.  \<^verbatim>\<open>DataBase::Get\<close> lets go of the lock of the buffers before it takes the read lock of the
  engine, so entries may be added, flushed and compacted in between.  What the files hold later is what was the latest at
  some moment since the buffers were searched.
\<close>

section \<open>Entries on their way to the files\<close>

text \<open>What is in files or in limbo, and what has left the income buffer.\<close>

definition ds_saved :: "db_spec \<Rightarrow> bytes \<Rightarrow> bytes option" where
  "ds_saved a k = map_of (concat ((case ds_limbo a of None \<Rightarrow> [] | Some es \<Rightarrow> [es]) @ ds_files a)) k"

definition ds_handed :: "db_spec \<Rightarrow> bytes \<Rightarrow> bytes option" where
  "ds_handed a k = (case lookup [] (spec_flush (ds_buffer a)) k of Some v \<Rightarrow> Some v | None \<Rightarrow> ds_saved a k)"

text \<open>The values of a key at the three places are among \<open>V\<close>.\<close>

definition among :: "bytes option set \<Rightarrow> db_spec \<Rightarrow> bytes \<Rightarrow> bool" where
  "among V a k \<longleftrightarrow> ds_saved a k \<in> V \<and> ds_handed a k \<in> V \<and> ds_map a k \<in> V"

lemma among_miss: "ds_get_buffers a k = None \<Longrightarrow> among {ds_map a k} a k"
  by (auto simp: among_def ds_saved_def ds_handed_def ds_map_def ds_get_buffers_def lookup_def split: option.splits)

lemma among_add:
  assumes "ds_ok a" "among V a k"
  shows "among (insert (ds_map (a\<lparr>ds_buffer := ds_add limit k' v (ds_buffer a)\<rparr>) k) V) (a\<lparr>ds_buffer := ds_add limit k' v (ds_buffer a)\<rparr>) k"
    (is "among (insert _ V) ?b k")
proof -
  have "ds_saved ?b k = ds_saved a k" by (simp add: ds_saved_def)
  moreover have "ds_handed ?b k = ds_handed a k \<or> ds_handed ?b k = ds_map ?b k"
    by (cases "spec_size (ds_buffer a) + of_nat (length (entry_bytes k' v)) > limit \<and> spec_idle (ds_buffer a)")
      (simp_all add: ds_add_def Let_def ds_handed_def ds_map_def ds_saved_def lookup_def split: option.split)
  ultimately show ?thesis using assms(2) by (auto simp: among_def)
qed

lemma among_flush:
  assumes "ds_ok a" "among V a k"
  shows "among V (ds_flush_step a) k"
proof -
  have limbo: "ds_limbo a = None" if "\<not> window (ds_phase a)" using that assms(1) by (auto simp: ds_ok_def)
  have "ds_saved (ds_flush_step a) k \<in> {ds_saved a k, ds_handed a k}"
    by (cases "ds_phase a") (use limbo in \<open>auto simp: ds_flush_step_def Let_def window_def ds_saved_def ds_handed_def lookup_def map_add_def split: option.splits\<close>)
  moreover have "ds_handed (ds_flush_step a) k = ds_handed a k"
    by (cases "ds_phase a") (use limbo in \<open>auto simp: ds_flush_step_def Let_def window_def ds_saved_def ds_handed_def lookup_def map_add_def split: option.splits\<close>)
  ultimately show ?thesis using assms(2) ds_flush_ok(2) [OF assms(1)] by (auto simp: among_def)
qed

lemma among_step:
  assumes "ds_ok a" "among V a k"
  shows "among (insert (ds_map (snd (sys_spec_step limit op a)) k) V) (snd (sys_spec_step limit op a)) k"
proof (cases op)
  case (Op dop)
  have keep: "among (insert x V) a' k" if "among V a' k" for x a' using that by (auto simp: among_def)
  show ?thesis
    by (cases dop) (use Op keep [OF assms(2)] keep [OF among_flush [OF assms]] among_add [OF assms] in simp_all)
qed (use assms(2) in \<open>auto simp: among_def\<close>)

lemma spec_step_ok: "ds_ok a \<Longrightarrow> ds_ok (snd (sys_spec_step limit op a))"
  by (cases op) (simp_all add: ds_step_ok(1))

lemma among_run:
  assumes "ds_ok a" "among V a k"
  shows "ds_saved (snd (sys_spec limit ops a)) k \<in> V \<or>
    (\<exists>j \<le> length ops. ds_saved (snd (sys_spec limit ops a)) k = ds_map (snd (sys_spec limit (take j ops) a)) k)"
  using assms
proof (induction ops arbitrary: a V)
  case Nil
  then show ?case by (simp add: among_def)
next
  case (Cons op ops)
  let ?b = "snd (sys_spec_step limit op a)"
  have run: "snd (sys_spec limit (op # os) a) = snd (sys_spec limit os ?b)" for os by (simp add: Let_def split_def)
  have ok: "ds_ok ?b" and b: "among (insert (ds_map ?b k) V) ?b k"
    using Cons.prems by (auto intro: spec_step_ok among_step)
  from Cons.IH [OF this] show ?case
  proof
    assume "ds_saved (snd (sys_spec limit ops ?b)) k \<in> insert (ds_map ?b k) V"
    then show ?thesis
    proof
      assume "ds_saved (snd (sys_spec limit ops ?b)) k = ds_map ?b k"
      then have "ds_saved (snd (sys_spec limit (op # ops) a)) k = ds_map (snd (sys_spec limit (take 1 (op # ops)) a)) k"
        by (simp add: run del: sys_spec.simps(2))
      then show ?thesis by (intro disjI2 exI [of _ 1]) simp
    qed (simp add: run del: sys_spec.simps(2))
  next
    assume "\<exists>j \<le> length ops. ds_saved (snd (sys_spec limit ops ?b)) k = ds_map (snd (sys_spec limit (take j ops) ?b)) k"
    then obtain j where "j \<le> length ops" "ds_saved (snd (sys_spec limit ops ?b)) k = ds_map (snd (sys_spec limit (take j ops) ?b)) k" by blast
    then show ?thesis by (intro disjI2 exI [of _ "Suc j"]) (simp add: run del: sys_spec.simps(2))
  qed
qed

lemma client_ops_append: "client_ops (xs @ ys) = client_ops xs @ client_ops ys"
  by (induction xs rule: client_ops.induct) simp_all

lemma additions_append: "additions (xs @ ys) = additions xs + additions ys"
  by (induction xs rule: additions.induct) simp_all

lemma sys_spec_append: "sys_spec limit (xs @ ys) a =
    (fst (sys_spec limit xs a) @ fst (sys_spec limit ys (snd (sys_spec limit xs a))), snd (sys_spec limit ys (snd (sys_spec limit xs a))))"
  by (induction xs arbitrary: a) (simp_all add: Let_def split_def)

lemma sys_spec_map: "ds_map (snd (sys_spec limit ops ds_new)) k = latest (client_ops ops) k" "ds_ok (snd (sys_spec limit ops ds_new))"
  using ds_run_ok [OF ds_ok_new(1), of limit "client_ops ops"] unfolding sys_spec_client
  by (auto simp: ds_ok_new(2) split: option.split)

text \<open>What the files hold outside the window was the latest at some moment since the buffers missed the key.\<close>

lemma files_hold_moment:
  assumes "ds_get_buffers (snd (sys_spec limit xs ds_new)) k = None" "\<not> window (ds_phase (snd (sys_spec limit (xs @ ys) ds_new)))"
  shows "\<exists>j \<le> length ys. ds_get_files (snd (sys_spec limit (xs @ ys) ds_new)) k = latest (client_ops (xs @ take j ys)) k"
proof -
  let ?a = "snd (sys_spec limit xs ds_new)" and ?b = "snd (sys_spec limit (xs @ ys) ds_new)"
  have b: "snd (sys_spec limit zs ?a) = snd (sys_spec limit (xs @ zs) ds_new)" for zs by (simp add: sys_spec_append)
  have "ds_limbo ?b = None" using sys_spec_map(2) [of limit "xs @ ys"] assms(2) by (auto simp: ds_ok_def)
  then have files: "ds_get_files ?b k = ds_saved ?b k" by (simp add: ds_get_files_def ds_saved_def)
  from among_run [OF sys_spec_map(2) among_miss [OF assms(1)], of limit ys, unfolded b sys_spec_map(1)]
  show ?thesis unfolding files
  proof
    assume "ds_saved ?b k \<in> {latest (client_ops xs) k}"
    then show "\<exists>j \<le> length ys. ds_saved ?b k = latest (client_ops (xs @ take j ys)) k" by (intro exI [of _ 0]) simp
  qed
qed


section \<open>Runs\<close>

lemma sys_runs_ok_prefix:
  assumes "sys_runs_ok (xs @ ys)"
  shows "sys_runs_ok xs"
proof -
  have "0 \<le> sum_list (map db_op_cost (client_ops ys))" by (rule sum_list_nonneg) (auto simp: db_op_cost_pos)
  moreover have "length xs * (additions (client_ops xs) + 1) \<le> length (xs @ ys) * (additions (client_ops (xs @ ys)) + 1)"
    by (intro mult_le_mono) (simp_all add: client_ops_append additions_append)
  ultimately show ?thesis using assms by (auto simp: sys_runs_ok_def client_ops_append)
qed

lemma sys_sim_phase: "sys_sim host iter fl limit c n m (db, pc) a \<Longrightarrow> window (ds_phase a) \<longleftrightarrow> in_window (flush_thread db)"
  using phase_D(1) [OF sys_invD(1)] window_phase by (fastforce simp: sys_sim_def live_rel_def)

lemma sys_sim_get_buffers:
  assumes "sys_sim host iter fl limit c n m s a" "length (wrap_key k) < 2 ^ 31"
  shows "\<exists>s'. sys_step host iter (Op (DGetBuffers k)) s = Some (Got (ds_get_buffers a k), s')"
proof -
  obtain a' cont where inv: "sys_inv host iter fl limit c n m (fst s) (snd s) a' cont" and live: "live_rel a a'" using assms(1) by (auto simp: sys_sim_def)
  obtain db' where "DB_GetBuffers (fst s) k = Some (ds_get_buffers a' k, db')" using sys_get_buffers [OF inv assms(2)] by blast
  then show ?thesis using live_rel_parts(1) [OF live] by simp
qed

lemma sys_run_length: "sys_run host iter ops s = Some (outs, s') \<Longrightarrow> length outs = length ops"
  by (induction ops arbitrary: s outs) (auto split: bind_splits)

lemma list_all2_snocD: "list_all2 P (xs @ [x]) (ys @ [y]) \<Longrightarrow> P x y"
  by (frule list_all2_lengthD) (simp add: list_all2_append)

lemma agrees_Got: "agrees x (Got w) \<longleftrightarrow> (\<exists>r. x = Got r \<and> (w = Some TombValue \<or> r = w))"
  by (cases x) auto


section \<open>Properties\<close>

text \<open>
  C4: A lookup that other threads interrupt.  \<^verbatim>\<open>Get\<close> searches the buffers, and later, after any operations of clients and
  any steps of both background threads, the files.  A value found in the buffers is the latest at that moment.  Otherwise, if the flush
  thread is not in its window when the files are searched, what they give was the latest value of the key at some moment between
  the two searches, unless the key was deleted at that moment.
\<close>

theorem split_lookup_linearizable:
  assumes "sys_runs_ok (xs @ [Op (DGetBuffers k)] @ ys @ [Op (DGetFiles k)])" "iterates iter" "1 \<le> cache_size" "1 \<le> files_limit" "files_limit < 2 ^ 31"
  shows "\<exists>db0 outs r outs' r' db pc. db_start limit files_limit cache_size lit = Some db0 \<and>
    sys_run host iter (xs @ [Op (DGetBuffers k)] @ ys @ [Op (DGetFiles k)]) (db0, CWait) = Some (outs @ [Got r] @ outs' @ [Got r'], db, pc) \<and>
    length outs = length xs \<and> length outs' = length ys \<and>
    (case r of Some v \<Rightarrow> latest (client_ops xs) k = Some v
     | None \<Rightarrow> in_window (flush_thread db) \<or>
         (\<exists>j \<le> length ys. latest (client_ops (xs @ take j ys)) k = Some TombValue \<or> r' = latest (client_ops (xs @ take j ys)) k))"
proof -
  let ?ops = "xs @ [Op (DGetBuffers k)] @ ys @ [Op (DGetFiles k)]"
  let ?a = "snd (sys_spec limit xs ds_new)" and ?b = "snd (sys_spec limit (xs @ ys) ds_new)"
  let ?r = "ds_get_buffers ?a k"
  have k: "length (wrap_key k) < 2 ^ 31" using assms(1) by (simp add: sys_runs_ok_def client_ops_append)
  obtain db0 outs s1 c n m where 1: "db_start limit files_limit cache_size lit = Some db0" "sys_run host iter xs (db0, CWait) = Some (outs, s1)"
    "list_all2 agrees outs (fst (sys_spec limit xs ds_new))" "sys_sim host iter files_limit limit c n m s1 ?a"
    using sys_run_sim [OF sys_runs_ok_prefix [OF assms(1)] assms(2-5), of limit lit host] by blast
  obtain s2 where 2: "sys_step host iter (Op (DGetBuffers k)) s1 = Some (Got ?r, s2)"
    using sys_sim_get_buffers [OF 1(4) k] by blast
  obtain all_outs db pc c' n' m' where 3: "sys_run host iter ?ops (db0, CWait) = Some (all_outs, db, pc)"
    "list_all2 agrees all_outs (fst (sys_spec limit ?ops ds_new))" "sys_sim host iter files_limit limit c' n' m' (db, pc) (snd (sys_spec limit ?ops ds_new))"
    using sys_run_sim [OF assms, of limit lit host] 1(1) by (metis option.inject prod.collapse)
  have spec: "snd (sys_spec limit ?ops ds_new) = ?b" "\<exists>souts. fst (sys_spec limit ?ops ds_new) = souts @ [Got (ds_get_files ?b k)]"
    by (simp_all add: sys_spec_append Let_def split_def)
  obtain rest where rest: "sys_run host iter (ys @ [Op (DGetFiles k)]) s2 = Some (rest, db, pc)" "all_outs = outs @ Got ?r # rest"
    using 3(1) 1(2) 2 unfolding sys_run_append [of host iter xs] append_Cons append_Nil sys_run.simps(2) by (auto split: bind_splits)
  obtain outs' x where x: "rest = outs' @ [x]" "length outs' = length ys" using sys_run_length [OF rest(1)] by (cases rest rule: rev_cases) auto
  obtain r' where r': "x = Got r'" "ds_get_files ?b k = Some TombValue \<or> r' = ds_get_files ?b k"
    using spec(2) 3(2) agrees_Got list_all2_snocD [of agrees "outs @ Got ?r # outs'" x] unfolding rest(2) x(1) by (metis append.assoc append_Cons)
  have "case ?r of Some v \<Rightarrow> latest (client_ops xs) k = Some v
     | None \<Rightarrow> in_window (flush_thread db) \<or>
         (\<exists>j \<le> length ys. latest (client_ops (xs @ take j ys)) k = Some TombValue \<or> r' = latest (client_ops (xs @ take j ys)) k)"
  proof (cases ?r)
    case None
    then show ?thesis using files_hold_moment [OF None, of ys] sys_sim_phase [OF 3(3)] r'(2) unfolding spec(1) by (simp, metis)
  next
    case (Some v)
    then have "ds_map ?a k = Some v" by (simp add: ds_map_def ds_get_buffers_def)
    then have "latest (client_ops xs) k = Some v" unfolding sys_spec_map(1) .
    then show ?thesis unfolding Some option.case .
  qed
  moreover have "sys_run host iter ?ops (db0, CWait) = Some (outs @ [Got ?r] @ outs' @ [Got r'], db, pc)" using 3(1) rest(2) x(1) r'(1) by simp
  ultimately show ?thesis using 1(1) x(2) sys_run_length [OF 1(2)] by blast
qed

theorem split_lookup_linearizable_witness:
  "\<exists>db0 outs r outs' r' db pc. db_start 0 1 2 Null = Some db0 \<and>
    sys_run LittleHost sorted_iter ([Op DFlushStep] @ [Op (DGetBuffers [60])] @
      [Op (DAdd Put [60] [7]), Op DFlushStep, CompactStep, Op DFlushStep, Op DFlushStep, Op DFlushStep, Op DFlushStep] @ [Op (DGetFiles [60])]) (db0, CWait) =
      Some (outs @ [Got r] @ outs' @ [Got r'], db, pc) \<and> length outs = 1 \<and> length outs' = 7 \<and>
    (r = None \<and> (in_window (flush_thread db) \<or> r' = None \<or> r' = Some [7]))"
proof -
  let ?xs = "[Op DFlushStep]"
  let ?ys = "[Op (DAdd Put [60] [7]), Op DFlushStep, CompactStep, Op DFlushStep, Op DFlushStep, Op DFlushStep, Op DFlushStep]"
  have len: "length (entry_bytes [60] [7]) = 4" "length (wrap_key [60]) = 2" by (simp_all add: entry_bytes_def wrap_key_def EncodeVarint32_def)
  have ok: "sys_runs_ok (?xs @ [Op (DGetBuffers [60])] @ ?ys @ [Op (DGetFiles [60])])"
    using len by (simp add: sys_runs_ok_def str_def kBlockSize_def stored_value_def)
  have args: "1 \<le> (2::int)" "1 \<le> (1::int)" "1 < (2::int) ^ 31" by simp_all
  have moments: "latest (client_ops (?xs @ take j ?ys)) [60] \<in> {None, Some [7]}" for j by (auto simp: take_Cons' stored_value_def)
  obtain db0 outs r outs' r' db pc where run: "db_start 0 1 2 Null = Some db0"
    "sys_run LittleHost sorted_iter (?xs @ [Op (DGetBuffers [60])] @ ?ys @ [Op (DGetFiles [60])]) (db0, CWait) = Some (outs @ [Got r] @ outs' @ [Got r'], db, pc)"
    "length outs = length ?xs" "length outs' = length ?ys"
    and found: "case r of Some v \<Rightarrow> latest (client_ops ?xs) [60] = Some v
     | None \<Rightarrow> in_window (flush_thread db) \<or>
         (\<exists>j \<le> length ?ys. latest (client_ops (?xs @ take j ?ys)) [60] = Some TombValue \<or> r' = latest (client_ops (?xs @ take j ?ys)) [60])"
    using split_lookup_linearizable [OF ok iterates_sorted_iter args, of 0 Null LittleHost] by blast
  have "r = None" using found by (cases r) simp_all
  moreover have "TombValue \<noteq> [7]" by (simp add: TombValue_def str_def)
  then have early: "w = Some TombValue \<or> r' = w \<Longrightarrow> w \<in> {None, Some [7]} \<Longrightarrow> r' = None \<or> r' = Some [7]" for w by auto
  have "in_window (flush_thread db) \<or> r' = None \<or> r' = Some [7]"
    using found unfolding \<open>r = None\<close> option.case
  proof (elim disjE exE conjE)
    fix j assume "latest (client_ops (?xs @ take j ?ys)) [60] = Some TombValue"
    from early [OF disjI1 [OF this] moments] show ?thesis by (rule disjI2)
  next
    fix j assume "r' = latest (client_ops (?xs @ take j ?ys)) [60]"
    from early [OF disjI2 [OF this] moments] show ?thesis by (rule disjI2)
  qed simp
  moreover have "length outs = 1" "length outs' = 7" using run(3,4) by simp_all
  ultimately show ?thesis using run(1,2) by blast
qed

end
