(* ===== verification/Event_Loop.thy ===== *)
theory Event_Loop
  imports Machines "HOL-Library.Multiset"
begin

text \<open>
  \<^verbatim>\<open>db/server_main.cpp\<close>, function \<^verbatim>\<open>main\<close>: the listening socket, the set of descriptors watched by epoll, and the loop that
  accepts connections and hands those with data to the thread pool.

  The calls into the kernel are choices of the environment, under what their manual pages say: \<^verbatim>\<open>epoll_wait\<close> reports watched
  descriptors, each once; \<^verbatim>\<open>accept\<close> gives a descriptor that is not open; \<^verbatim>\<open>close\<close> also ends the watch.  A descriptor is a
  number; a task of the pool is its descriptor.  The workers run beside the loop: a task may end, and close its
  socket, between \<^verbatim>\<open>AddTask\<close> and the \<^verbatim>\<open>epoll_ctl\<close> after it.
\<close>

section \<open>State\<close>

text \<open>\<open>MUnwatch\<close> is the place after \<^verbatim>\<open>AddTask\<close>; the lists are the events of the current round not yet handled.\<close>

datatype main_pc = MWait | MEvents "int list" | MUnwatch int "int list" | MExited

definition MAX_EVENTS :: nat where
  "MAX_EVENTS = 100"

record server =
  server_socket :: int
  watched :: "int set"
  open_clients :: "int set"
  tasks :: "int list"
  main :: main_pc

text \<open>The set-up: any call that fails ends the process.\<close>

definition main_start :: "int \<Rightarrow> bool \<Rightarrow> bool \<Rightarrow> bool \<Rightarrow> bool \<Rightarrow> server" where
  "main_start fd bound listening epoll_created added =
    (let s = \<lparr>server_socket = fd, watched = {}, open_clients = {}, tasks = [], main = MExited\<rparr> in
     if \<not> bound then s
     else if \<not> listening then s
     else if \<not> epoll_created then s
     else if \<not> added then s
     else s\<lparr>watched := {fd}, main := MWait\<rparr>)"


section \<open>The loop\<close>

text \<open>\<open>None\<close> is the result \<open>-1\<close>.\<close>

definition main_wait :: "int list option \<Rightarrow> server \<Rightarrow> server" where
  "main_wait events s = (case events of None \<Rightarrow> s\<lparr>main := MExited\<rparr> | Some fds \<Rightarrow> s\<lparr>main := MEvents fds\<rparr>)"

text \<open>An event of the listening socket; \<open>added\<close> is whether \<^verbatim>\<open>epoll_ctl\<close> succeeded.\<close>

definition main_accept :: "int option \<Rightarrow> bool \<Rightarrow> int list \<Rightarrow> server \<Rightarrow> server" where
  "main_accept client_socket added rest s =
    (case client_socket of
       None \<Rightarrow> s\<lparr>main := MExited\<rparr>
     | Some fd \<Rightarrow>
         if \<not> added then s\<lparr>open_clients := insert fd (open_clients s), main := MExited\<rparr>
         else s\<lparr>open_clients := insert fd (open_clients s), watched := insert fd (watched s), main := MEvents rest\<rparr>)"

definition main_task :: "int \<Rightarrow> int list \<Rightarrow> server \<Rightarrow> server" where
  "main_task fd rest s = s\<lparr>tasks := tasks s @ [fd], main := MUnwatch fd rest\<rparr>"

text \<open>\<^verbatim>\<open>EPOLL_CTL_DEL\<close> fails, without effect, when the descriptor is not watched any more.\<close>

definition main_unwatch :: "int \<Rightarrow> int list \<Rightarrow> server \<Rightarrow> server" where
  "main_unwatch fd rest s = s\<lparr>watched := watched s - {fd}, main := MEvents rest\<rparr>"

text \<open>The end of \<^verbatim>\<open>NetworkTask::Run\<close> on a worker: \<^verbatim>\<open>close\<close>, and the pool drops the task.\<close>

definition task_close :: "int \<Rightarrow> server \<Rightarrow> server" where
  "task_close fd s = s\<lparr>open_clients := open_clients s - {fd}, watched := watched s - {fd}, tasks := remove1 fd (tasks s)\<rparr>"

text \<open>A task that cannot parse a message ends the process.\<close>

definition task_exit :: "server \<Rightarrow> server" where
  "task_exit s = s\<lparr>main := MExited\<rparr>"

inductive server_step :: "server \<Rightarrow> server \<Rightarrow> bool" where
  wait: "main s = MWait \<Longrightarrow> (\<forall>fds. events = Some fds \<longrightarrow> distinct fds \<and> set fds \<subseteq> watched s \<and> length fds \<le> MAX_EVENTS) \<Longrightarrow> server_step s (main_wait events s)"
| next_round: "main s = MEvents [] \<Longrightarrow> server_step s (s\<lparr>main := MWait\<rparr>)"
| accept: "main s = MEvents (server_socket s # rest) \<Longrightarrow>
    (\<forall>fd. client_socket = Some fd \<longrightarrow> fd \<noteq> server_socket s \<and> fd \<notin> open_clients s) \<Longrightarrow>
    server_step s (main_accept client_socket added rest s)"
| task: "main s = MEvents (fd # rest) \<Longrightarrow> fd \<noteq> server_socket s \<Longrightarrow> server_step s (main_task fd rest s)"
| unwatch: "main s = MUnwatch fd rest \<Longrightarrow> server_step s (main_unwatch fd rest s)"
| close: "main s \<noteq> MExited \<Longrightarrow> fd \<in> set (tasks s) \<Longrightarrow> server_step s (task_close fd s)"
| parse_exit: "main s \<noteq> MExited \<Longrightarrow> fd \<in> set (tasks s) \<Longrightarrow> server_step s (task_exit s)"

inductive_cases server_stepE: "server_step s s'"

definition server_start :: "int \<Rightarrow> server \<Rightarrow> bool" where
  "server_start fd s \<longleftrightarrow> (\<exists>bound listening epoll_created added. s = main_start fd bound listening epoll_created added)"

definition server_reach :: "int \<Rightarrow> server \<Rightarrow> bool" where
  "server_reach fd s \<longleftrightarrow> reach (server_start fd) server_step s"


section \<open>The invariant\<close>

fun pending_events :: "main_pc \<Rightarrow> int list" where
  "pending_events (MEvents fds) = fds"
| "pending_events (MUnwatch fd fds) = fds"
| "pending_events _ = []"

fun handed_over :: "main_pc \<Rightarrow> int set" where
  "handed_over (MUnwatch fd fds) = {fd}"
| "handed_over _ = {}"

text \<open>
  The clients that are open are those watched and those with a task; both only for the one just handed over; the
  events still to be handled are of watched descriptors without a task.
\<close>

definition server_inv :: "int \<Rightarrow> server \<Rightarrow> bool" where
  "server_inv fd s \<longleftrightarrow> server_socket s = fd \<and> server_socket s \<notin> open_clients s \<and> distinct (tasks s) \<and>
    (main s \<noteq> MExited \<longrightarrow> server_socket s \<in> watched s \<and> open_clients s = (watched s - {server_socket s}) \<union> set (tasks s) \<and>
      watched s \<inter> set (tasks s) \<subseteq> handed_over (main s) \<and> watched s \<inter> handed_over (main s) \<subseteq> set (tasks s) \<and> server_socket s \<notin> handed_over (main s) \<and>
      distinct (pending_events (main s)) \<and> set (pending_events (main s)) \<subseteq> watched s - set (tasks s) - handed_over (main s))"

interpretation srv: machine_invariant "server_start fd" server_step "server_inv fd"
proof
  show "server_inv fd s" if "server_start fd s" for s
  proof -
    have "s = \<lparr>server_socket = fd, watched = {}, open_clients = {}, tasks = [], main = MExited\<rparr> \<or>
        s = \<lparr>server_socket = fd, watched = {fd}, open_clients = {}, tasks = [], main = MWait\<rparr>"
      using that by (auto simp: server_start_def main_start_def Let_def)
    then show ?thesis by (auto simp: server_inv_def)
  qed
  fix s s' assume inv: "server_inv fd s" and "server_step s s'"
  from this(2) show "server_inv fd s'"
  proof cases
    case (wait events)
    with inv show ?thesis by (cases events) (auto simp: server_inv_def main_wait_def)
  next
    case next_round
    with inv show ?thesis by (auto simp: server_inv_def)
  next
    case (accept rest client_socket added)
    with inv show ?thesis by (cases client_socket) (auto simp: server_inv_def main_accept_def)
  next
    case (task f rest)
    with inv show ?thesis by (auto simp: server_inv_def main_task_def)
  next
    case (unwatch f rest)
    with inv show ?thesis by (auto simp: server_inv_def main_unwatch_def)
  next
    case (close f)
    with inv show ?thesis by (cases "main s") (auto simp: server_inv_def task_close_def)
  next
    case (parse_exit f)
    with inv show ?thesis by (auto simp: server_inv_def task_exit_def)
  qed
qed



section \<open>Properties\<close>

text \<open>
  C35: Every connection is served once.  In every state the server reaches, however the workers interleave with the loop, no two
  tasks share a socket; the open connections are exactly those that epoll watches or that have a task, so that none is
  lost or leaked; and the loop only starts tasks for open connections that have none, also when the task of an earlier
  event of the same round has closed its socket before the loop stops watching it.
\<close>

theorem connections_served_once:
  assumes "server_reach fd s" "main s \<noteq> MExited"
  shows "distinct (tasks s) \<and> open_clients s = (watched s - {fd}) \<union> set (tasks s) \<and> fd \<in> watched s \<and>
    (\<forall>client rest. main s = MEvents (client # rest) \<longrightarrow> client \<noteq> fd \<longrightarrow> client \<in> open_clients s \<and> client \<notin> set (tasks s))"
proof -
  have "server_inv fd s" using srv.reach_inv [of fd s] assms(1) by (simp add: server_reach_def)
  then show ?thesis using assms(2) by (auto simp: server_inv_def)
qed

theorem connections_served_once_witness:
  "(let s = task_close 7 (main_task 7 [3] (main_wait (Some [7, 3]) ((main_accept (Some 7) True [] (main_wait (Some [3]) (main_start 3 True True True True)))\<lparr>main := MWait\<rparr>))) in
    tasks s = [] \<and> open_clients s = {} \<and> watched s = {3} \<and> main s = MUnwatch 7 [3])"
proof -
  let ?sta = "main_start 3 True True True True"
  let ?stb = "main_wait (Some [3]) ?sta"
  let ?stc = "main_accept (Some 7) True [] ?stb"
  let ?std = "?stc\<lparr>main := MWait\<rparr>"
  let ?ste = "main_wait (Some [7, 3]) ?std"
  let ?stf = "main_task 7 [3] ?ste"
  let ?final = "task_close 7 ?stf"
  note defs = main_start_def main_wait_def main_accept_def main_task_def task_close_def MAX_EVENTS_def Let_def
  have "server_start 3 ?sta" by (auto simp: server_start_def)
  then have r0: "reach (server_start 3) server_step ?sta" by (rule reach_start)
  have r1: "reach (server_start 3) server_step ?stb" by (rule reach_step [OF r0], rule wait) (simp_all add: defs)
  have r2: "reach (server_start 3) server_step ?stc" by (rule reach_step [OF r1], rule accept) (simp_all add: defs)
  have r3: "reach (server_start 3) server_step ?std" by (rule reach_step [OF r2], rule next_round) (simp_all add: defs)
  have r4: "reach (server_start 3) server_step ?ste" by (rule reach_step [OF r3], rule wait) (simp_all add: defs)
  have r5: "reach (server_start 3) server_step ?stf" by (rule reach_step [OF r4], rule task) (simp_all add: defs)
  have r6: "reach (server_start 3) server_step ?final" by (rule reach_step [OF r5], rule close) (simp_all add: defs)
  have v: "tasks ?final = []" "watched ?final = {3}" "main ?final = MUnwatch 7 [3]" by (auto simp: defs)
  have "server_reach 3 ?final" using r6 by (simp add: server_reach_def)
  from connections_served_once [OF this] v show ?thesis by (simp add: Let_def)
qed

end
