(* ===== verification/Engine_Open.thy ===== *)
theory Engine_Open
  imports Compaction_Total
begin

text \<open>
  Opening the store: the constructor of the engine on a folder of data files yields the invariant of the engine,
  and on the folder of a running engine it yields the same files again.
\<close>

section \<open>Reading the folder\<close>

primrec enter_all :: "File list \<Rightarrow> (int \<Rightarrow> File option) \<Rightarrow> int \<Rightarrow> File option" where
  "enter_all [] m = m"
| "enter_all (f # fs) m = enter_all fs (m(file_id f \<mapsto> f))"

primrec max_id :: "File list \<Rightarrow> int \<Rightarrow> int" where
  "max_id [] i = i"
| "max_id (f # fs) i = max_id fs (max i (file_id f))"

lemma enter_all_other: "i \<notin> file_id ` set fs \<Longrightarrow> enter_all fs m i = m i"
  by (induction fs arbitrary: m) auto

lemma enter_all_at: "distinct (map file_id fs) \<Longrightarrow> f \<in> set fs \<Longrightarrow> enter_all fs m (file_id f) = Some f"
  by (induction fs arbitrary: m) (auto simp: enter_all_other)

lemma max_id_ge: "i \<le> max_id fs i"
proof (induction fs arbitrary: i)
  case (Cons f fs)
  from Cons.IH [of "max i (file_id f)"] show ?case by simp
qed simp

lemma max_id_file: "f \<in> set fs \<Longrightarrow> file_id f \<le> max_id fs i"
proof (induction fs arbitrary: i)
  case (Cons g fs)
  have "file_id g \<le> max_id fs (max i (file_id g))" using max_id_ge [of "max i (file_id g)" fs] by simp
  with Cons show ?case by auto
qed simp

lemma max_id_le: "i \<le> n \<Longrightarrow> \<forall>f \<in> set fs. file_id f \<le> n \<Longrightarrow> max_id fs i \<le> n"
  by (induction fs arbitrary: i) auto

lemma read_folder_files:
  assumes "list_all2 (\<lambda>n f. File_new (data_folder eng) n = Some f) (filter (\<lambda>n. \<not> is_dot n) names) fs"
    and "\<forall>f \<in> set fs. 0 \<le> level_id f" "keys_sorted (level_files eng)"
  shows "\<exists>eng'. read_folder names eng = Some eng' \<and> keys_sorted (level_files eng') \<and>
    (\<forall>l. lm_at (level_files eng') l = lm_at (level_files eng) l @ filter (\<lambda>f. level_id f = l) fs) \<and>
    files_map eng' = enter_all fs (files_map eng) \<and>
    last_file_id eng' = max_id fs (last_file_id eng) \<and> data_folder eng' = data_folder eng \<and>
    level0_files_number_limit eng' = level0_files_number_limit eng"
  using assms
proof (induction names arbitrary: eng fs)
  case (Cons name names)
  show ?case
  proof (cases "is_dot name")
    case True
    then show ?thesis using Cons by simp
  next
    case False
    then obtain f gs where fs: "fs = f # gs" "File_new (data_folder eng) name = Some f"
      "list_all2 (\<lambda>n f. File_new (data_folder eng) n = Some f) (filter (\<lambda>n. \<not> is_dot n) names) gs"
      using Cons.prems(1) by (auto simp: list_all2_Cons1)
    define eng1 where "eng1 = eng\<lparr>level_files := lm_set (level_files eng) (level_id f) (lm_at (level_files eng) (level_id f) @ [f]),
      files_map := (files_map eng)(file_id f \<mapsto> f), last_file_id := max (last_file_id eng) (file_id f)\<rparr>"
    have l: "0 \<le> level_id f" using Cons.prems(2) fs(1) by simp
    note at = lm_at_set [OF Cons.prems(3) l]
    have "list_all2 (\<lambda>n f. File_new (data_folder eng1) n = Some f) (filter (\<lambda>n. \<not> is_dot n) names) gs" "keys_sorted (level_files eng1)"
      using fs(3) at(2) by (simp_all add: eng1_def)
    from Cons.IH [OF this(1) _ this(2)] Cons.prems(2) obtain eng' where
      "read_folder names eng1 = Some eng'" "keys_sorted (level_files eng')"
      "\<forall>l. lm_at (level_files eng') l = lm_at (level_files eng1) l @ filter (\<lambda>f. level_id f = l) gs"
      "files_map eng' = enter_all gs (files_map eng1)"
      "last_file_id eng' = max_id gs (last_file_id eng1)" "data_folder eng' = data_folder eng1"
      "level0_files_number_limit eng' = level0_files_number_limit eng1"
      unfolding fs(1) by auto
    moreover have "read_folder (name # names) eng = read_folder names eng1" using False fs(2) by (simp add: eng1_def Let_def)
    ultimately show ?thesis using at(1) by (auto simp: eng1_def fs(1))
  qed
qed simp


section \<open>The invariant\<close>

lemma sorted_apart:
  assumes "sorted (map lower_bound fs)" "distinct fs" "\<forall>f \<in> set fs. bounded f" "\<forall>f \<in> set fs. \<forall>g \<in> set fs. f \<noteq> g \<longrightarrow> apart f g"
  shows "sorted_wrt (\<lambda>f g. upper_bound f < lower_bound g) fs"
  using assms
proof (induction fs)
  case (Cons f fs)
  have "upper_bound f < lower_bound g" if g: "g \<in> set fs" for g
  proof -
    have "apart f g" using Cons.prems(2,4) g by auto
    moreover have "lower_bound f \<le> lower_bound g" "lower_bound g \<le> upper_bound g" using Cons.prems(1,3) g by (auto simp: bounded_def)
    ultimately show ?thesis unfolding apart_def by (meson leD order.trans)
  qed
  with Cons show ?case by simp
qed simp

text \<open>A folder: its files in the order of \<^verbatim>\<open>readdir\<close>, each of which opens to the file it was written as.\<close>

definition folder_ok :: "host \<Rightarrow> iteration \<Rightarrow> disk \<Rightarrow> (int \<Rightarrow> kv list) \<Rightarrow> File list \<Rightarrow> bool" where
  "folder_ok host iter d cont fs \<longleftrightarrow> distinct (map file_id fs) \<and>
    (\<forall>f \<in> set fs. 0 \<le> level_id f \<and> level_id f < 2 ^ 31 \<and> 0 \<le> file_id f \<and> holds_image host iter f (cont (file_id f)) \<and> on_disk host iter d f (cont (file_id f))) \<and>
    (\<forall>f \<in> set fs. \<forall>g \<in> set fs. f \<noteq> g \<longrightarrow> level_id f = level_id g \<longrightarrow> 1 \<le> level_id f \<longrightarrow> apart f g)"

lemma File_new_again:
  assumes "holds_image host iter f es" "on_disk host iter d f es" "0 \<le> level_id f" "level_id f < 2 ^ 31" "0 \<le> file_id f"
  shows "File_new d (file_name f) = Some f"
proof -
  obtain g where "File_new d (file_name f) = Some g" "holds_image host iter g es" "level_id g = level_id f" "file_id g = file_id f"
    "file_name g = file_name f"
    using File_new_image [of "level_id f" "file_id f" "file_name f" d host iter es] assms by (auto simp: on_disk_def holds_image_def)
  with assms(1) show ?thesis by (simp add: holds_image_def)
qed

lemma StorageEngine_new_ok:
  assumes F: "folder_ok host iter d cont fs" and names: "filter (\<lambda>n. \<not> is_dot n) names = map file_name fs"
  shows "\<exists>eng. StorageEngine_new d names limit = Some eng \<and> eng_ok host iter eng cont \<and> disk_ok host iter eng cont \<and>
    set (all_files eng) = set fs \<and> level0_files_number_limit eng = limit \<and> data_folder eng = d \<and>
    last_file_id eng = max_id fs (-1)"
proof -
  let ?e0 = "\<lparr>last_file_id = -1, level0_files_number_limit = limit, level_files = [], files_map = Map.empty, data_folder = d, compact_notified = 0\<rparr>"
  have f: "0 \<le> level_id f" "level_id f < 2 ^ 31" "0 \<le> file_id f" "holds_image host iter f (cont (file_id f))" "on_disk host iter d f (cont (file_id f))"
    "File_new d (file_name f) = Some f" "bounded f" if "f \<in> set fs" for f
    using F that File_new_again [of host iter f "cont (file_id f)" d] holds_image_bounded by (auto simp: folder_ok_def)
  have ids: "distinct (map file_id fs)" using F by (simp add: folder_ok_def)
  have "list_all2 (\<lambda>n f. File_new (data_folder ?e0) n = Some f) (filter (\<lambda>n. \<not> is_dot n) names) fs"
    unfolding names using f(6) by (simp add: list_all2_map1 list_all2_same)
  moreover have "keys_sorted (level_files ?e0)" by (simp add: keys_sorted_def)
  ultimately obtain e1 where r: "read_folder names ?e0 = Some e1" "keys_sorted (level_files e1)"
    "\<forall>l. lm_at (level_files e1) l = filter (\<lambda>f. level_id f = l) fs" "files_map e1 = enter_all fs Map.empty"
    "last_file_id e1 = max_id fs (-1)" "data_folder e1 = d" "level0_files_number_limit e1 = limit"
    using read_folder_files [of ?e0 names fs] f(1) by (auto simp: lm_at_def [of "[]"])
  define eng where "eng = e1\<lparr>level_files := map (\<lambda>(l, fs). (l, sort_key lower_bound fs)) (level_files e1)\<rparr>"
  have new: "StorageEngine_new d names limit = Some eng" using r(1) by (simp add: StorageEngine_new_def eng_def)
  have at: "lm_at (level_files eng) l = sort_key lower_bound (filter (\<lambda>f. level_id f = l) fs)" for l
    unfolding r(3) [rule_format, symmetric] by (simp add: eng_def lm_at_def map_of_map split: option.split)
  have ks: "keys_sorted (level_files eng)" using r(2) by (auto simp: keys_sorted_def eng_def o_def case_prod_unfold)
  have "f \<in> set (all_files eng) \<longleftrightarrow> f \<in> set fs" for f unfolding all_files_def in_all_files [OF ks] at by simp
  then have all: "set (all_files eng) = set fs" by blast
  have "level_list l (lm_at (level_files eng) l)" for l
  proof -
    let ?gs = "sort_key lower_bound (filter (\<lambda>f. level_id f = l) fs)"
    have "mset (map file_id ?gs) = mset (map file_id (filter (\<lambda>f. level_id f = l) fs))" by simp
    then have d: "distinct (map file_id ?gs)" using ids by (metis distinct_map_filter mset_eq_imp_distinct_iff)
    have "sorted_wrt (\<lambda>f g. upper_bound f < lower_bound g) ?gs" if "1 \<le> l"
      using F f(7) that d by (intro sorted_apart) (auto simp: folder_ok_def distinct_map)
    with d show ?thesis by (simp add: level_list_def at)
  qed
  moreover have "\<forall>f \<in> set fs. file_ok host iter eng cont f"
    using enter_all_at [OF ids] max_id_file f r(4,5) by (simp add: file_ok_def eng_def)
  moreover have "-1 \<le> last_file_id eng" using max_id_ge r(5) by (simp add: eng_def)
  ultimately have "eng_ok host iter eng cont" using ks by (simp add: eng_ok_levels levels_ok_def all)
  moreover have df: "data_folder eng = d" using r(6) by (simp add: eng_def)
  then have "disk_ok host iter eng cont" using f by (simp add: disk_ok_def all)
  ultimately show ?thesis using new all df r(5,7) by (auto simp: eng_def)
qed

text \<open>A running engine leaves such a folder.\<close>

lemma eng_folder_ok:
  assumes ok: "eng_ok host iter eng cont" and disk: "disk_ok host iter eng cont" and fs: "mset fs = mset (all_files eng)"
  shows "folder_ok host iter (data_folder eng) cont fs"
proof -
  have set: "set fs = set (all_files eng)" using fs by (metis set_mset_mset)
  have "mset (map file_id fs) = mset (map file_id (all_files eng))" by (simp add: fs)
  moreover have "distinct (map file_id (all_files eng))" using ok by (simp add: eng_ok_def)
  ultimately have "distinct (map file_id fs)" using mset_eq_imp_distinct_iff by blast
  moreover have "0 \<le> level_id f \<and> 0 \<le> file_id f \<and> holds_image host iter f (cont (file_id f))" if "f \<in> set fs" for f
    using eng_file(1,3) [OF ok, of f] that unfolding set by (simp add: file_ok_def)
  moreover have "apart f g" if "f \<in> set fs" "g \<in> set fs" "f \<noteq> g" "level_id f = level_id g" "1 \<le> level_id f" for f g
  proof -
    have lev: "level_list (level_id f) (lm_at (level_files eng) (level_id f))" using ok by (simp add: eng_ok_levels levels_ok_def)
    have "f \<in> set (lm_at (level_files eng) (level_id f))" "g \<in> set (lm_at (level_files eng) (level_id f))"
      using eng_file(2) [OF ok, of f] eng_file(2) [OF ok, of g] that by (simp_all add: set)
    then show ?thesis using level_apart [OF lev that(5)] that(3) by blast
  qed
  ultimately show ?thesis using disk by (simp add: folder_ok_def disk_ok_def set)
qed

end
