(* ===== verification/Engine_Runs.thy ===== *)
theory Engine_Runs
  imports Engine_Open Database_Correct
begin

text \<open>
  Histories of the storage engine: flushed buffers, compactions and restarts, in any order.
\<close>

section \<open>Runs\<close>

datatype engine_op = EFlush "kv list" | ECompact | EReopen

text \<open>
  A flush is what the flush thread does with the entries of a buffer; a compaction is what the compaction thread
  does when it is woken; a restart opens the folder again.  \<^verbatim>\<open>readdir\<close> is the operating system's.
\<close>

definition flush_content :: "host \<Rightarrow> iteration \<Rightarrow> StorageEngine \<Rightarrow> ByteArray list \<Rightarrow> u32 \<Rightarrow> StorageEngine option" where
  "flush_content host iter eng content content_size =
    do { (fid, name, eng1) \<leftarrow> NewWritableFile eng 0;
         (img, key_offset) \<leftarrow> Flush host iter content Map.empty content_size;
         AddFile (write_file eng1 name img) name }"

fun engine_step :: "host \<Rightarrow> iteration \<Rightarrow> (disk \<Rightarrow> bytes list) \<Rightarrow> u32 \<Rightarrow> engine_op \<Rightarrow> StorageEngine \<Rightarrow> StorageEngine option" where
  "engine_step host iter readdir bsize (EFlush es) eng = flush_content host iter eng (map array_of es) (of_nat (length (entries_of es)))"
| "engine_step host iter readdir bsize ECompact eng = Compact host iter bsize eng 0"
| "engine_step host iter readdir bsize EReopen eng =
    StorageEngine_new (data_folder eng) (readdir (data_folder eng)) (level0_files_number_limit eng)"

fun engine_run :: "host \<Rightarrow> iteration \<Rightarrow> (disk \<Rightarrow> bytes list) \<Rightarrow> u32 \<Rightarrow> engine_op list \<Rightarrow> StorageEngine \<Rightarrow> StorageEngine option" where
  "engine_run host iter readdir bsize [] eng = Some eng"
| "engine_run host iter readdir bsize (op # ops) eng =
    do { eng1 \<leftarrow> engine_step host iter readdir bsize op eng; engine_run host iter readdir bsize ops eng1 }"

text \<open>A history from an empty folder.\<close>

definition engine_history :: "host \<Rightarrow> iteration \<Rightarrow> (disk \<Rightarrow> bytes list) \<Rightarrow> u32 \<Rightarrow> int \<Rightarrow> engine_op list \<Rightarrow> StorageEngine option" where
  "engine_history host iter readdir bsize limit ops =
    do { eng \<leftarrow> StorageEngine_new Map.empty (readdir Map.empty) limit; engine_run host iter readdir bsize ops eng }"

text \<open>The lookup of the database in the files, with an empty cache.\<close>

definition engine_get :: "host \<Rightarrow> int \<Rightarrow> StorageEngine \<Rightarrow> bytes \<Rightarrow> bytes option option" where
  "engine_get host cache_size eng k =
    do { (r, c) \<leftarrow> search_files host eng k (concat (GetContainsFiles eng k)) (LRUCache_new cache_size); Some r }"

text \<open>What \<^verbatim>\<open>readdir\<close> promises: each file once, and possibly names that start with a dot.\<close>

definition lists_folder :: "(disk \<Rightarrow> bytes list) \<Rightarrow> bool" where
  "lists_folder readdir \<longleftrightarrow> (\<forall>d. finite (dom d) \<longrightarrow> distinct (readdir d) \<and>
    (\<forall>n. \<not> is_dot n \<longrightarrow> (n \<in> set (readdir d) \<longleftrightarrow> d (FilePath n) \<noteq> None)))"

text \<open>The map a history stands for: later flushes override earlier ones.\<close>

fun engine_map :: "engine_op list \<Rightarrow> (bytes \<Rightarrow> bytes option) \<Rightarrow> bytes \<Rightarrow> bytes option" where
  "engine_map [] m = m"
| "engine_map (EFlush es # ops) m = engine_map ops (m ++ map_of es)"
| "engine_map (ECompact # ops) m = engine_map ops m"
| "engine_map (EReopen # ops) m = engine_map ops m"

text \<open>The amounts of a history that the bounds are about.\<close>

fun op_content :: "engine_op \<Rightarrow> kv list" where
  "op_content (EFlush es) = es"
| "op_content ECompact = []"
| "op_content EReopen = []"

definition entry_total :: "engine_op list \<Rightarrow> nat" where
  "entry_total ops = sum_list (map (\<lambda>op. length (op_content op)) ops)"

definition byte_total :: "engine_op list \<Rightarrow> nat" where
  "byte_total ops = sum_list (map (\<lambda>op. length (entries_of (op_content op))) ops)"

definition engine_ops_ok :: "nat \<Rightarrow> engine_op list \<Rightarrow> bool" where
  "engine_ops_ok K ops \<longleftrightarrow> (\<forall>es. EFlush es \<in> set ops \<longrightarrow> content_ok es) \<and> byte_total ops < 2 ^ 28 \<and>
    entry_total ops \<le> 10 ^ K \<and> K < 2 ^ 30 \<and> length ops + entry_total ops * entry_total ops * K < 10 ^ 8"


section \<open>The invariant of a run\<close>

text \<open>\<open>C\<close> bounds the entries of the whole history; \<open>n\<close>, \<open>b\<close> and \<open>m\<close> are the entries, bytes and operations so far.\<close>

definition engine_inv :: "host \<Rightarrow> iteration \<Rightarrow> nat \<Rightarrow> nat \<Rightarrow> int \<Rightarrow> nat \<Rightarrow> nat \<Rightarrow> nat \<Rightarrow> StorageEngine \<Rightarrow> (int \<Rightarrow> kv list) \<Rightarrow> (bytes \<Rightarrow> bytes option) \<Rightarrow> bool" where
  "engine_inv host iter C K limit n b m eng cont M \<longleftrightarrow> eng_ok host iter eng cont \<and> disk_ok host iter eng cont \<and> leftover eng = {} \<and>
    over eng \<subseteq> {0} \<and> level0_files_number_limit eng = limit \<and> eng_count eng cont \<le> n \<and> eng_size eng cont \<le> b \<and>
    last_file_id eng + int (C * potential (int K) eng cont) < int (m + C * (n * K)) \<and>
    (\<forall>k. M k \<noteq> Some TombValue \<longrightarrow> eng_lookup eng cont k = M k)"

lemma engine_invD:
  assumes "engine_inv host iter C K limit n b m eng cont M"
  shows "eng_ok host iter eng cont" "disk_ok host iter eng cont" "leftover eng = {}" "over eng \<subseteq> {0}" "level0_files_number_limit eng = limit"
    "eng_count eng cont \<le> n" "eng_size eng cont \<le> b" "last_file_id eng + int (C * potential (int K) eng cont) < int (m + C * (n * K))"
    "M k \<noteq> Some TombValue \<Longrightarrow> eng_lookup eng cont k = M k"
  using assms unfolding engine_inv_def by blast+

text \<open>A flush adds one file to level 0.\<close>

lemma over_level0:
  assumes ok: "eng_ok host iter eng cont" "eng_ok host iter eng' cont'" and all: "set (all_files eng') = insert f (set (all_files eng))"
    and f: "level_id f = 0" and lim: "level0_files_number_limit eng' = level0_files_number_limit eng"
  shows "over eng' \<subseteq> over eng \<union> {0}"
proof -
  have "{g \<in> set (all_files eng'). level_id g = j} = {g \<in> set (all_files eng). level_id g = j}" if "j \<noteq> 0" for j
    using all f that by auto
  then have "length (lm_at (level_files eng') j) = length (lm_at (level_files eng) j)" if "j \<noteq> 0" for j
    using that by (simp add: level_length [OF ok(1)] level_length [OF ok(2)])
  then show ?thesis using lim by (auto simp: over_def)
qed

lemma added_totals:
  fixes cont :: "int \<Rightarrow> kv list"
  assumes all: "set (all_files eng') = insert f (set (all_files eng))" and f: "f \<notin> set (all_files eng)" "level_id f = 0"
    and old: "\<forall>g \<in> set (all_files eng). file_id g \<noteq> file_id f"
    and cont': "cont' = cont(file_id f := es)"
  shows "eng_count eng' cont' = eng_count eng cont + length es" "eng_size eng' cont' = eng_size eng cont + length (entries_of es)"
    "potential (int K) eng' cont' = potential (int K) eng cont + length es * K"
proof -
  have sum: "(\<Sum>g \<in> set (all_files eng'). h g (cont' (file_id g))) = (\<Sum>g \<in> set (all_files eng). h g (cont (file_id g))) + (h f es :: nat)" for h
  proof -
    have "(\<Sum>g \<in> set (all_files eng). h g (cont' (file_id g))) = (\<Sum>g \<in> set (all_files eng). h g (cont (file_id g)))"
      using old by (intro sum.cong) (simp_all add: cont')
    then show ?thesis unfolding all using f(1) by (simp add: cont')
  qed
  show "eng_count eng' cont' = eng_count eng cont + length es" "eng_size eng' cont' = eng_size eng cont + length (entries_of es)"
    "potential (int K) eng' cont' = potential (int K) eng cont + length es * K"
    unfolding eng_count_def eng_size_def potential_def using sum [of "\<lambda>_. length"] sum [of "\<lambda>_ es. length (entries_of es)"]
      sum [of "\<lambda>f es. length es * nat (int K - level_id f)"] f(2) by simp_all
qed

lemma flush_inv:
  assumes inv: "engine_inv host iter C K limit n b m eng cont M" and it: "iterates iter" and es: "content_ok es"
    and size: "b + length (entries_of es) < 2 ^ 28" and last: "last_file_id eng + 1 < 10 ^ 8"
  shows "\<exists>eng' cont'. flush_content host iter eng (map array_of es) (of_nat (length (entries_of es))) = Some eng' \<and>
    engine_inv host iter C K limit (n + length es) (b + length (entries_of es)) (Suc m) eng' cont' (M ++ map_of es)"
proof -
  note d = engine_invD [OF inv]
  let ?fid = "last_file_id eng + 1"
  have fid: "0 \<le> ?fid" using d(1) by (simp add: eng_ok_def)
  obtain name where name: "FileName 0 ?fid = Some name" using FileName_fits(1) [OF fid, of 0] last by simp
  have len: "length (file_image host iter es) < 2 ^ 32" using size by (intro image_bound [OF it es]) simp
  define eng1 where "eng1 = eng\<lparr>last_file_id := ?fid, data_folder := (data_folder eng)(FilePath name \<mapsto> [])\<rparr>"
  have new: "NewWritableFile eng 0 = Some (?fid, name, eng1)" using last name by (simp add: NewWritableFile_def eng1_def Let_def)
  let ?eng2 = "write_file eng1 name (file_image host iter es)"
  note w = NewWritableFile_ok [OF d(1) new es len]
  have parts: "all_files ?eng2 = all_files eng" "data_folder ?eng2 = (data_folder eng)(FilePath name \<mapsto> file_image host iter es)"
    "level0_files_number_limit ?eng2 = level0_files_number_limit eng" "last_file_id ?eng2 = ?fid"
    by (simp_all add: write_file_def eng1_def all_files_def)
  obtain eng' f where a: "AddFile ?eng2 name = Some eng'" "eng_ok host iter eng' (cont(?fid := es))"
    "\<forall>k. eng_lookup eng' (cont(?fid := es)) k = (case map_of es k of Some v \<Rightarrow> Some v | None \<Rightarrow> eng_lookup ?eng2 cont k)"
    "last_file_id eng' = ?fid" "data_folder eng' = data_folder ?eng2" "level0_files_number_limit eng' = level0_files_number_limit eng"
    "set (all_files eng') = insert f (set (all_files eng))" "level_id f = 0" "file_id f = ?fid" "file_name f = name"
    using AddFile_pending [OF w(1,2)] unfolding parts by blast
  have old: "\<forall>g \<in> set (all_files eng). file_id g \<noteq> ?fid" using w(2) by (simp add: pending_def parts(1))
  then have fnew: "f \<notin> set (all_files eng)" using a(9) by auto
  note tot = added_totals [OF a(7) fnew a(8), unfolded a(9), OF old refl]
  have diff: "FilePath (file_name g) \<noteq> FilePath name" if "g \<in> set (all_files eng)" for g
    using FileName_inj [of "level_id g" "file_id g" "file_name g" 0 ?fid] old d(2) eng_file(1,3) [OF d(1) that] fid name that
    by (auto simp: disk_ok_def on_disk_def FilePath_inj file_ok_def)
  have "disk_ok host iter eng' (cont(?fid := es))"
    using d(2) diff old a(7-10) name by (auto simp: disk_ok_def on_disk_def a(5) parts(2) FilePath_inj)
  moreover have "leftover eng' = {}" using d(3) a(7,10) by (auto simp: leftover_def a(5) parts(2) paths_def split: if_splits)
  moreover have "over eng' \<subseteq> {0}" using over_level0 [OF d(1) a(2,7,8,6)] d(4) by blast
  moreover have "last_file_id eng' + int (C * potential (int K) eng' (cont(?fid := es))) < int (Suc m + C * ((n + length es) * K))"
    using d(8) unfolding a(4) tot(3) by (simp add: distrib_left distrib_right)
  moreover have "eng_lookup eng' (cont(?fid := es)) k = (M ++ map_of es) k" if "(M ++ map_of es) k \<noteq> Some TombValue" for k
    using a(3) d(9) [of k] that by (auto simp: w(3) map_add_def split: option.splits)
  ultimately have "engine_inv host iter C K limit (n + length es) (b + length (entries_of es)) (Suc m) eng' (cont(?fid := es)) (M ++ map_of es)"
    using a(2,6) d(5-7) tot(1,2) unfolding engine_inv_def by simp
  moreover have "flush_content host iter eng (map array_of es) (of_nat (length (entries_of es))) = Some eng'"
    using new a(1) Flush_correct [OF shows_array_of es] by (simp add: flush_content_def)
  ultimately show ?thesis by blast
qed

lemma compact_inv:
  assumes inv: "engine_inv host iter C K limit n b m eng cont M" and it: "iterates iter" and lim: "1 \<le> limit" "limit < 2 ^ 31"
    and bd: "n \<le> C" "C \<le> 10 ^ K" "K < 2 ^ 30" "b < 2 ^ 28" "m + C * (C * K) < 10 ^ 8"
  shows "\<exists>eng' cont'. Compact host iter bsize eng 0 = Some eng' \<and> engine_inv host iter C K limit n b (Suc m) eng' cont' M \<and> over eng' = {}"
proof -
  note d = engine_invD [OF inv]
  have "C * (n * K) \<le> C * (C * K)" using bd(1) by simp
  moreover have "m + C * (C * K) < 100000000" using bd(5) by simp
  ultimately have "last_file_id eng + int (C * potential (int K) eng cont) < 100000000" using d(8) by linarith
  then have "compact_pre host iter C K eng cont" using d bd lim unfolding compact_pre_def by simp
  then obtain eng' cont' where c: "Compact host iter bsize eng 0 = Some eng'" "compact_pre host iter C K eng' cont'" "settles C K eng cont eng' cont'"
    "over eng' = {}" using Compact_total [OF _ it, of host C K eng cont 0 bsize] d(4,5) lim by auto
  have s: "keeps_live eng cont eng' cont'" "level0_files_number_limit eng' = limit" "leftover eng' = {}" "eng_count eng' cont' \<le> n" "eng_size eng' cont' \<le> b"
    "last_file_id eng' + int (C * potential (int K) eng' cont') < int (Suc m + C * (n * K))"
    using c(3) d(3,5-8) by (auto simp: settles_def)
  have "eng_lookup eng' cont' k = M k" if "M k \<noteq> Some TombValue" for k using d(9) [OF that] s(1) that by (simp add: keeps_live_def)
  then have "engine_inv host iter C K limit n b (Suc m) eng' cont' M" using c(2,4) s unfolding engine_inv_def compact_pre_def by auto
  with c(1,4) show ?thesis by blast
qed

text \<open>A restart finds the same files.\<close>

lemma file_name_not_dot: "FileName l i = Some n \<Longrightarrow> 0 \<le> l \<Longrightarrow> \<not> is_dot n"
proof -
  assume "FileName l i = Some n" "0 \<le> l"
  then have n: "n = decimal (nat l) @ 95 # format_08d i" by (auto simp: FileName_def to_string_int_def Let_def split: if_splits)
  have "decimal (nat l) \<noteq> []" by (subst decimal.simps) simp
  then have "hd n \<in> set (decimal (nat l))" by (simp add: n)
  then have "is_digit (hd n)" using decimal_digits [of "nat l"] by blast
  then show ?thesis using digit_not_special n by (auto simp: is_dot_def is_digit_def)
qed

lemma folder_names:
  assumes ok: "eng_ok host iter eng cont" and disk: "disk_ok host iter eng cont" and left: "leftover eng = {}" and rd: "lists_folder readdir"
  obtains fs where "filter (\<lambda>n. \<not> is_dot n) (readdir (data_folder eng)) = map file_name fs" "mset fs = mset (all_files eng)"
proof -
  let ?d = "data_folder eng" and ?A = "set (all_files eng)"
  have f: "FileName (level_id f) (file_id f) = Some (file_name f)" "?d (FilePath (file_name f)) \<noteq> None" "0 \<le> level_id f" "0 \<le> file_id f" "level_id f < 2 ^ 31" if "f \<in> ?A" for f
    using disk eng_file(1,3) [OF ok that] that by (auto simp: disk_ok_def on_disk_def file_ok_def)
  have inj: "inj_on file_name ?A"
    using f FileName_inj same_file [OF ok] by (intro inj_onI) (metis (no_types, lifting))
  have dom: "?d path \<noteq> None \<longleftrightarrow> path \<in> paths (all_files eng)" for path using left f(2) by (auto simp: leftover_def paths_def)
  then have "dom ?d = paths (all_files eng)" by (simp add: dom_def)
  then have rdd: "distinct (readdir ?d)" "\<And>n. \<not> is_dot n \<Longrightarrow> n \<in> set (readdir ?d) \<longleftrightarrow> ?d (FilePath n) \<noteq> None"
    using rd by (simp_all add: lists_folder_def paths_def)
  let ?ns = "filter (\<lambda>n. \<not> is_dot n) (readdir ?d)" and ?fs = "map (the_inv_into ?A file_name) (filter (\<lambda>n. \<not> is_dot n) (readdir ?d))"
  have ns: "set ?ns = file_name ` ?A"
    using rdd(2) file_name_not_dot [OF f(1) f(3)] unfolding dom by (auto simp: paths_def FilePath_inj)
  have "map file_name ?fs = map (\<lambda>n. n) ?ns" unfolding map_map
    by (rule map_cong [OF refl]) (simp add: f_the_inv_into_f [OF inj] ns [symmetric])
  then have "map file_name ?fs = ?ns" by simp
  moreover have "mset ?fs = mset (all_files eng)"
  proof -
    have "set ?fs = ?A" using ns the_inv_into_f_f [OF inj] by (auto simp: image_image)
    moreover have "inj_on (the_inv_into ?A file_name) (set ?ns)" unfolding ns by (rule inj_on_the_inv_into [OF inj])
    then have "distinct ?fs" using rdd(1) by (simp add: distinct_map)
    moreover have "distinct (all_files eng)" using ok by (simp add: eng_ok_def distinct_map)
    ultimately show ?thesis by (metis set_eq_iff_mset_eq_distinct)
  qed
  ultimately show thesis using that [of ?fs] by simp
qed

lemma same_files:
  assumes ok: "eng_ok host iter eng cont" "eng_ok host iter eng' cont" and all: "set (all_files eng') = set (all_files eng)"
  shows "eng_lookup eng' cont = eng_lookup eng cont" "eng_count eng' cont = eng_count eng cont" "eng_size eng' cont = eng_size eng cont"
    "potential P eng' cont = potential P eng cont" "level0_files_number_limit eng' = level0_files_number_limit eng \<Longrightarrow> over eng' = over eng"
proof -
  have "eng_lookup eng' cont k = Some v \<longleftrightarrow> eng_lookup eng cont k = Some v" for k v
    using eng_lookup_wins [OF ok(1), of k v] eng_lookup_wins [OF ok(2), of k v] all by simp
  then show "eng_lookup eng' cont = eng_lookup eng cont" by (metis ext not_None_eq)
  show "over eng' = over eng" if "level0_files_number_limit eng' = level0_files_number_limit eng"
    using that by (simp add: over_def level_length [OF ok(1)] level_length [OF ok(2)] all)
qed (simp_all add: eng_count_def eng_size_def potential_def all)

lemma reopen_inv:
  assumes inv: "engine_inv host iter C K limit n b m eng cont M" and rd: "lists_folder readdir"
  shows "\<exists>eng'. StorageEngine_new (data_folder eng) (readdir (data_folder eng)) limit = Some eng' \<and> engine_inv host iter C K limit n b (Suc m) eng' cont M"
proof -
  note d = engine_invD [OF inv]
  obtain fs where fs: "filter (\<lambda>n. \<not> is_dot n) (readdir (data_folder eng)) = map file_name fs" "mset fs = mset (all_files eng)"
    by (rule folder_names [OF d(1-3) rd])
  obtain eng' where e: "StorageEngine_new (data_folder eng) (readdir (data_folder eng)) limit = Some eng'" "eng_ok host iter eng' cont"
    "disk_ok host iter eng' cont" "set (all_files eng') = set fs" "level0_files_number_limit eng' = limit" "data_folder eng' = data_folder eng"
    "last_file_id eng' = max_id fs (-1)"
    using StorageEngine_new_ok [OF eng_folder_ok [OF d(1,2) fs(2)] fs(1), of limit] by blast
  have all: "set (all_files eng') = set (all_files eng)" using e(4) fs(2) by (metis set_mset_mset)
  have "last_file_id eng' \<le> last_file_id eng"
    unfolding e(7) using d(1) eng_file(1) [OF d(1)] e(4) all by (intro max_id_le) (auto simp: eng_ok_def file_ok_def)
  moreover have "leftover eng' = {}" using d(3) all by (simp add: leftover_def paths_def e(6))
  ultimately have "engine_inv host iter C K limit n b (Suc m) eng' cont M"
    using d e(2,3,5) same_files [OF d(1) e(2) all] unfolding engine_inv_def by simp
  with e(1) show ?thesis by blast
qed

text \<open>The whole run.\<close>

lemma engine_run_inv:
  assumes "engine_inv host iter C K limit n b m eng cont M" and it: "iterates iter" and rd: "lists_folder readdir" and lim: "1 \<le> limit" "limit < 2 ^ 31"
    and "\<forall>es. EFlush es \<in> set ops \<longrightarrow> content_ok es" "n + entry_total ops \<le> C" "b + byte_total ops < 2 ^ 28" "m + length ops + C * (C * K) < 10 ^ 8"
    and CK: "C \<le> 10 ^ K" "K < 2 ^ 30"
  shows "\<exists>eng' cont'. engine_run host iter readdir bsize ops eng = Some eng' \<and>
    engine_inv host iter C K limit (n + entry_total ops) (b + byte_total ops) (m + length ops) eng' cont' (engine_map ops M)"
  using assms(1,6-9)
proof (induction ops arbitrary: n b m eng cont M)
  case (Cons op ops)
  note d = engine_invD [OF Cons.prems(1)]
  have step: "\<exists>eng1 cont1. engine_step host iter readdir bsize op eng = Some eng1 \<and>
    engine_inv host iter C K limit (n + length (op_content op)) (b + length (entries_of (op_content op))) (Suc m) eng1 cont1 (engine_map [op] M)"
  proof (cases op)
    case (EFlush es)
    have "C * (n * K) \<le> C * (C * K)" using Cons.prems(3) by simp
    moreover have "Suc m + C * (C * K) < 100000000" using Cons.prems(5) by simp
    ultimately have "last_file_id eng + 1 < 100000000" using d(8) by linarith
    then have "last_file_id eng + 1 < 10 ^ 8" by simp
    then show ?thesis using flush_inv [OF Cons.prems(1) it, of es] Cons.prems(2,4) by (simp add: EFlush byte_total_def)
  next
    case ECompact
    then show ?thesis using compact_inv [OF Cons.prems(1) it lim _ CK, of bsize] Cons.prems(3-5) by (auto simp: entries_of_def)
  next
    case EReopen
    then show ?thesis using reopen_inv [OF Cons.prems(1) rd] d(5) by (auto simp: entries_of_def)
  qed
  then obtain eng1 cont1 where s: "engine_step host iter readdir bsize op eng = Some eng1"
    "engine_inv host iter C K limit (n + length (op_content op)) (b + length (entries_of (op_content op))) (Suc m) eng1 cont1 (engine_map [op] M)"
    by blast
  have "engine_map (op # ops) M = engine_map ops (engine_map [op] M)" by (cases op) simp_all
  then show ?case using Cons.IH [OF s(2)] s(1) Cons.prems(2-5) by (simp add: entry_total_def byte_total_def add.assoc)
qed (auto simp: entry_total_def byte_total_def)

lemma engine_start:
  assumes "lists_folder readdir"
  shows "\<exists>eng. StorageEngine_new Map.empty (readdir Map.empty) limit = Some eng \<and> engine_inv host iter C K limit 0 0 0 eng (\<lambda>_. []) Map.empty"
proof -
  have "finite (dom (Map.empty :: disk))" by simp
  then have "\<not> is_dot n \<Longrightarrow> n \<notin> set (readdir Map.empty)" for n using assms unfolding lists_folder_def by blast
  then have "filter (\<lambda>n. \<not> is_dot n) (readdir Map.empty) = map file_name []" by (auto simp: filter_empty_conv)
  moreover have "folder_ok host iter Map.empty (\<lambda>_. []) []" by (simp add: folder_ok_def)
  ultimately obtain eng where e: "StorageEngine_new Map.empty (readdir Map.empty) limit = Some eng" "eng_ok host iter eng (\<lambda>_. [])"
    "disk_ok host iter eng (\<lambda>_. [])" "set (all_files eng) = {}" "level0_files_number_limit eng = limit" "data_folder eng = Map.empty" "last_file_id eng = -1"
    using StorageEngine_new_ok [of host iter Map.empty "\<lambda>_. []" "[]" "readdir Map.empty" limit] by auto
  have "over eng = {}" using e(4) by (simp add: over_def level_length [OF e(2)] size_gt_def)
  moreover have "eng_lookup eng (\<lambda>_. []) k = None" for k by (auto simp: eng_lookup_def map_of_eq_None_iff)
  ultimately show ?thesis using e by (auto simp: engine_inv_def leftover_def eng_count_def eng_size_def potential_def)
qed

lemma engine_history_inv:
  assumes "engine_ops_ok K ops" "iterates iter" "lists_folder readdir" "1 \<le> limit" "limit < 2 ^ 31"
  shows "\<exists>eng cont. engine_history host iter readdir bsize limit ops = Some eng \<and>
    engine_inv host iter (entry_total ops) K limit (entry_total ops) (byte_total ops) (length ops) eng cont (engine_map ops Map.empty)"
proof -
  obtain eng0 where e: "StorageEngine_new Map.empty (readdir Map.empty) limit = Some eng0"
    "engine_inv host iter (entry_total ops) K limit 0 0 0 eng0 (\<lambda>_. []) Map.empty"
    using engine_start [OF assms(3)] by blast
  show ?thesis using engine_run_inv [OF e(2) assms(2-5), of ops bsize] e(1) assms(1) by (simp add: engine_ops_ok_def engine_history_def mult.assoc)
qed

lemma engine_history_ok:
  assumes "engine_ops_ok K ops" "iterates iter" "lists_folder readdir" "1 \<le> limit" "limit < 2 ^ 31"
  obtains eng cont where "engine_history host iter readdir bsize limit ops = Some eng" "eng_ok host iter eng cont" "disk_ok host iter eng cont"
    "leftover eng = {}"
proof -
  obtain eng cont where "engine_history host iter readdir bsize limit ops = Some eng"
    "engine_inv host iter (entry_total ops) K limit (entry_total ops) (byte_total ops) (length ops) eng cont (engine_map ops Map.empty)"
    using engine_history_inv [OF assms] by blast
  then show thesis using that [of eng cont] by (simp add: engine_inv_def)
qed

lemma engine_get_correct:
  assumes ok: "eng_ok host iter eng cont" and it: "iterates iter" and c: "1 \<le> cache_size"
  shows "engine_get host cache_size eng k = Some (eng_lookup eng cont k)"
proof -
  let ?T = "tables_of eng cont"
  have "cached (LRUCache_new cache_size) []" by (rule LRUCache_new_correct [OF c])
  then have "lru.coherent ?T (LRUCache_new cache_size)" using cached_tables(1) by (auto simp: lru.coherent_def lru_inv_def)
  moreover have "file_ok host iter eng cont f \<and> ?T (file_id f) = Some (file_table (cont (file_id f)))" if "f \<in> set (concat (GetContainsFiles eng k))" for f
    using GetContainsFiles_ok [OF ok that] by (simp add: file_ok_def tables_of_def)
  ultimately show ?thesis
    using search_files_correct [OF it, of "concat (GetContainsFiles eng k)" host eng cont ?T "LRUCache_new cache_size" k] GetContainsFiles_lookup [OF ok]
    by (auto simp: engine_get_def)
qed

lemma engine_run_append:
  "engine_run host iter readdir bsize (xs @ ys) eng =
    do { eng1 \<leftarrow> engine_run host iter readdir bsize xs eng; engine_run host iter readdir bsize ys eng1 }"
  by (induction xs arbitrary: eng) (simp_all add: bind_eq_None_conv split: bind_split)

lemma engine_totals_append:
  "entry_total (xs @ ys) = entry_total xs + entry_total ys" "byte_total (xs @ ys) = byte_total xs + byte_total ys"
  by (simp_all add: entry_total_def byte_total_def)

text \<open>A history that ends with a compaction leaves every level within its limit.\<close>

lemma engine_history_compacted:
  assumes "engine_ops_ok K (ops @ [ECompact])" "iterates iter" "lists_folder readdir" "1 \<le> limit" "limit < 2 ^ 31"
  shows "\<exists>eng. engine_history host iter readdir bsize limit (ops @ [ECompact]) = Some eng \<and> over eng = {} \<and> level0_files_number_limit eng = limit"
proof -
  have tot: "entry_total (ops @ [ECompact]) = entry_total ops" "byte_total (ops @ [ECompact]) = byte_total ops"
    by (simp_all add: engine_totals_append) (simp_all add: entry_total_def byte_total_def entries_of_def)
  have ok: "engine_ops_ok K ops" and bd: "entry_total ops \<le> 10 ^ K" "K < 2 ^ 30" "byte_total ops < 2 ^ 28"
    "length ops + entry_total ops * (entry_total ops * K) < 10 ^ 8"
    using assms(1) by (simp_all add: engine_ops_ok_def tot mult.assoc)
  obtain eng cont where e: "engine_history host iter readdir bsize limit ops = Some eng"
    "engine_inv host iter (entry_total ops) K limit (entry_total ops) (byte_total ops) (length ops) eng cont (engine_map ops Map.empty)"
    using engine_history_inv [OF ok assms(2-5)] by blast
  obtain eng' cont' where c: "Compact host iter bsize eng 0 = Some eng'" "over eng' = {}"
    "engine_inv host iter (entry_total ops) K limit (entry_total ops) (byte_total ops) (Suc (length ops)) eng' cont' (engine_map ops Map.empty)"
    using compact_inv [OF e(2) assms(2,4,5) order_refl bd, of bsize] by blast
  have "engine_history host iter readdir bsize limit (ops @ [ECompact]) = Some eng'"
    using e(1) c(1) by (auto simp: engine_history_def engine_run_append bind_eq_Some_conv)
  with c(2) engine_invD(5) [OF c(3)] show ?thesis by blast
qed

end
