(* ===== verification/Engine_Properties.thy ===== *)
theory Engine_Properties
  imports Engine_Runs
begin

text \<open>
  The properties of the storage engine over histories of flushes, compactions and restarts, and of a single round of
  compaction.
\<close>

section \<open>A directory listing\<close>

text \<open>The names in byte order, after the two entries every directory has.\<close>

definition sorted_readdir :: "disk \<Rightarrow> bytes list" where
  "sorted_readdir d = [str ''.'', str ''..''] @ filter (\<lambda>n. \<not> is_dot n) (sorted_list_of_set {n. d (FilePath n) \<noteq> None})"

lemma lists_sorted_readdir: "lists_folder sorted_readdir"
proof -
  have "finite {n. d (FilePath n) \<noteq> None}" if "finite (dom d)" for d :: disk
  proof (rule finite_subset)
    show "{n. d (FilePath n) \<noteq> None} \<subseteq> FilePath -` dom d" by auto
    show "finite (FilePath -` dom d)" using that by (rule finite_vimageI) (simp add: inj_def FilePath_inj)
  qed
  moreover have "is_dot (str ''.'')" "is_dot (str ''..'')" "str ''.'' \<noteq> str ''..''" by (simp_all add: str_def is_dot_def)
  ultimately show ?thesis by (auto simp: lists_folder_def sorted_readdir_def)
qed


section \<open>Properties\<close>

text \<open>
  C7: The storage engine stores a map.  Every history of flushed buffers, compactions and restarts, in any order, on an empty
  folder, runs without undefined behaviour and without a failed assertion, every compaction in it ends, and
  afterwards a lookup through the files returns the value of the last flush that has the key, or that there is none;
  only for a key whose last entry is a tombstone nothing is said.
\<close>

theorem engine_reads_latest:
  assumes "engine_ops_ok K ops" "iterates iter" "lists_folder readdir" "1 \<le> limit" "limit < 2 ^ 31" "1 \<le> cache_size"
  shows "\<exists>eng. engine_history host iter readdir bsize limit ops = Some eng \<and>
    (\<forall>k. engine_map ops Map.empty k \<noteq> Some TombValue \<longrightarrow> engine_get host cache_size eng k = Some (engine_map ops Map.empty k))"
proof -
  obtain eng cont where e: "engine_history host iter readdir bsize limit ops = Some eng"
    "engine_inv host iter (entry_total ops) K limit (entry_total ops) (byte_total ops) (length ops) eng cont (engine_map ops Map.empty)"
    using engine_history_inv [OF assms(1-5)] by blast
  note d = engine_invD [OF e(2)]
  show ?thesis using e(1) engine_get_correct [OF d(1) assms(2,6)] d(9) by auto
qed

theorem engine_reads_latest_witness:
  "\<exists>eng. engine_history LittleHost sorted_iter sorted_readdir 10 1
      [EFlush [([60], [1]), ([61], [2])], EFlush [([61], [3])], ECompact, EReopen, EFlush [([60], [4])], ECompact] = Some eng \<and>
    engine_get LittleHost 1 eng [60] = Some (Some [4]) \<and> engine_get LittleHost 1 eng [61] = Some (Some [3]) \<and>
    engine_get LittleHost 1 eng [62] = Some None"
proof -
  let ?ops = "[EFlush [([60], [1]), ([61], [2])], EFlush [([61], [3])], ECompact, EReopen, EFlush [([60], [4])], ECompact]"
  have "engine_ops_ok 1 ?ops"
    by (auto simp: engine_ops_ok_def content_ok_def entry_ok_def entry_total_def byte_total_def entries_of_def entry_of_def entry_bytes_def wrap_key_def
        EncodeVarint32_def str_def)
  from engine_reads_latest [OF this iterates_sorted_iter lists_sorted_readdir, of 1 1 LittleHost 10] show ?thesis
    by (auto simp: TombValue_def str_def)
qed

text \<open>
  C8: The invariant of the engine.  After every history the level map is in order, the files of a level are sorted by lower
  bound and from level 1 on pairwise disjoint, file ids are unique and not above \<^verbatim>\<open>file_id_\<close>, each file is the one
  \<^verbatim>\<open>files_map_\<close> has under its id and holds in memory and on disk the image of a sorted list of entries, and the data
  folder holds no other file.
\<close>

theorem engine_invariant:
  assumes "engine_ops_ok K ops" "iterates iter" "lists_folder readdir" "1 \<le> limit" "limit < 2 ^ 31"
  shows "\<exists>eng cont. engine_history host iter readdir bsize limit ops = Some eng \<and> eng_ok host iter eng cont \<and>
    disk_ok host iter eng cont \<and> leftover eng = {}"
  by (rule engine_history_ok [OF assms]) blast

lemma two_flushes_ok: "engine_ops_ok 1 [EFlush [([60], [1])], EFlush [([60], [2])], ECompact]"
  by (auto simp: engine_ops_ok_def content_ok_def entry_ok_def entry_total_def byte_total_def entries_of_def entry_of_def entry_bytes_def wrap_key_def
      EncodeVarint32_def str_def)

theorem engine_invariant_witness:
  "\<exists>eng cont. engine_history BigHost sorted_iter sorted_readdir 4 1 [EFlush [([60], [1])], EFlush [([60], [2])], ECompact] = Some eng \<and>
    eng_ok BigHost sorted_iter eng cont \<and> disk_ok BigHost sorted_iter eng cont \<and> leftover eng = {}"
  by (rule engine_invariant [OF two_flushes_ok iterates_sorted_iter lists_sorted_readdir]) simp_all

text \<open>
  C10: Compaction ends and does its work: after a history that ends with a compaction every level \<open>l\<close> has at most
  \<open>10^l\<close> times as many files as level 0 may have.
\<close>

theorem compaction_restores_limits:
  assumes "engine_ops_ok K (ops @ [ECompact])" "iterates iter" "lists_folder readdir" "1 \<le> limit" "limit < 2 ^ 31"
  shows "\<exists>eng. engine_history host iter readdir bsize limit (ops @ [ECompact]) = Some eng \<and>
    (\<forall>l. int (length (lm_at (level_files eng) l)) \<le> limit * 10 ^ nat l)"
proof -
  obtain eng where "engine_history host iter readdir bsize limit (ops @ [ECompact]) = Some eng" "over eng = {}" "level0_files_number_limit eng = limit"
    using engine_history_compacted [OF assms] by blast
  moreover have "0 \<le> limit * 10 ^ nat l" for l using assms(4) by simp
  ultimately show ?thesis by (auto simp: over_def size_gt_def not_less)
qed

theorem compaction_restores_limits_witness:
  "\<exists>eng. engine_history LittleHost sorted_iter sorted_readdir 0 1 ([EFlush [([60], [1])], EFlush [([60], [2])]] @ [ECompact]) = Some eng \<and>
    (\<forall>l. int (length (lm_at (level_files eng) l)) \<le> 1 * 10 ^ nat l)"
  by (rule compaction_restores_limits [OF _ iterates_sorted_iter lists_sorted_readdir]) (use two_flushes_ok in simp_all)

text \<open>
  C11: A restart loses nothing that is in a file: the constructor, run on the folder that a history leaves, in whatever order
  \<^verbatim>\<open>readdir\<close> yields the names, finds the same files, and every lookup, of a deleted key too, returns what it returned
  before.
\<close>

theorem restart_recovers:
  assumes "engine_ops_ok K ops" "iterates iter" "lists_folder readdir" "1 \<le> limit" "limit < 2 ^ 31" "1 \<le> cache_size" "lists_folder readdir'"
  shows "\<exists>eng eng'. engine_history host iter readdir bsize limit ops = Some eng \<and>
    StorageEngine_new (data_folder eng) (readdir' (data_folder eng)) limit' = Some eng' \<and>
    set (all_files eng') = set (all_files eng) \<and> data_folder eng' = data_folder eng \<and>
    (\<forall>k. engine_get host cache_size eng' k = engine_get host cache_size eng k)"
proof -
  obtain eng cont where e: "engine_history host iter readdir bsize limit ops = Some eng"
    "eng_ok host iter eng cont" "disk_ok host iter eng cont" "leftover eng = {}"
    by (rule engine_history_ok [OF assms(1-5)])
  obtain fs where fs: "filter (\<lambda>n. \<not> is_dot n) (readdir' (data_folder eng)) = map file_name fs" "mset fs = mset (all_files eng)"
    by (rule folder_names [OF e(2-4) assms(7)])
  obtain eng' where n: "StorageEngine_new (data_folder eng) (readdir' (data_folder eng)) limit' = Some eng'" "eng_ok host iter eng' cont"
    "set (all_files eng') = set fs" "data_folder eng' = data_folder eng"
    using StorageEngine_new_ok [OF eng_folder_ok [OF e(2,3) fs(2)] fs(1), of limit'] by blast
  have all: "set (all_files eng') = set (all_files eng)" using n(3) fs(2) by (metis set_mset_mset)
  have "engine_get host cache_size eng' k = engine_get host cache_size eng k" for k
    using same_files(1) [OF e(2) n(2) all] engine_get_correct [OF e(2) assms(2,6)] engine_get_correct [OF n(2) assms(2,6)] by simp
  with e(1) n(1,4) all show ?thesis by blast
qed

theorem restart_recovers_witness:
  "\<exists>eng eng'. engine_history LittleHost sorted_iter sorted_readdir 4 1 [EFlush [([60], [1])], EFlush [([60], [2])], ECompact] = Some eng \<and>
    StorageEngine_new (data_folder eng) ((\<lambda>d. rev (sorted_readdir d)) (data_folder eng)) 3 = Some eng' \<and>
    set (all_files eng') = set (all_files eng) \<and> data_folder eng' = data_folder eng \<and>
    (\<forall>k. engine_get LittleHost 2 eng' k = engine_get LittleHost 2 eng k)"
proof -
  have "lists_folder (\<lambda>d. rev (sorted_readdir d))" using lists_sorted_readdir by (simp add: lists_folder_def)
  from restart_recovers [OF two_flushes_ok iterates_sorted_iter lists_sorted_readdir _ _ _ this] show ?thesis by simp
qed

end
