(* ===== verification/Compaction_Properties.thy ===== *)
theory Compaction_Properties
  imports Engine_Properties "HOL-Library.Product_Lexorder"
begin

text \<open>
  Properties of a single merge and of a single round of compaction.
\<close>

section \<open>The merge against a reference\<close>

text \<open>Lay the files over each other, those of the lower level first and of a level the newest first; sort the keys; drop the tombstones.\<close>

definition merge_reference :: "(File \<times> kv list) list \<Rightarrow> kv list" where
  "merge_reference fcs =
    (let m = map_of (concat (map snd (sort_key (\<lambda>fc. (level_id (fst fc), - file_id (fst fc))) fcs)));
         keys = sorted_list_of_set (fst ` set (concat (map snd fcs)))
     in filter (\<lambda>e. snd e \<noteq> TombValue) (map (\<lambda>k. (k, the (m k))) keys))"

lemma precedence_better:
  "sorted (map (\<lambda>fc. (level_id (fst fc), - file_id (fst fc))) S) \<Longrightarrow> distinct (map (\<lambda>fc. file_id (fst fc)) S) \<Longrightarrow> sorted_wrt better (map fst S)"
proof (induction S)
  case (Cons x S)
  have "better (fst x) (fst y)" if "y \<in> set S" for y
  proof -
    have "(level_id (fst x), - file_id (fst x)) \<le> (level_id (fst y), - file_id (fst y))" using Cons.prems(1) that by auto
    moreover have "file_id (fst x) \<noteq> file_id (fst y)" using Cons.prems(2) that by (auto simp: image_iff)
    ultimately show ?thesis by (auto simp: better_def less_eq_prod_def)
  qed
  with Cons show ?case by simp
qed simp

lemma merge_reference_winner:
  assumes ids: "distinct (map file_id files)" and len: "length cs = length files" and es: "\<forall>es \<in> set cs. distinct (map fst es)"
  shows "map_of (concat (map snd (sort_key (\<lambda>fc. (level_id (fst fc), - file_id (fst fc))) (zip files cs)))) k = Some v \<longleftrightarrow> winner files cs (k, v)"
proof -
  let ?S = "sort_key (\<lambda>fc. (level_id (fst fc), - file_id (fst fc))) (zip files cs)"
  define cont where "cont i = the (map_of (zip (map file_id files) cs) i)" for i
  have at: "cont (file_id (files ! i)) = cs ! i" if "i < length files" for i
    using map_of_zip_nth [of "map file_id files" cs i] ids len that by (simp add: cont_def)
  have "mset (map (\<lambda>fc. file_id (fst fc)) ?S) = mset (map (\<lambda>fc. file_id (fst fc)) (zip files cs))" by simp
  moreover have "map (\<lambda>fc. file_id (fst fc)) (zip files cs) = map file_id files" using len by (simp add: list_eq_iff_nth_eq)
  ultimately have "mset (map (\<lambda>fc. file_id (fst fc)) ?S) = mset (map file_id files)" by (simp only:)
  from mset_eq_imp_distinct_iff [OF this] ids have "distinct (map (\<lambda>fc. file_id (fst fc)) ?S)" by (rule iffD2)
  then have b: "sorted_wrt better (map fst ?S)" by (intro precedence_better) simp_all
  have "snd fc = cont (file_id (fst fc))" if "fc \<in> set ?S" for fc using that at len by (auto simp: set_zip)
  then have snd: "map snd ?S = map (\<lambda>f. cont (file_id f)) (map fst ?S)" unfolding map_map by (intro map_cong) simp_all
  have "set (map fst ?S) = set (map fst (zip files cs))" by simp
  then have "set (map fst ?S) = set files" using len by (simp only: map_fst_zip)
  with map_of_wins [OF b, of cont k v] have "map_of (concat (map snd ?S)) k = Some v \<longleftrightarrow> wins (set files) cont k v" unfolding snd by simp
  also have "\<dots> \<longleftrightarrow> winner files cs (k, v)"
  proof -
    have key: "map_of (cont (file_id (files ! i))) k = Some w \<longleftrightarrow> (k, w) \<in> set (cs ! i)"
      "map_of (cont (file_id (files ! i))) k = None \<longleftrightarrow> k \<notin> fst ` set (cs ! i)" if "i < length files" for i w
    proof -
      have "distinct (map fst (cs ! i))" using es len that by simp
      then show "map_of (cont (file_id (files ! i))) k = Some w \<longleftrightarrow> (k, w) \<in> set (cs ! i)" by (simp add: at [OF that])
      show "map_of (cont (file_id (files ! i))) k = None \<longleftrightarrow> k \<notin> fst ` set (cs ! i)" by (simp add: at [OF that] map_of_eq_None_iff)
    qed
    have same: "files ! j = files ! i \<longleftrightarrow> j = i" if "i < length files" "j < length files" for i j
      using ids that by (simp add: distinct_map nth_eq_iff_index_eq)
    have "wins (set files) cont k v \<longleftrightarrow> (\<exists>i < length files. map_of (cont (file_id (files ! i))) k = Some v \<and>
        (\<forall>j < length files. map_of (cont (file_id (files ! j))) k \<noteq> None \<longrightarrow> files ! j = files ! i \<or> better (files ! i) (files ! j)))"
      unfolding wins_def all_set_conv_all_nth Bex_def in_set_conv_nth by blast
    then show ?thesis by (simp add: winner_def key same cong: conj_cong)
  qed
  finally show ?thesis .
qed

lemma sorted_by_keys:
  assumes "sorted_wrt (<) (map fst out)" "\<forall>e. e \<in> set out \<longleftrightarrow> m (fst e) = Some (snd e)"
  shows "out = map (\<lambda>k. (k, the (m k))) (sorted_list_of_set (dom m))"
proof -
  have "fst ` set out = dom m" using assms(2) by force
  moreover have "sorted (map fst out)" "distinct (map fst out)" using assms(1) by (simp_all add: strict_sorted_iff)
  ultimately have "map fst out = sorted_list_of_set (dom m)"
    by (metis sorted_list_of_set.idem_if_sorted_distinct list.set_map)
  moreover have "map (\<lambda>e. (fst e, the (m (fst e)))) out = map (\<lambda>e. e) out" by (rule map_cong) (use assms(2) in auto)
  then have "out = map (\<lambda>k. (k, the (m k))) (map fst out)" by (simp add: o_def)
  ultimately show ?thesis by simp
qed

text \<open>
  C9: The n-way merge equals its reference.  On files that hold sorted entries, with sizes and ids in range, \<^verbatim>\<open>NWayCompaction\<close>
  ends, and the new files, read one after the other, hold exactly what laying the input files over each
  other by level and age, sorting by key and dropping the tombstones gives; all are on the next level and on disk.
\<close>

theorem nway_merge_equals_reference:
  assumes "merge_inputs host iter (level + 1) eng files cs"
  shows "\<exists>fs eng' chunks. NWayCompaction host iter bsize eng files level = Some (fs, eng') \<and>
    list_all2 (holds_image host iter) fs chunks \<and> list_all2 (on_disk host iter (data_folder eng')) fs chunks \<and>
    (\<forall>f \<in> set fs. level_id f = level + 1) \<and> concat chunks = merge_reference (zip files cs)"
proof -
  obtain fs eng' chunks out where m: "NWayCompaction host iter bsize eng files level = Some (fs, eng')"
    "produced host iter (level + 1) eng eng' fs chunks" "concat chunks = live out" "sorted_wrt (<) (map fst out)" "\<forall>e. e \<in> set out \<longleftrightarrow> winner files cs e"
    using NWayCompaction_correct [OF assms, of bsize] by blast
  have ids: "distinct (map file_id files)" and len: "length cs = length files"
    using assms by (auto simp: merge_inputs_def dest: list_all2_lengthD)
  have es: "\<forall>es \<in> set cs. distinct (map fst es)"
    using merge_inputs_content [OF assms] by (auto simp: content_ok_def strict_sorted_iff)
  let ?m = "map_of (concat (map snd (sort_key (\<lambda>fc. (level_id (fst fc), - file_id (fst fc))) (zip files cs))))"
  have "e \<in> set out \<longleftrightarrow> ?m (fst e) = Some (snd e)" for e
    using spec [OF m(5), of e] merge_reference_winner [OF ids len es, of "fst e" "snd e"] by simp
  moreover have "dom ?m = fst ` set (concat (map snd (zip files cs)))" by (simp add: dom_map_of_conv_image_fst image_Union)
  ultimately have "live out = merge_reference (zip files cs)"
    using sorted_by_keys [OF m(4), of ?m] by (simp add: merge_reference_def live_def Let_def)
  with m(1-3) show ?thesis by (auto simp: produced_def)
qed

text \<open>A file with given entries.\<close>

definition image_file :: "host \<Rightarrow> iteration \<Rightarrow> int \<Rightarrow> int \<Rightarrow> kv list \<Rightarrow> File" where
  "image_file host iter l i es =
    \<lparr>level_id = l, file_id = i, file_size = of_nat (length (file_image host iter es)), file_name = the (FileName l i),
     lower_bound = fst (hd es), upper_bound = fst (last es), mmap = view_of (file_image host iter es)\<rparr>"

lemma image_file_parts [simp]:
  "level_id (image_file host iter l i es) = l" "file_id (image_file host iter l i es) = i" "lower_bound (image_file host iter l i es) = fst (hd es)"
  "upper_bound (image_file host iter l i es) = fst (last es)" "file_name (image_file host iter l i es) = the (FileName l i)"
  by (simp_all add: image_file_def)

lemma image_file_holds:
  assumes "iterates iter" "content_ok es" "length (entries_of es) < 2 ^ 28"
  shows "holds_image host iter (image_file host iter l i es) es"
  using image_bound [OF assms(1,2), of host] assms(2,3) by (simp add: holds_image_def image_file_def)

theorem nway_merge_equals_reference_witness:
  "\<exists>fs eng' chunks. NWayCompaction LittleHost sorted_iter 100
      \<lparr>last_file_id = 2, level0_files_number_limit = 1, level_files = [], files_map = Map.empty, data_folder = Map.empty, compact_notified = 0\<rparr>
      [image_file LittleHost sorted_iter 0 2 [([60], TombValue), ([61], [5])], image_file LittleHost sorted_iter 1 1 [([60], [1]), ([61], [2]), ([62], [3])]] 0 =
        Some (fs, eng') \<and>
    list_all2 (holds_image LittleHost sorted_iter) fs chunks \<and> list_all2 (on_disk LittleHost sorted_iter (data_folder eng')) fs chunks \<and>
    (\<forall>f \<in> set fs. level_id f = 0 + 1) \<and> concat chunks = [([61], [5]), ([62], [3])]"
proof -
  let ?eng = "\<lparr>last_file_id = 2, level0_files_number_limit = 1, level_files = [], files_map = Map.empty, data_folder = Map.empty, compact_notified = 0\<rparr>"
  let ?a = "[([60], TombValue), ([61], [5])]" and ?b = "[([60], [1]), ([61], [2]), ([62], [3])]"
  let ?fs = "[image_file LittleHost sorted_iter 0 2 ?a, image_file LittleHost sorted_iter 1 1 ?b]"
  have len: "length (entries_of ?a) < 2 ^ 28" "length (entries_of ?b) < 2 ^ 28" "total_size [?a, ?b] < 2 ^ 28" and c: "content_ok ?a" "content_ok ?b"
    by (simp_all add: content_ok_def entry_ok_def total_size_def entries_of_def entry_of_def entry_bytes_def wrap_key_def EncodeVarint32_def str_def TombValue_def)
  have "merge_inputs LittleHost sorted_iter (0 + 1) ?eng ?fs [?a, ?b]"
    using image_file_holds [OF iterates_sorted_iter c(1) len(1)] image_file_holds [OF iterates_sorted_iter c(2) len(2)] len(3) iterates_sorted_iter
    by (simp add: merge_inputs_def total_count_def)
  moreover have keys: "fst ` set (concat (map snd (zip ?fs [?a, ?b]))) = set [[60], [61], [62]]" by auto
  have "sorted_list_of_set (set [[60], [61], [62]]) = [[60], [61], [62 :: byte]]"
    by (rule sorted_list_of_set.idem_if_sorted_distinct) simp_all
  then have "merge_reference (zip ?fs [?a, ?b]) = [([61], [5]), ([62], [3])]"
    unfolding merge_reference_def keys by (simp add: Let_def TombValue_def str_def)
  ultimately show ?thesis using nway_merge_equals_reference [of LittleHost sorted_iter 0 ?eng ?fs "[?a, ?b]" 100] by (simp only:)
qed



section \<open>Deleted keys\<close>

text \<open>A folder with the given files.\<close>

definition disk_with :: "File list \<Rightarrow> (int \<Rightarrow> bytes) \<Rightarrow> disk" where
  "disk_with fs img = map_of (map (\<lambda>f. (FilePath (file_name f), img (file_id f))) fs)"

lemma three_levels:
  fixes host :: host
  assumes it: "iterates iter" and c: "\<And>i. content_ok (cont i)" "\<And>i. length (entries_of (cont i)) < 2 ^ 26"
  defines "fs \<equiv> [image_file host iter 0 2 (cont 2), image_file host iter 1 1 (cont 1), image_file host iter 2 0 (cont 0)]"
  shows "\<exists>eng. StorageEngine_new (disk_with fs (\<lambda>i. file_image host iter (cont i))) (map file_name fs) limit = Some eng \<and>
    eng_ok host iter eng cont \<and> disk_ok host iter eng cont \<and> set (all_files eng) = set fs \<and> last_file_id eng = 2"
proof -
  let ?d = "disk_with fs (\<lambda>i. file_image host iter (cont i))"
  have name: "FileName l i = Some (the (FileName l i))" if "0 \<le> i" "i < 10 ^ 8" for l i using FileName_fits(1) [OF that(1), of l] that(2) by simp
  have inj: "FilePath (the (FileName l i)) = FilePath (the (FileName l' i')) \<longleftrightarrow> l = l' \<and> i = i'"
    if "0 \<le> i" "i < 10 ^ 8" "0 \<le> i'" "i' < 10 ^ 8" "0 \<le> l" "l < 2 ^ 31" "0 \<le> l'" "l' < 2 ^ 31" for l i l' i'
    using FileName_inj [of l i "the (FileName l i)" l' i'] name [OF that(1,2), of l] name [OF that(3,4), of l'] that by (metis FilePath_inj)
  have "holds_image host iter f (cont (file_id f))" "on_disk host iter ?d f (cont (file_id f))" if "f \<in> set fs" for f
  proof -
    have "\<And>i. length (entries_of (cont i)) < 2 ^ 28" using c(2) by (rule order_less_trans) simp
    then show "holds_image host iter f (cont (file_id f))" using that image_file_holds [OF it c(1)] by (auto simp: fs_def)
    show "on_disk host iter ?d f (cont (file_id f))"
      using that name [of 0 2] name [of 1 1] name [of 2 0] by (auto simp: fs_def on_disk_def disk_with_def inj)
  qed
  then have "folder_ok host iter ?d cont fs" by (auto simp: folder_ok_def fs_def)
  moreover have "filter (\<lambda>n. \<not> is_dot n) (map file_name fs) = map file_name fs"
    using file_name_not_dot [OF name] by (simp add: fs_def)
  ultimately show ?thesis using StorageEngine_new_ok [of host iter ?d cont fs "map file_name fs" limit] by (auto simp: fs_def)
qed

lemma single_level:
  assumes ok: "eng_ok host iter eng cont" and all: "{f \<in> set (all_files eng). level_id f = l} = {g}"
  shows "lm_at (level_files eng) l = [g]"
proof -
  have "length (lm_at (level_files eng) l) = 1" by (simp add: level_length [OF ok] all)
  moreover have "g \<in> set (all_files eng)" "level_id g = l" using all by blast+
  then have "g \<in> set (lm_at (level_files eng) l)" using eng_file(2) [OF ok, of g] by simp
  ultimately show ?thesis by (cases "lm_at (level_files eng) l") auto
qed

text \<open>
  C12: A deleted key can come back.  Take a store whose level 0 has the tombstone of a key, level 1 a value of it and level 2
  an older value: a lookup finds the tombstone.  A round of compaction at level 0 merges the files of levels 0 and 1 and
  drops the tombstone with the value it hides, though level 2 was not looked at: from then on a lookup returns the
  older value, as if the key had never been overwritten or deleted.
\<close>

theorem deleted_key_reappears:
  assumes it: "iterates iter" and k: "str ''00000'' \<le> k" and size: "length (entry_bytes k TombValue) + length (entry_bytes k new) + length (entry_bytes k old) < 2 ^ 26"
    and c: "1 \<le> cache_size"
  shows "let fs = [image_file host iter 0 2 [(k, TombValue)], image_file host iter 1 1 [(k, new)], image_file host iter 2 0 [(k, old)]];
      d = disk_with fs (\<lambda>i. file_image host iter [(k, if i = 2 then TombValue else if i = 1 then new else old)])
    in \<exists>eng eng'. StorageEngine_new d (map file_name fs) limit = Some eng \<and> engine_get host cache_size eng k = Some (Some TombValue) \<and>
      compact_round host iter bsize eng 0 = Some eng' \<and> engine_get host cache_size eng' k = Some (Some old)"
proof -
  define cont where "cont i = [(k, if i = 2 then TombValue else if i = 1 then new else old)]" for i :: int
  let ?f2 = "image_file host iter 0 2 (cont 2)" and ?f1 = "image_file host iter 1 1 (cont 1)" and ?f0 = "image_file host iter 2 0 (cont 0)"
  have cc: "content_ok (cont i)" "length (entries_of (cont i)) < 2 ^ 26" for i
    using k size by (auto simp: cont_def content_ok_def entry_ok_def entries_of_def entry_of_def)
  obtain eng where e: "StorageEngine_new (disk_with [?f2, ?f1, ?f0] (\<lambda>i. file_image host iter (cont i))) (map file_name [?f2, ?f1, ?f0]) limit = Some eng"
    "eng_ok host iter eng cont" "disk_ok host iter eng cont" "set (all_files eng) = {?f2, ?f1, ?f0}" "last_file_id eng = 2"
    using three_levels [of iter cont host limit] it cc by auto
  have ids: "?f2 \<noteq> ?f1" "?f2 \<noteq> ?f0" "?f1 \<noteq> ?f0" by (simp_all add: image_file_def)
  have l0: "lm_at (level_files eng) 0 = [?f2]" and l1: "lm_at (level_files eng) 1 = [?f1]" by (rule single_level [OF e(2)]; auto simp: e(4))+
  then have "map_of (level_files eng) 1 = Some [?f1]" by (auto simp: lm_at_def split: option.splits)
  then have F: "pick_files (level_files eng) 0 = [?f2, ?f1]"
    by (simp add: pick_files_def l0 FindOverlapFilesLevel0_def FindOverlapFilesBasedOnBound_def cont_def)
  have tot: "eng_count eng cont = 3" "eng_size eng cont < 2 ^ 28"
    using size ids by (auto simp: eng_count_def eng_size_def e(4) cont_def entries_of_def entry_of_def)
  obtain eng' cont' N P where r: "compact_round host iter bsize eng 0 = Some eng'" "round_post host iter 0 eng cont eng' cont' [?f2, ?f1] N P"
    "P = (\<lambda>e. snd e \<noteq> TombValue)"
    using compact_round_ok [OF e(2,3) it, of 0 bsize] tot by (auto simp: l0 F e(5))
  have rp: "replacement host iter 0 eng cont [?f2, ?f1] N cont' P" "eng_ok host iter eng' cont'"
    "set (all_files eng') = (set (all_files eng) - set [?f2, ?f1]) \<union> set N" using r(2) by (simp_all add: round_post_def)
  have best: "\<forall>g \<in> set (all_files eng). has_key cont k g \<longrightarrow> g = ?f2 \<or> better ?f2 g" by (auto simp: e(4) better_def)
  have tomb: "eng_lookup eng cont k = Some TombValue"
    unfolding eng_lookup_wins [OF e(2)] wins_iff using best by (auto simp: e(4) cont_def)
  have "{f \<in> set (all_files eng). 0 + 1 < level_id f} = {?f0}" by (auto simp: e(4))
  then have "deep_lookup (0 + 1) eng cont k = Some old" unfolding deep_lookup_wins [OF e(2)] by (auto simp: wins_iff cont_def)
  moreover have "\<exists>f \<in> set [?f2, ?f1]. has_key cont k f \<and> (\<forall>g \<in> set (all_files eng). has_key cont k g \<longrightarrow> g = f \<or> better f g)"
    using best by (auto simp: has_key_def cont_def)
  ultimately have "eng_lookup eng' cont' k = Some old" using replaced_lookup(2) [OF rp tomb] r(3) by simp
  with e(1,2) rp(2) tomb r(1) engine_get_correct [OF _ it c] show ?thesis by (simp add: Let_def cont_def)
qed

theorem deleted_key_reappears_witness:
  "let fs = [image_file LittleHost sorted_iter 0 2 [([60], TombValue)], image_file LittleHost sorted_iter 1 1 [([60], [8])],
             image_file LittleHost sorted_iter 2 0 [([60], [7])]];
      d = disk_with fs (\<lambda>i. file_image LittleHost sorted_iter [([60], if i = 2 then TombValue else if i = 1 then [8] else [7])])
    in \<exists>eng eng'. StorageEngine_new d (map file_name fs) 4 = Some eng \<and> engine_get LittleHost 1 eng [60] = Some (Some TombValue) \<and>
      compact_round LittleHost sorted_iter 100 eng 0 = Some eng' \<and> engine_get LittleHost 1 eng' [60] = Some (Some [7])"
proof -
  have "length (entry_bytes [60] TombValue) + length (entry_bytes [60] [8]) + length (entry_bytes [60] [7]) < 2 ^ 26"
    by (simp add: entry_bytes_def wrap_key_def EncodeVarint32_def TombValue_def str_def)
  from deleted_key_reappears [OF iterates_sorted_iter _ this, of 1 LittleHost 4 100] show ?thesis by (simp add: str_def)
qed

end
