(* ===== verification/Read_Write_Lock.thy ===== *)
theory Read_Write_Lock
  imports Machines
begin

text \<open>
  \<^verbatim>\<open>structure/read_write_lock.h\<close> under any number of threads.

  The mutex makes each part of a method between two waits one step.  \<^verbatim>\<open>cond_.wait\<close> gives the mutex up and puts
  the thread into the wait set; a notification, or a spurious wakeup, takes it out; it then takes the mutex
  again and goes round its loop.  \<^verbatim>\<open>notify_one\<close> takes any one waiting thread.  Threads unlock what they have locked.
\<close>

section \<open>The lock\<close>

datatype rw_pc = Outside | Reading | Writing | WaitRead | WaitWrite | WokenRead | WokenWrite

record rwlock =
  stat :: int
  pc :: "nat \<Rightarrow> rw_pc"

definition ReadWriteLock_new :: rwlock where
  "ReadWriteLock_new = \<lparr>stat = 0, pc = (\<lambda>_. Outside)\<rparr>"

definition waiting :: "rw_pc \<Rightarrow> bool" where
  "waiting p \<longleftrightarrow> p = WaitRead \<or> p = WaitWrite"

definition woken :: "rw_pc \<Rightarrow> bool" where
  "woken p \<longleftrightarrow> p = WokenRead \<or> p = WokenWrite"

definition wake :: "rw_pc \<Rightarrow> rw_pc" where
  "wake p = (if p = WaitRead then WokenRead else if p = WaitWrite then WokenWrite else p)"

text \<open>One turn of the loop in \<^verbatim>\<open>ReadLock\<close> and in \<^verbatim>\<open>WriteLock\<close>: wait, or take the lock.\<close>

definition ReadLock :: "nat \<Rightarrow> rwlock \<Rightarrow> rwlock" where
  "ReadLock t l = (if stat l < 0 then l\<lparr>pc := (pc l)(t := WaitRead)\<rparr> else l\<lparr>stat := stat l + 1, pc := (pc l)(t := Reading)\<rparr>)"

definition WriteLock :: "nat \<Rightarrow> rwlock \<Rightarrow> rwlock" where
  "WriteLock t l = (if stat l \<noteq> 0 then l\<lparr>pc := (pc l)(t := WaitWrite)\<rparr> else l\<lparr>stat := stat l - 1, pc := (pc l)(t := Writing)\<rparr>)"

text \<open>\<open>chosen\<close> is the thread that \<^verbatim>\<open>notify_one\<close> wakes.\<close>

definition notify_one :: "nat option \<Rightarrow> rwlock \<Rightarrow> rwlock" where
  "notify_one chosen l = (case chosen of None \<Rightarrow> l | Some u \<Rightarrow> l\<lparr>pc := (pc l)(u := wake (pc l u))\<rparr>)"

definition notify_all :: "rwlock \<Rightarrow> rwlock" where
  "notify_all l = l\<lparr>pc := (\<lambda>u. wake (pc l u))\<rparr>"

definition ReadUnlock :: "nat \<Rightarrow> nat option \<Rightarrow> rwlock \<Rightarrow> rwlock" where
  "ReadUnlock t chosen l =
    (let l1 = l\<lparr>stat := stat l - 1, pc := (pc l)(t := Outside)\<rparr> in if stat l1 = 0 then notify_one chosen l1 else l1)"

definition WriteUnlock :: "nat \<Rightarrow> rwlock \<Rightarrow> rwlock" where
  "WriteUnlock t l = notify_all (l\<lparr>stat := stat l + 1, pc := (pc l)(t := Outside)\<rparr>)"

text \<open>Which thread \<^verbatim>\<open>notify_one\<close> may take: a waiting one, or none if none waits.\<close>

definition may_choose :: "rwlock \<Rightarrow> nat option \<Rightarrow> bool" where
  "may_choose l chosen \<longleftrightarrow> (case chosen of None \<Rightarrow> \<forall>u. \<not> waiting (pc l u) | Some u \<Rightarrow> waiting (pc l u))"

inductive rw_step :: "rwlock \<Rightarrow> rwlock \<Rightarrow> bool" where
  read_lock: "pc l t = Outside \<or> pc l t = WokenRead \<Longrightarrow> rw_step l (ReadLock t l)"
| write_lock: "pc l t = Outside \<or> pc l t = WokenWrite \<Longrightarrow> rw_step l (WriteLock t l)"
| read_unlock: "pc l t = Reading \<Longrightarrow> may_choose l chosen \<Longrightarrow> rw_step l (ReadUnlock t chosen l)"
| write_unlock: "pc l t = Writing \<Longrightarrow> rw_step l (WriteUnlock t l)"
| spurious: "waiting (pc l t) \<Longrightarrow> rw_step l (l\<lparr>pc := (pc l)(t := wake (pc l t))\<rparr>)"

inductive_cases rw_stepE: "rw_step l l'"

definition rw_reach :: "rwlock \<Rightarrow> bool" where
  "rw_reach l \<longleftrightarrow> reach (\<lambda>l. l = ReadWriteLock_new) rw_step l"


section \<open>The invariant\<close>

definition readers :: "rwlock \<Rightarrow> nat set" where
  "readers l = {t. pc l t = Reading}"

definition writers :: "rwlock \<Rightarrow> nat set" where
  "writers l = {t. pc l t = Writing}"

text \<open>\<^verbatim>\<open>stat\<close> counts the holders; readers wait for a writer only; whoever waits on a free lock has a woken thread before it.\<close>

definition rw_inv :: "rwlock \<Rightarrow> bool" where
  "rw_inv l \<longleftrightarrow> finite (readers l) \<and>
    (writers l = {} \<and> stat l = int (card (readers l)) \<or> (\<exists>t. writers l = {t}) \<and> readers l = {} \<and> stat l = -1) \<and>
    (\<forall>t. pc l t = WaitRead \<longrightarrow> stat l < 0) \<and>
    (\<forall>t. waiting (pc l t) \<longrightarrow> stat l \<noteq> 0 \<or> (\<exists>u. woken (pc l u)))"

lemma wake_simps [simp]:
  "wake p = Reading \<longleftrightarrow> p = Reading" "wake p = Writing \<longleftrightarrow> p = Writing" "wake p \<noteq> WaitRead" "\<not> waiting (wake p)" "woken p \<Longrightarrow> woken (wake p)"
  "waiting p \<Longrightarrow> woken (wake p)"
  by (auto simp: wake_def waiting_def woken_def split: if_splits)

lemma pc_sets [simp]:
  "readers (l\<lparr>stat := n\<rparr>) = readers l" "writers (l\<lparr>stat := n\<rparr>) = writers l"
  "readers (l\<lparr>stat := n, pc := (pc l)(t := p)\<rparr>) = (if p = Reading then insert t (readers l) else readers l - {t})"
  "writers (l\<lparr>stat := n, pc := (pc l)(t := p)\<rparr>) = (if p = Writing then insert t (writers l) else writers l - {t})"
  "readers (l\<lparr>pc := (pc l)(t := p)\<rparr>) = (if p = Reading then insert t (readers l) else readers l - {t})"
  "writers (l\<lparr>pc := (pc l)(t := p)\<rparr>) = (if p = Writing then insert t (writers l) else writers l - {t})"
  by (auto simp: readers_def writers_def)

lemma rw_inv_start: "rw_inv ReadWriteLock_new"
  by (simp add: rw_inv_def ReadWriteLock_new_def readers_def writers_def waiting_def)

lemma rw_invD:
  assumes "rw_inv l"
  shows "finite (readers l)" "stat l < 0 \<Longrightarrow> stat l = -1 \<and> readers l = {} \<and> (\<exists>t. writers l = {t})"
    "0 \<le> stat l \<Longrightarrow> writers l = {} \<and> stat l = int (card (readers l))" "pc l t = WaitRead \<Longrightarrow> stat l < 0"
    "waiting (pc l t) \<Longrightarrow> stat l = 0 \<Longrightarrow> \<exists>u. woken (pc l u)"
  using assms by (auto simp: rw_inv_def)

lemma rw_inv_woken:
  assumes "rw_inv l" shows "rw_inv (l\<lparr>pc := (pc l)(t := wake (pc l t))\<rparr>)"
proof -
  let ?l = "l\<lparr>pc := (pc l)(t := wake (pc l t))\<rparr>"
  have "readers ?l = readers l" "writers ?l = writers l" by (auto simp: readers_def writers_def)
  moreover have "woken (pc ?l u)" if "woken (pc l u)" for u using that by (cases "u = t") simp_all
  moreover have "waiting (pc l u)" "pc ?l u = WaitRead \<Longrightarrow> pc l u = WaitRead" if "waiting (pc ?l u)" for u using that by (auto split: if_splits)
  moreover have "waiting (pc ?l u)" if "pc ?l u = WaitRead" for u using that by (simp add: waiting_def)
  ultimately show ?thesis using assms unfolding rw_inv_def by (simp del: fun_upd_apply) blast
qed

lemma rw_inv_ReadLock:
  assumes inv: "rw_inv l" and t: "pc l t = Outside \<or> pc l t = WokenRead" shows "rw_inv (ReadLock t l)"
proof -
  have out: "t \<notin> readers l" "t \<notin> writers l" using t by (auto simp: readers_def writers_def)
  show ?thesis
  proof (cases "stat l < 0")
    case True
    with rw_invD(2) [OF inv] out show ?thesis by (auto simp: ReadLock_def rw_inv_def)
  next
    case False
    with rw_invD(1,3) [OF inv] rw_invD(4) [OF inv] out show ?thesis by (auto simp: ReadLock_def rw_inv_def)
  qed
qed

lemma rw_inv_WriteLock:
  assumes inv: "rw_inv l" and t: "pc l t = Outside \<or> pc l t = WokenWrite" shows "rw_inv (WriteLock t l)"
proof -
  have out: "t \<notin> readers l" "t \<notin> writers l" using t by (auto simp: readers_def writers_def)
  show ?thesis
  proof (cases "stat l = 0")
    case True
    with rw_invD(1,3) [OF inv] rw_invD(4) [OF inv] out show ?thesis by (auto simp: WriteLock_def rw_inv_def)
  next
    case False
    then show ?thesis using rw_invD(1-4) [OF inv] out by (cases "stat l < 0") (auto simp: WriteLock_def rw_inv_def)
  qed
qed

lemma rw_inv_ReadUnlock:
  assumes inv: "rw_inv l" and t: "pc l t = Reading" and ch: "may_choose l chosen" shows "rw_inv (ReadUnlock t chosen l)"
proof -
  let ?l = "l\<lparr>stat := stat l - 1, pc := (pc l)(t := Outside)\<rparr>"
  have r: "t \<in> readers l" using t by (simp add: readers_def)
  then have n: "0 \<le> stat l" using rw_invD(2) [OF inv] by (cases "stat l < 0") auto
  note d = rw_invD(3) [OF inv n] rw_invD(1) [OF inv]
  have st: "stat l - 1 = int (card (readers l - {t}))" using d r card_Diff_singleton [OF r] card_gt_0_iff [of "readers l"] by auto
  have no: "pc l u \<noteq> WaitRead" for u using rw_invD(4) [OF inv, of u] n by auto
  show ?thesis
  proof (cases "stat l - 1 = 0")
    case False
    then have "stat ?l \<noteq> 0" "stat ?l = int (card (readers ?l))" "writers ?l = {}" "finite (readers ?l)" "\<And>u. pc ?l u \<noteq> WaitRead"
      using d st no by (simp_all del: of_nat_eq_0_iff)
    then have "rw_inv ?l" unfolding rw_inv_def by blast
    with False show ?thesis by (simp add: ReadUnlock_def Let_def)
  next
    case True
    show ?thesis
    proof (cases chosen)
      case None
      then have "\<not> waiting (pc l u)" for u using ch by (simp add: may_choose_def)
      then have "rw_inv ?l" using d st no by (auto simp: rw_inv_def waiting_def)
      with None True show ?thesis by (auto simp: ReadUnlock_def notify_one_def Let_def)
    next
      case (Some u)
      then have u: "waiting (pc l u)" using ch by (simp add: may_choose_def)
      then have ut: "u \<noteq> t" using t by (auto simp: waiting_def)
      let ?m = "?l\<lparr>pc := (pc ?l)(u := wake (pc ?l u))\<rparr>"
      have "readers ?m = readers l - {t}" "writers ?m = writers l - {t}" using ut by (auto simp: readers_def writers_def split: if_splits)
      moreover have "woken (pc ?m u)" "\<And>v. pc ?m v \<noteq> WaitRead" using u ut no by auto
      ultimately have "rw_inv ?m" using d st unfolding rw_inv_def by auto
      with Some True show ?thesis by (simp add: ReadUnlock_def notify_one_def Let_def)
    qed
  qed
qed

lemma rw_inv_WriteUnlock:
  assumes inv: "rw_inv l" and t: "pc l t = Writing" shows "rw_inv (WriteUnlock t l)"
proof -
  have w: "t \<in> writers l" using t by (simp add: writers_def)
  then have "stat l < 0" using rw_invD(3) [OF inv] by (cases "stat l < 0") auto
  note d = rw_invD(2) [OF inv this]
  have "readers (WriteUnlock t l) = readers l - {t}" "writers (WriteUnlock t l) = writers l - {t}" "stat (WriteUnlock t l) = stat l + 1"
    "\<And>u. \<not> waiting (pc (WriteUnlock t l) u)"
    by (auto simp: WriteUnlock_def notify_all_def readers_def writers_def)
  with d w show ?thesis by (auto simp: rw_inv_def waiting_def)
qed

interpretation rw: machine_invariant "\<lambda>l. l = ReadWriteLock_new" rw_step rw_inv
proof
  show "rw_inv l" if "l = ReadWriteLock_new" for l using that rw_inv_start by simp
  show "rw_inv l'" if "rw_inv l" "rw_step l l'" for l l'
    using that(2) by (cases rule: rw_step.cases)
      (use that(1) rw_inv_ReadLock rw_inv_WriteLock rw_inv_ReadUnlock rw_inv_WriteUnlock rw_inv_woken in auto)
qed

lemma rw_reach_inv: "rw_reach l \<Longrightarrow> rw_inv l"
  unfolding rw_reach_def by (rule rw.reach_inv)


section \<open>Properties\<close>

text \<open>
  C36: Mutual exclusion.  In every state that any number of threads reach, with spurious wakeups, a writer excludes every other
  holder, and \<^verbatim>\<open>stat\<close> is the number of readers, or \<open>-1\<close> while there is a writer.
\<close>

theorem rw_lock_exclusion:
  assumes "rw_reach l"
  shows "(pc l t = Writing \<and> (pc l u = Writing \<or> pc l u = Reading) \<longrightarrow> u = t) \<and>
    stat l = (if \<exists>t. pc l t = Writing then -1 else int (card {t. pc l t = Reading}))"
proof -
  note inv = rw_reach_inv [OF assms]
  have w: "(\<exists>t. pc l t = Writing) \<longleftrightarrow> writers l \<noteq> {}" by (auto simp: writers_def)
  show ?thesis
  proof (cases "stat l < 0")
    case True
    from rw_invD(2) [OF inv this] obtain v where v: "writers l = {v}" "readers l = {}" "stat l = -1" by blast
    have "pc l x = Writing \<longleftrightarrow> x = v" "pc l x \<noteq> Reading" for x using v(1,2) by (auto simp: writers_def readers_def)
    then show ?thesis using v(3) by auto
  next
    case False
    then have "writers l = {}" "stat l = int (card (readers l))" using rw_invD(3) [OF inv] by auto
    then show ?thesis unfolding w by (auto simp: writers_def readers_def)
  qed
qed

text \<open>
  C37: No lost wakeup.  Whenever a thread waits and the lock is free, some thread has been woken, and every woken thread gets
  the lock if it runs now; and a waiting reader always waits for a writer that holds the lock.  So the lock
  cannot come to rest with threads waiting for it.
\<close>

theorem rw_lock_no_lost_wakeup:
  assumes "rw_reach l" "waiting (pc l t)"
  shows "(stat l = 0 \<longrightarrow> (\<exists>u. woken (pc l u)) \<and>
      (\<forall>u. (pc l u = WokenRead \<longrightarrow> pc (ReadLock u l) u = Reading) \<and> (pc l u = WokenWrite \<longrightarrow> pc (WriteLock u l) u = Writing))) \<and>
    (stat l \<noteq> 0 \<longrightarrow> (\<exists>u. pc l u = Reading \<or> pc l u = Writing)) \<and> (pc l t = WaitRead \<longrightarrow> (\<exists>u. pc l u = Writing))"
proof -
  note inv = rw_reach_inv [OF assms(1)]
  have neg: "\<exists>u. pc l u = Writing" if "stat l < 0" using rw_invD(2) [OF inv that] by (auto simp: writers_def)
  have pos: "\<exists>u. pc l u = Reading" if "0 < stat l"
  proof -
    have "readers l \<noteq> {}" using rw_invD(3) [OF inv] that by auto
    then show ?thesis by (auto simp: readers_def)
  qed
  have "stat l \<noteq> 0 \<longrightarrow> (\<exists>u. pc l u = Reading \<or> pc l u = Writing)" using neg pos by (metis linorder_neqE)
  moreover have "pc l t = WaitRead \<longrightarrow> (\<exists>u. pc l u = Writing)" using neg rw_invD(4) [OF inv] by blast
  ultimately show ?thesis using rw_invD(5) [OF inv assms(2)] by (simp add: ReadLock_def WriteLock_def)
qed

text \<open>A reader holds the lock, a writer waits for it, and the reader leaves: the writer has been woken.\<close>

lemma sample_rw: "rw_reach (WriteLock 1 (ReadLock 0 ReadWriteLock_new))"
proof -
  have "rw_reach ReadWriteLock_new" unfolding rw_reach_def by (rule reach_start) (rule refl)
  then have "rw_reach (ReadLock 0 ReadWriteLock_new)"
    unfolding rw_reach_def by (rule reach_step) (rule read_lock, simp add: ReadWriteLock_new_def)
  then show ?thesis
    unfolding rw_reach_def by (rule reach_step) (rule write_lock, simp add: ReadWriteLock_new_def ReadLock_def)
qed

theorem rw_lock_exclusion_witness:
  "stat (WriteLock 1 (ReadLock 0 ReadWriteLock_new)) = 1 \<and> pc (WriteLock 1 (ReadLock 0 ReadWriteLock_new)) 1 = WaitWrite"
proof -
  let ?l = "WriteLock 1 (ReadLock 0 ReadWriteLock_new)"
  have pc: "pc ?l = (\<lambda>_. Outside)(0 := Reading, 1 := WaitWrite)" by (simp add: WriteLock_def ReadLock_def ReadWriteLock_new_def)
  then have "{t. pc ?l t = Reading} = {0}" "\<not> (\<exists>t. pc ?l t = Writing)" by auto
  then show ?thesis using rw_lock_exclusion [OF sample_rw, of 0 1] pc by (simp only: if_False card.insert finite.emptyI) simp
qed

theorem rw_lock_no_lost_wakeup_witness:
  "\<exists>u. pc (WriteLock 1 (ReadLock 0 ReadWriteLock_new)) u = Reading \<or> pc (WriteLock 1 (ReadLock 0 ReadWriteLock_new)) u = Writing"
proof -
  let ?l = "WriteLock 1 (ReadLock 0 ReadWriteLock_new)"
  have "waiting (pc ?l 1)" "stat ?l \<noteq> 0" by (simp_all add: WriteLock_def ReadLock_def ReadWriteLock_new_def waiting_def)
  then show ?thesis using rw_lock_no_lost_wakeup [OF sample_rw, of 1] by blast
qed

end
