(* ===== verification/Event_Wait.thy ===== *)
theory Event_Wait
  imports Machines
begin

text \<open>
  \<^verbatim>\<open>db/event.h\<close> and the loops of \<^verbatim>\<open>db/data_base.cpp\<close> that wait on it.

  \<^verbatim>\<open>Event::Wait\<close> waits on a condition variable without a predicate, and \<^verbatim>\<open>Notify\<close> does not take the mutex: a
  notification reaches a thread only if it is already waiting.  The state is what the loops test: the flags of the
  storage buffer, \<^verbatim>\<open>is_stop_\<close>, and where the two background threads are.  Spurious wakeups are left out, so that a
  thread that waits needs a notification.
\<close>

section \<open>Events\<close>

text \<open>A thread of a loop around \<^verbatim>\<open>Wait\<close>; \<open>BeforeWait\<close> is after the test of the loop and before the wait set is entered.\<close>

datatype loop_pc = LoopHead | Check | BeforeWait | Waiting | Working | Finished

definition Wait :: "loop_pc \<Rightarrow> loop_pc" where
  "Wait p = (if p = BeforeWait then Waiting else p)"

text \<open>\<open>next\<close> is where the thread goes on after \<^verbatim>\<open>Wait\<close> returns.\<close>

definition Notify :: "loop_pc \<Rightarrow> loop_pc \<Rightarrow> loop_pc" where
  "Notify next p = (if p = Waiting then next else p)"


section \<open>The background threads\<close>

record background =
  bg_idle :: bool
  bg_ready :: bool
  bg_stop :: bool
  bg_flush :: loop_pc
  bg_compact :: loop_pc

definition Start :: background where
  "Start = \<lparr>bg_idle = False, bg_ready = False, bg_stop = False, bg_flush = LoopHead, bg_compact = LoopHead\<rparr>"

text \<open>\<^verbatim>\<open>ProcessingLoopFlushBuffer\<close>; \<open>Working\<close> stands for the file work, which ends with the buffer cleared.\<close>

definition ProcessingLoopFlushBuffer :: "background \<Rightarrow> background" where
  "ProcessingLoopFlushBuffer s =
    (case bg_flush s of
       LoopHead \<Rightarrow> if bg_stop s then s\<lparr>bg_flush := Finished\<rparr> else s\<lparr>bg_idle := True, bg_flush := Check\<rparr>
     | Check \<Rightarrow>
         if \<not> bg_ready s \<and> \<not> bg_stop s then s\<lparr>bg_flush := BeforeWait\<rparr>
         else if bg_stop s then s\<lparr>bg_flush := Finished\<rparr> else s\<lparr>bg_flush := Working\<rparr>
     | BeforeWait \<Rightarrow> s\<lparr>bg_flush := Wait (bg_flush s)\<rparr>
     | Waiting \<Rightarrow> s
     | Working \<Rightarrow> s\<lparr>bg_ready := False, bg_flush := LoopHead\<rparr>
     | Finished \<Rightarrow> s)"

text \<open>\<^verbatim>\<open>ProcessingLoopCompact\<close>; \<open>Check\<close> is the test of \<^verbatim>\<open>is_stop_\<close> after \<^verbatim>\<open>Wait\<close>.\<close>

definition ProcessingLoopCompact :: "background \<Rightarrow> background" where
  "ProcessingLoopCompact s =
    (case bg_compact s of
       LoopHead \<Rightarrow> if bg_stop s then s\<lparr>bg_compact := Finished\<rparr> else s\<lparr>bg_compact := BeforeWait\<rparr>
     | Check \<Rightarrow> if bg_stop s then s\<lparr>bg_compact := Finished\<rparr> else s\<lparr>bg_compact := Working\<rparr>
     | BeforeWait \<Rightarrow> s\<lparr>bg_compact := Wait (bg_compact s)\<rparr>
     | Waiting \<Rightarrow> s
     | Working \<Rightarrow> s\<lparr>bg_compact := LoopHead\<rparr>
     | Finished \<Rightarrow> s)"

text \<open>The end of \<^verbatim>\<open>StorageBuffer::Add\<close>, by whether the income buffer is over its size.\<close>

definition add_notify :: "bool \<Rightarrow> background \<Rightarrow> background" where
  "add_notify over_size s =
    (if over_size \<and> bg_idle s then s\<lparr>bg_idle := False, bg_ready := True, bg_flush := Notify Check (bg_flush s)\<rparr> else s)"

text \<open>The end of \<^verbatim>\<open>StorageEngine::AddFile\<close>, by whether level 0 is over its limit.\<close>

definition addfile_notify :: "bool \<Rightarrow> background \<Rightarrow> background" where
  "addfile_notify over_limit s = (if over_limit then s\<lparr>bg_compact := Notify Check (bg_compact s)\<rparr> else s)"

definition ShutDown :: "background \<Rightarrow> background" where
  "ShutDown s = s\<lparr>bg_stop := True, bg_flush := Notify Check (bg_flush s), bg_compact := Notify Check (bg_compact s)\<rparr>"

datatype bg_op = FlushThread | CompactThread | ClientAdd bool | FlushDone bool | Stop

fun bg_step :: "bg_op \<Rightarrow> background \<Rightarrow> background" where
  "bg_step FlushThread s = ProcessingLoopFlushBuffer s"
| "bg_step CompactThread s = ProcessingLoopCompact s"
| "bg_step (ClientAdd over_size) s = add_notify over_size s"
| "bg_step (FlushDone over_limit) s = (if bg_flush s = Working then addfile_notify over_limit s else s)"
| "bg_step Stop s = ShutDown s"

definition bg_run :: "bg_op list \<Rightarrow> background \<Rightarrow> background" where
  "bg_run ops s = fold bg_step ops s"

lemma bg_run_simps [simp]: "bg_run [] s = s" "bg_run (op # ops) s = bg_run ops (bg_step op s)" "bg_run (xs @ ys) s = bg_run ys (bg_run xs s)"
  by (simp_all add: bg_run_def)

lemmas bg_defs = ProcessingLoopFlushBuffer_def ProcessingLoopCompact_def add_notify_def addfile_notify_def ShutDown_def Wait_def Notify_def


section \<open>Schedules without the race\<close>

text \<open>No one notifies while the thread in question is between its test and its wait.\<close>

fun timely :: "bg_op \<Rightarrow> background \<Rightarrow> bool" where
  "timely (ClientAdd over_size) s = (over_size \<and> bg_idle s \<longrightarrow> bg_flush s \<noteq> BeforeWait)"
| "timely Stop s = (bg_flush s \<noteq> BeforeWait \<and> bg_compact s \<noteq> BeforeWait)"
| "timely FlushThread s = True"
| "timely CompactThread s = True"
| "timely (FlushDone over_limit) s = True"

definition timely_step :: "background \<Rightarrow> background \<Rightarrow> bool" where
  "timely_step s s' \<longleftrightarrow> (\<exists>op. timely op s \<and> s' = bg_step op s)"

definition awake_inv :: "background \<Rightarrow> bool" where
  "awake_inv s \<longleftrightarrow>
    (case bg_flush s of
       LoopHead \<Rightarrow> \<not> bg_idle s \<and> \<not> bg_ready s
     | Check \<Rightarrow> bg_idle s \<noteq> bg_ready s
     | BeforeWait \<Rightarrow> bg_idle s \<and> \<not> bg_ready s \<and> \<not> bg_stop s
     | Waiting \<Rightarrow> bg_idle s \<and> \<not> bg_ready s \<and> \<not> bg_stop s
     | Working \<Rightarrow> \<not> bg_idle s \<and> bg_ready s
     | Finished \<Rightarrow> bg_stop s) \<and>
    (bg_compact s \<in> {BeforeWait, Waiting} \<longrightarrow> \<not> bg_stop s)"

interpretation bg: machine_invariant "\<lambda>s. s = Start" timely_step awake_inv
proof
  show "awake_inv s" if "s = Start" for s using that by (simp add: awake_inv_def Start_def)
  fix s s' assume inv: "awake_inv s" and "timely_step s s'"
  then obtain op where op: "timely op s" "s' = bg_step op s" by (auto simp: timely_step_def)
  show "awake_inv s'"
    using inv op by (cases op) (auto simp: awake_inv_def bg_defs split: loop_pc.splits if_splits)
qed



section \<open>Properties\<close>



end
