(* ===== verification/Logger.thy ===== *)
theory Logger
  imports Entry_Format
begin

text \<open>
  \<^verbatim>\<open>util/log_level.h\<close>, \<^verbatim>\<open>util/logger.h\<close> and \<^verbatim>\<open>util/file_logger.h\<close>: the levels, the filter and the formatting of a log line
  into a buffer on the stack or, when that is too small, on the heap.

  The clock, the thread id and the text that \<^verbatim>\<open>vsnprintf\<close> makes of the format and its arguments are
  parameters.  \<open>None\<close> is a write outside the buffer.
\<close>

section \<open>Levels\<close>

datatype LogLevel = LogLevelTrace | LogLevelDebug | LogLevelInfo | LogLevelWarn | LogLevelError

fun level_value :: "LogLevel \<Rightarrow> int" where
  "level_value LogLevelTrace = 0"
| "level_value LogLevelDebug = 1"
| "level_value LogLevelInfo = 2"
| "level_value LogLevelWarn = 3"
| "level_value LogLevelError = 4"

fun LogLevelString :: "LogLevel \<Rightarrow> bytes" where
  "LogLevelString LogLevelTrace = str ''TRACE''"
| "LogLevelString LogLevelDebug = str ''DEBUG''"
| "LogLevelString LogLevelInfo = str ''INFO''"
| "LogLevelString LogLevelWarn = str ''WARN''"
| "LogLevelString LogLevelError = str ''ERROR''"


section \<open>One line\<close>

text \<open>A write of bytes into a buffer.\<close>

definition store :: "bytes \<Rightarrow> nat \<Rightarrow> bytes \<Rightarrow> bytes option" where
  "store buf p bs = (if p + length bs \<le> length buf then Some (take p buf @ bs @ drop (p + length bs) buf) else None)"

text \<open>\<^verbatim>\<open>snprintf\<close> with room for \<open>n\<close> bytes cuts the text and ends it with a zero byte; its result is the whole length.\<close>

definition snprintf :: "bytes \<Rightarrow> nat \<Rightarrow> nat \<Rightarrow> bytes \<Rightarrow> (bytes \<times> nat) option" where
  "snprintf buf p n txt =
    (if n = 0 then Some (buf, length txt)
     else do { buf' \<leftarrow> store buf p (take (n - 1) txt @ [0]); Some (buf', length txt) })"

record clock =
  tm_year :: int
  tm_mon :: int
  tm_mday :: int
  tm_hour :: int
  tm_min :: int
  tm_sec :: int
  tv_usec :: int
  thread_name :: bytes

definition format_d :: "nat \<Rightarrow> int \<Rightarrow> bytes" where
  "format_d w i = (if i < 0 then 45 # zero_pad (w - 1) (decimal (nat (- i))) else zero_pad w (decimal (nat i)))"

definition log_prefix :: "LogLevel \<Rightarrow> clock \<Rightarrow> bytes" where
  "log_prefix level t =
    str ''['' @ LogLevelString level @ str ''] '' @ format_d 4 (tm_year t + 1900) @ str ''/'' @ format_d 2 (tm_mon t + 1) @ str ''/'' @
    format_d 2 (tm_mday t) @ str ''-'' @ format_d 2 (tm_hour t) @ str '':'' @ format_d 2 (tm_min t) @ str '':'' @ format_d 2 (tm_sec t) @
    str ''.'' @ format_d 2 (tv_usec t) @ str '' thread('' @ thread_name t @ str '') ''"

text \<open>The end of the line, and the bytes that \<^verbatim>\<open>fwrite\<close> gets.\<close>

definition finish_line :: "bytes \<Rightarrow> nat \<Rightarrow> bytes option" where
  "finish_line base p =
    (if p = 0 \<or> base ! (p - 1) \<noteq> 0
     then do { b1 \<leftarrow> store base p [10]; b2 \<leftarrow> store b1 (p + 1) [0]; Some (take (p + 2 - 1) b2) }
     else Some (take (p - 1) base))"

text \<open>One pass of the loop; \<open>None\<close> as the inner result is \<^verbatim>\<open>continue\<close>.\<close>

definition Logv_pass :: "bytes \<Rightarrow> bool \<Rightarrow> bytes \<Rightarrow> bytes \<Rightarrow> bytes option option" where
  "Logv_pass base is_first prefix msg =
    do { let limit = length base;
         (b1, p1) \<leftarrow> snprintf base 0 limit prefix;
         (b2, p2) \<leftarrow> (if p1 < limit then do { (b, n) \<leftarrow> snprintf b1 p1 (limit - p1) msg; Some (b, p1 + n) } else Some (b1, p1));
         if p2 \<ge> limit
         then (if is_first then Some None else do { line \<leftarrow> finish_line b2 (limit - 1); Some (Some line) })
         else do { line \<leftarrow> finish_line b2 p2; Some (Some line) } }"

record FileLogger =
  log_level :: LogLevel
  log_file :: bytes
  multi_thread_env :: bool
  flush :: bool

definition FileLogger_new :: "bytes \<Rightarrow> LogLevel \<Rightarrow> bool \<Rightarrow> bool \<Rightarrow> FileLogger" where
  "FileLogger_new old level multi if_flush = \<lparr>log_level = level, log_file = old, multi_thread_env = multi, flush = if_flush\<rparr>"

text \<open>\<open>stack\<close> and \<open>heap\<close> are the buffers of 500 and of 30000 bytes, with whatever they hold.\<close>

definition Logv :: "bytes \<Rightarrow> bytes \<Rightarrow> FileLogger \<Rightarrow> LogLevel \<Rightarrow> clock \<Rightarrow> bytes \<Rightarrow> FileLogger option" where
  "Logv stack heap lg level t msg =
    do { r \<leftarrow> Logv_pass stack True (log_prefix level t) msg;
         case r of
           Some line \<Rightarrow> Some (lg\<lparr>log_file := log_file lg @ line\<rparr>)
         | None \<Rightarrow>
             do { r' \<leftarrow> Logv_pass heap False (log_prefix level t) msg;
                  case r' of Some line \<Rightarrow> Some (lg\<lparr>log_file := log_file lg @ line\<rparr>) | None \<Rightarrow> Some lg } }"

text \<open>\<^verbatim>\<open>Trace\<close>, \<^verbatim>\<open>Debug\<close>, \<^verbatim>\<open>Info\<close>, \<^verbatim>\<open>Warn\<close> and \<^verbatim>\<open>Error\<close> differ in their level only.\<close>

definition log_at :: "LogLevel \<Rightarrow> bytes \<Rightarrow> bytes \<Rightarrow> FileLogger \<Rightarrow> clock \<Rightarrow> bytes \<Rightarrow> FileLogger option" where
  "log_at level stack heap lg t msg = (if level_value level < level_value (log_level lg) then Some lg else Logv stack heap lg level t msg)"


section \<open>What a line is\<close>

lemma store_eq: "p + length bs \<le> length buf \<Longrightarrow> store buf p bs = Some (take p buf @ bs @ drop (p + length bs) buf)"
  by (simp add: store_def)

lemma store_None: "store buf p bs = None \<longleftrightarrow> length buf < p + length bs"
  by (auto simp: store_def)

text \<open>After both calls the buffer starts with the text, cut to leave room for the zero byte.\<close>

lemma finish_line_text:
  assumes "take p base = txt" "p = length txt" "txt \<noteq> []" "0 \<notin> set txt" "p \<le> length base"
  shows "finish_line base p = (if p + 2 \<le> length base then Some (txt @ [10]) else None)"
proof -
  have "base ! (p - 1) = last txt" using assms by (metis One_nat_def diff_less last_conv_nth length_greater_0_conv nth_take zero_less_one)
  then have nz: "base ! (p - 1) \<noteq> 0" using assms(3,4) by (metis last_in_set)
  show ?thesis using assms nz by (auto simp: finish_line_def store_def)
qed

lemma snprintf_eq:
  assumes "0 < n" "p + n \<le> length buf"
  shows "snprintf buf p n txt = Some (take p buf @ (take (n - 1) txt @ [0]) @ drop (p + Suc (min (length txt) (n - 1))) buf, length txt)"
  using assms by (simp add: snprintf_def store_eq min_def)

lemma Logv_pass_text:
  assumes tx: "prefix \<noteq> []" "0 \<notin> set (prefix @ msg)" and n: "2 \<le> length base"
  shows "Logv_pass base is_first prefix msg =
    (if length base \<le> length (prefix @ msg) then (if is_first then Some None else None)
     else if length (prefix @ msg) + 2 \<le> length base then Some (Some (prefix @ msg @ [10])) else None)"
proof -
  let ?N = "length base" and ?t = "prefix @ msg"
  define b1 where "b1 = take (?N - 1) prefix @ [0] @ drop (Suc (min (length prefix) (?N - 1))) base"
  have s1: "snprintf base 0 ?N prefix = Some (b1, length prefix)" using snprintf_eq [of ?N 0 base prefix] n by (cases base) (simp_all add: b1_def)
  have len1: "length b1 = ?N" using n by (simp add: b1_def min_def)
  obtain b2 where s2: "(if length prefix < ?N then do { (b, n) \<leftarrow> snprintf b1 (length prefix) (?N - length prefix) msg; Some (b, length prefix + n) }
      else Some (b1, length prefix)) = Some (b2, if length prefix < ?N then length ?t else length prefix)"
    and b2: "length b2 = ?N" "take (min (length ?t) (?N - 1)) b2 = take (?N - 1) ?t"
  proof (cases "length prefix < ?N")
    case True
    let ?m = "take (?N - length prefix - 1) msg @ [0]"
    define b2 where "b2 = take (length prefix) b1 @ ?m @ drop (length prefix + Suc (min (length msg) (?N - length prefix - 1))) b1"
    have p: "take (length prefix) b1 = prefix" using True by (simp add: b1_def)
    have "snprintf b1 (length prefix) (?N - length prefix) msg = Some (b2, length msg)"
      using snprintf_eq [of "?N - length prefix" "length prefix" b1 msg] True len1 by (simp add: b2_def)
    moreover have "length b2 = ?N" using True len1 p by (simp add: b2_def min_def)
    moreover have "take (min (length ?t) (?N - 1)) b2 = take (?N - 1) ?t" using True unfolding b2_def p by (auto simp: min_def)
    ultimately show ?thesis using that [of b2] True by simp
  next
    case False
    then show ?thesis using that [of b1] len1 by (auto simp: b1_def min_def)
  qed
  let ?p = "if length prefix < ?N then length ?t else length prefix"
  have ge: "?N \<le> ?p \<longleftrightarrow> ?N \<le> length ?t" by auto
  have pass: "Logv_pass base is_first prefix msg =
      (if ?N \<le> ?p then (if is_first then Some None else do { line \<leftarrow> finish_line b2 (?N - 1); Some (Some line) })
       else do { line \<leftarrow> finish_line b2 ?p; Some (Some line) })"
    by (simp only: Logv_pass_def Let_def s1 s2 bind.bind_lunit prod.case)
  show ?thesis
  proof (cases "?N \<le> length ?t")
    case True
    have "take (?N - 1) ?t \<noteq> []" "0 \<notin> set (take (?N - 1) ?t)" using tx n by (auto dest: in_set_takeD)
    moreover have "min (length ?t) (?N - 1) = ?N - 1" using True by simp
    then have "take (?N - 1) b2 = take (?N - 1) ?t" using b2(2) by (simp only:)
    moreover have "?N - 1 = length (take (?N - 1) ?t)" using True by simp
    ultimately have "finish_line b2 (?N - 1) = (if ?N - 1 + 2 \<le> length b2 then Some (take (?N - 1) ?t @ [10]) else None)"
      using b2(1) by (intro finish_line_text) simp_all
    then have "finish_line b2 (?N - 1) = None" using b2(1) n by simp
    with True show ?thesis unfolding pass ge by simp
  next
    case False
    then have "?p = length ?t" "take (length ?t) b2 = ?t" using b2(2) by (auto simp: min_def split: if_splits)
    then have "finish_line b2 ?p = (if length ?t + 2 \<le> ?N then Some (?t @ [10]) else None)"
      using finish_line_text [of "length ?t" b2 ?t] tx b2(1) False by simp
    with False show ?thesis unfolding pass ge by simp
  qed
qed

lemma log_prefix_text: "log_prefix level t \<noteq> []"
  by (simp add: log_prefix_def str_def)

lemma zero_pad_no_zero: "0 \<notin> set (zero_pad w (decimal n))"
  using decimal_digits [of n] by (auto simp: zero_pad_def is_digit_def)

lemma log_prefix_no_zero: "0 \<notin> set (thread_name t) \<Longrightarrow> 0 \<notin> set (log_prefix level t)"
  using zero_pad_no_zero by (cases level) (auto simp: log_prefix_def str_def format_d_def)


section \<open>Properties\<close>



end
