(* ===== verification/Sequence_Generator.thy ===== *)
theory Sequence_Generator
  imports KV_Prelude "HOL-Library.Product_Lexorder"
begin

text \<open>
  \<^verbatim>\<open>util/sequence_generator.cpp\<close>: random keys and values for the benchmarks and tests.

  \<^verbatim>\<open>rand\<close> and \<^verbatim>\<open>srand\<close> belong to the C library: \<open>rand\<close> maps a state to a non-negative number and the next state, \<open>srand\<close> a seed to a
  state.  \<^verbatim>\<open>std::set\<close> is the sorted list of its elements.
\<close>

type_synonym 's rand = "'s \<Rightarrow> nat \<times> 's"

definition random_char :: "'s rand \<Rightarrow> 's \<Rightarrow> byte \<times> 's" where
  "random_char rand s =
    (let (r, s1) = rand s in
     case r mod 3 of
       0 \<Rightarrow> let (q, s2) = rand s1 in (65 + of_nat (q mod 26), s2)
     | Suc 0 \<Rightarrow> let (q, s2) = rand s1 in (97 + of_nat (q mod 26), s2)
     | _ \<Rightarrow> let (q, s2) = rand s1 in (48 + of_nat (q mod 10), s2))"

fun random_chars :: "'s rand \<Rightarrow> nat \<Rightarrow> 's \<Rightarrow> bytes \<times> 's" where
  "random_chars rand 0 s = ([], s)"
| "random_chars rand (Suc n) s = (let (c, s1) = random_char rand s; (cs, s2) = random_chars rand n s1 in (c # cs, s2))"

definition RandomString :: "'s rand \<Rightarrow> int \<Rightarrow> 's \<Rightarrow> bytes \<times> 's" where
  "RandomString rand len s = random_chars rand (nat len) s"

text \<open>The order in which the two arguments of \<^verbatim>\<open>std::pair\<close> are evaluated is not fixed; here it is left to right.\<close>

fun random_pairs :: "'s rand \<Rightarrow> int \<Rightarrow> int \<Rightarrow> nat \<Rightarrow> 's \<Rightarrow> (bytes \<times> bytes) list \<times> 's" where
  "random_pairs rand kl vl 0 s = ([], s)"
| "random_pairs rand kl vl (Suc n) s =
    (let (k, s1) = RandomString rand kl s; (v, s2) = RandomString rand vl s1; (ps, s3) = random_pairs rand kl vl n s2 in ((k, v) # ps, s3))"

definition RandomKvPairs :: "'s rand \<Rightarrow> (int \<Rightarrow> 's) \<Rightarrow> int \<Rightarrow> int \<Rightarrow> int \<Rightarrow> int \<Rightarrow> (bytes \<times> bytes) list" where
  "RandomKvPairs rand srand num key_len value_len seed = sorted_list_of_set (set (fst (random_pairs rand key_len value_len (nat num) (srand seed))))"


section \<open>What they yield\<close>

definition alnum :: "byte \<Rightarrow> bool" where
  "alnum b \<longleftrightarrow> 65 \<le> b \<and> b \<le> 90 \<or> 97 \<le> b \<and> b \<le> 122 \<or> 48 \<le> b \<and> b \<le> 57"

lemma of_nat_byte_le: "a \<le> b \<Longrightarrow> b < 256 \<Longrightarrow> (of_nat a :: byte) \<le> of_nat b"
  by (simp add: word_of_nat_less_eq_iff take_bit_nat_eq_self)

lemma offset_range:
  assumes "m < k" "a + k \<le> 256"
  shows "(of_nat a :: byte) \<le> of_nat a + of_nat m" "(of_nat a :: byte) + of_nat m \<le> of_nat (a + k - 1)"
proof -
  have "(of_nat a :: byte) \<le> of_nat (a + m)" "(of_nat (a + m) :: byte) \<le> of_nat (a + k - 1)"
    by (rule of_nat_byte_le; use assms in linarith)+
  then show "(of_nat a :: byte) \<le> of_nat a + of_nat m" "(of_nat a :: byte) + of_nat m \<le> of_nat (a + k - 1)" by (simp_all only: of_nat_add)
qed

lemma random_char_alnum: "alnum (fst (random_char rand s))"
proof -
  have "alnum (65 + of_nat (q mod 26))" "alnum (97 + of_nat (q mod 26))" "alnum (48 + of_nat (q mod 10))" for q :: nat
    using offset_range [of "q mod 26" 26 65] offset_range [of "q mod 26" 26 97] offset_range [of "q mod 10" 10 48] by (simp_all add: alnum_def)
  then show ?thesis by (simp add: random_char_def case_prod_unfold Let_def split: nat.split)
qed

lemma random_chars_length: "length (fst (random_chars rand n s)) = n" "\<forall>b \<in> set (fst (random_chars rand n s)). alnum b"
proof (induction n arbitrary: s)
  case (Suc n)
  { case 1 then show ?case using Suc.IH(1) by (simp add: case_prod_unfold Let_def) }
  { case 2 then show ?case using Suc.IH(2) random_char_alnum by (auto simp: case_prod_unfold Let_def) }
qed simp_all

lemma RandomString_ok: "length (fst (RandomString rand len s)) = nat len" "\<forall>b \<in> set (fst (RandomString rand len s)). alnum b"
  by (simp_all add: RandomString_def random_chars_length)

lemma random_pairs_ok:
  "length (fst (random_pairs rand kl vl n s)) = n"
  "\<forall>(k, v) \<in> set (fst (random_pairs rand kl vl n s)). length k = nat kl \<and> length v = nat vl \<and> (\<forall>b \<in> set (k @ v). alnum b)"
proof (induction n arbitrary: s)
  case (Suc n)
  { case 1 then show ?case using Suc.IH(1) by (simp add: case_prod_unfold Let_def) }
  { case 2 then show ?case using Suc.IH(2) RandomString_ok(1) RandomString_ok(2) [rule_format] by (auto simp: case_prod_unfold Let_def) }
qed simp_all

text \<open>
  \<^verbatim>\<open>RandomKvPairs\<close> yields distinct pairs in order, at most as many as asked for; keys and values have the lengths asked for and
  consist of letters and digits.
\<close>

lemma RandomKvPairs_ok:
  assumes ps_def: "ps = RandomKvPairs rand srand num kl vl seed"
  shows "sorted ps" "distinct ps" "length ps \<le> nat num"
    "(k, v) \<in> set ps \<Longrightarrow> length k = nat kl \<and> length v = nat vl \<and> (\<forall>b \<in> set (k @ v). alnum b)"
proof -
  let ?xs = "fst (random_pairs rand kl vl (nat num) (srand seed))"
  have ps: "ps = sorted_list_of_set (set ?xs)" by (simp add: ps_def RandomKvPairs_def)
  show "sorted ps" "distinct ps" by (simp_all add: ps)
  have "length ps = card (set ?xs)" by (simp add: ps)
  also have "\<dots> \<le> nat num" using card_length [of ?xs] by (simp add: random_pairs_ok(1))
  finally show "length ps \<le> nat num" .
  show "length k = nat kl \<and> length v = nat vl \<and> (\<forall>b \<in> set (k @ v). alnum b)" if "(k, v) \<in> set ps"
    using that random_pairs_ok(2) [of rand kl vl "nat num" "srand seed"] by (auto simp: ps)
qed

end
