(* ===== verification/Spec2Isabelle.thy ===== *)
theory Spec2Isabelle
  imports Server_Runs Lookup_Runs Event_Loop Random_Gen Compaction_Properties Read_Write_Lock Event_Wait Logger Sequence_Generator
begin

text \<open>
  \<^bold>\<open>A verification of kv-storage\<close>, a key-value store in C++ built as a log-structured merge tree.

  \<^bold>\<open>The program.\<close>  Clients send requests to a server (\<^verbatim>\<open>db/server_main.cpp\<close>), whose thread pool runs them on a database
  (\<^verbatim>\<open>db/data_base.cpp\<close>).  The database puts new entries into a storage buffer (\<^verbatim>\<open>db/storage_buffer.cpp\<close>), two skip lists over
  arenas; a full one is handed to the flush thread, which writes it as a sorted data file (\<^verbatim>\<open>db/file.h\<close>).  The storage engine
  (\<^verbatim>\<open>db/storage_engine.cpp\<close>) keeps the files in levels, finds those that may hold a key, and compacts levels that grew beyond their
  limit by an n-way merge into the next one.  An LRU cache (\<^verbatim>\<open>structure/cache.cpp\<close>) keeps the key tables of files.

  \<^bold>\<open>The theories\<close>, from the bottom up.  Definitions carry the names of the functions they translate.

  \<^item> \<open>KV_Prelude\<close>: bytes, words, views of memory (a position may be outside of what may be read), sorted insertion.  \<open>Machines\<close>: the states
    that threads reach, and a locale for proofs by invariant.
  \<^item> \<open>Coding\<close> (\<^verbatim>\<open>util/coding.cpp\<close>, \<^verbatim>\<open>util/endian.cpp\<close>): all encoders and decoders on 32 and 64 bit words; round trips, bounds, and that
    the unrolled encoder equals the loop.
  \<^item> \<open>Entry_Format\<close> (\<^verbatim>\<open>util/utils.h\<close>, \<^verbatim>\<open>util/comparator.h\<close>, \<^verbatim>\<open>type/\<close>): encoded entries, their order, file names.
  \<^item> \<open>Random_Gen\<close> (\<^verbatim>\<open>structure/random.h\<close>), \<open>Arena\<close> (\<^verbatim>\<open>structure/memory.cpp\<close>): the generator; allocation in a heap of blocks, with
    the locale \<open>allocator\<close> for what both allocation functions promise: regions are fresh and disjoint.
  \<^item> \<open>Skip_List\<close> (\<^verbatim>\<open>structure/skip_list.h\<close>) with \<open>Skip_List_Correct\<close>, \<open>Skip_List_Insert\<close>, \<open>Skip_List_API\<close>: nodes with towers of links; search, insertion and
    iterators, proved over the locale \<open>ordered_keys\<close>, the contract of the comparator, which \<open>Buffer_Correct\<close> interprets for encoded entries.
  \<^item> \<open>File_Format\<close>: the bytes \<^verbatim>\<open>Flush\<close> writes and what \<^verbatim>\<open>File\<close>, \<^verbatim>\<open>LoadKeyOffset\<close> and \<^verbatim>\<open>GetValueByOffset\<close> read; they are inverse to each other.
  \<^item> \<open>Storage_Buffer\<close>, \<open>Buffer_Correct\<close>, \<open>Buffer_Runs\<close>: the buffer; every run of it refines two sorted lists.
  \<^item> \<open>LRU_Cache\<close>: the linked list in a store of nodes refines a list of tables with the most recent first; the locale \<open>table_cache\<close> is what
    the database relies on.
  \<^item> \<open>Storage_Engine\<close>, \<open>Engine_Correct\<close>: opening, new files, lookup; \<open>eng_ok\<close> is the invariant of the engine, \<open>eng_lookup\<close> what it stores.
  \<^item> \<open>Compaction\<close>: the merge, the choice of files, the maps, \<^verbatim>\<open>Compact\<close>.  \<open>Merge_Rep\<close> and \<open>Merge_Correct\<close> show that the merge yields in order, for
    each key, the entry of the best file that has it; \<open>Engine_Levels\<close>, \<open>Compaction_Maps\<close> and \<open>Compaction_Correct\<close> that exchanging the files keeps the invariant and every
    live value; \<open>Compaction_Rounds\<close> and \<open>Compaction_Total\<close> that the files picked are closed under overlap and that \<^verbatim>\<open>Compact\<close> ends with every level within its limit.
  \<^item> \<open>Engine_Open\<close>, \<open>Engine_Runs\<close>, \<open>Engine_Properties\<close>, \<open>Compaction_Properties\<close>: histories of flushes, compactions and restarts; the merge against a
    reference; a deleted key that comes back.
  \<^item> \<open>Database\<close>, \<open>Database_Correct\<close>, \<open>Database_Runs\<close>: client operations and the steps of the flush thread in any order refine a machine without memory, files or
    cache; reads return the latest write outside a window of the flush thread.
  \<^item> \<open>Compaction_Thread\<close>: the compaction thread as a program counter and a step function, with \<^verbatim>\<open>Compact\<close> cut where the code takes and
    releases its lock; run alone it computes \<open>Compact\<close>.  \<open>Staged_Correct\<close>: what it relies on between its steps, and that the flush thread keeps
    it.  \<open>Threads_Correct\<close>, \<open>Threads_Runs\<close>: clients and both threads in any order refine the machine of \<open>Database_Runs\<close>, up to tombstones a merge has dropped; reads of
    keys not deleted return the latest write; the thread always comes back to its wait with the levels from 1 on within their limits.
    \<open>Lookup_Runs\<close>: a lookup cut between its search of the buffers and its search of the files returns what was the latest at some moment of it.
  \<^item> \<open>Server\<close>: requests and replies of a connection, the task of a worker.  \<open>Event_Loop\<close>: the loop of \<^verbatim>\<open>main\<close> over epoll and the workers that
    close sockets beside it; a connection has at most one task and is watched exactly while it has none.  \<open>Server_Runs\<close>: the database as \<^verbatim>\<open>main\<close>
    sets it up, connections and both threads in any order; replies are those of the abstract machine.
  \<^item> \<open>Read_Write_Lock\<close>, \<open>Event_Wait\<close>, \<open>Thread_Pool\<close>: the synchronisation, as step relations
    with wait sets.  \<open>Logger\<close>, \<open>Sequence_Generator\<close>: log lines and random strings.

  \<^bold>\<open>Conventions.\<close>  \<open>None\<close> is undefined behaviour, a failed assertion, an uncaught exception, or a loop that does not end; theorems of
  the form \<open>f x = Some y\<close> exclude all of these.  The order in which a hash table is iterated (\<open>iteration\<close>), the byte order of the host
  (\<open>host\<close>) and the listing of a directory (\<open>readdir\<close>) are parameters with the documented properties as hypotheses.  Operations under a mutex
  are single steps; the atomics of the skip list are plain accesses.

  \<^bold>\<open>Bounds.\<close>  Runs of the database have fewer than \<open>10^8\<close> operations and 256 MiB of data, below where the 32-bit sizes and the eight digits of file ids end.
  With the compaction thread, a run of \<open>n\<close> steps that adds \<open>M\<close> entries has \<open>n * (M + 1) < 10^8\<close>, as a merge writes at most one file per entry; that the thread comes back needs
  room for \<open>M * (31 * M + 1)\<close> more ids: every round moves an entry down, and a level from 31 on would need a limit beyond \<open>int\<close>, so that none is visited.
  Histories of the engine with \<open>N\<close> entries in \<open>n\<close> operations need \<open>N \<le> 10^K\<close> and \<open>n + N * N * K < 10^8\<close>: a level holds entries only if its limit \<open>10^l\<close> is
  below \<open>N\<close>, so that entries descend through at most \<open>K\<close> levels, every round moves one down and uses at most \<open>N\<close> file ids, and ids have eight digits.

  \<^bold>\<open>Not modelled.\<close>  Addresses, ports and error texts of the sockets, the benchmarks' measurements and monitors, and the test framework are system calls and
  printing; what \<^verbatim>\<open>accept\<close>, \<^verbatim>\<open>epoll_wait\<close> and \<^verbatim>\<open>recv\<close> return is a choice of the environment.  In the runs of both threads the merge of
  a compaction is one step (it reads files that do not change, and only takes ids from what is shared).  A lookup is two steps, each under its lock; in \<open>Server_Runs\<close> the answer to a request is one.  The histories of \<open>Engine_Runs\<close> treat a whole compaction as one step; the runs of \<open>Threads_Runs\<close> do not.
\<close>

end
